(* ===== verification/Prelude.thy ===== *)
theory Prelude
  imports Main "HOL-Library.Word"
begin

text \<open>
  What every component shares: the machine types of \<open>include/arch/cc.h\<close>, the faults a
  C program can run into (a memory access outside its object, a failed assertion), the
  result type that carries them, and checked reads and writes on byte buffers. A buffer is
  the list of the bytes of one C object; a pointer into it is an offset. The collections
  \<open>mem_simps\<close> (unfolding of checked accesses) and \<open>res_split\<close> (case splits on
  results) carry the component proofs.
\<close>

unbundle bit_operations_syntax

named_theorems mem_simps \<open>checked memory accesses that are known to stay in bounds\<close>
named_theorems mem_defs \<open>definitions of the checked accesses\<close>

section \<open>Types of the port\<close>

text \<open>The fixed-width integers of \<open>cc.h\<close>.\<close>

type_synonym u8 = "8 word"
type_synonym u16 = "16 word"
type_synonym u32 = "32 word"

section \<open>Faults and results\<close>

text \<open>
  \<open>OutOfBounds\<close> is an access outside the object a pointer was made from, \<open>NullDeref\<close> an
  access through a null pointer (both undefined behaviour in C), \<open>AssertFail\<close> a failed
  \<open>P_ASSERT\<close>, \<open>Hang\<close> an endless loop the code enters on purpose.
\<close>

datatype fault = OutOfBounds | NullDeref | AssertFail | Hang

text \<open>The error codes of lwIP the code returns.\<close>

datatype err_t = ERR_OK | ERR_MEM | ERR_IF

type_synonym 'a res = "fault + 'a"

definition rbind :: "'a res \<Rightarrow> ('a \<Rightarrow> 'b res) \<Rightarrow> 'b res" where
  "rbind r k = (case r of Inl e \<Rightarrow> Inl e | Inr x \<Rightarrow> k x)"

lemma rbind_simps [simp]:
  "rbind (Inl e) k = Inl e"
  "rbind (Inr x) k = k x"
  by (simp_all add: rbind_def)

lemma rbind_cong [fundef_cong]:
  assumes "r = r'" and "\<And>x. r' = Inr x \<Longrightarrow> k x = k' x"
  shows "rbind r k = rbind r' k'"
  using assms by (cases r') simp_all

lemma rbind_eq_Inr_iff: "rbind r k = Inr y \<longleftrightarrow> (\<exists>x. r = Inr x \<and> k x = Inr y)"
  by (cases r) simp_all

lemma rbind_eq_Inl_iff:
  "rbind r k = Inl e \<longleftrightarrow> r = Inl e \<or> (\<exists>x. r = Inr x \<and> k x = Inl e)"
  by (cases r) simp_all

lemma rbind_assoc: "rbind (rbind r f) g = rbind r (\<lambda>x. rbind (f x) g)"
  by (cases r) simp_all

definition is_ok :: "'a res \<Rightarrow> bool" where
  "is_ok r \<longleftrightarrow> (case r of Inl _ \<Rightarrow> False | Inr _ \<Rightarrow> True)"

lemma is_ok_simps [simp]: "is_ok (Inr x)" "\<not> is_ok (Inl e)"
  by (simp_all add: is_ok_def)

lemma is_ok_iff: "is_ok r \<longleftrightarrow> (\<exists>x. r = Inr x)"
  by (cases r) simp_all

section \<open>Checked memory accesses\<close>

text \<open>Reading one byte, reading \<open>n\<close> bytes (the source of a \<open>memcpy\<close>), writing bytes.\<close>

definition rd :: "u8 list \<Rightarrow> nat \<Rightarrow> u8 res" where
  "rd m i = (if i < length m then Inr (m ! i) else Inl OutOfBounds)"

definition rd_n :: "u8 list \<Rightarrow> nat \<Rightarrow> nat \<Rightarrow> u8 list res" where
  "rd_n m i n = (if i + n \<le> length m then Inr (take n (drop i m)) else Inl OutOfBounds)"

text \<open>\<open>splice m i bs\<close> is \<open>m\<close> with \<open>bs\<close> stored from offset \<open>i\<close> on.\<close>

definition splice :: "'a list \<Rightarrow> nat \<Rightarrow> 'a list \<Rightarrow> 'a list" where
  "splice m i bs = take i m @ bs @ drop (i + length bs) m"

definition wr_n :: "u8 list \<Rightarrow> nat \<Rightarrow> u8 list \<Rightarrow> u8 list res" where
  "wr_n m i bs =
     (if i + length bs \<le> length m then Inr (splice m i bs) else Inl OutOfBounds)"

declare rd_def [mem_defs] rd_n_def [mem_defs] wr_n_def [mem_defs]

lemma rd_in [mem_simps]: "i < length m \<Longrightarrow> rd m i = Inr (m ! i)"
  by (simp add: rd_def)

lemma rd_n_in [mem_simps]: "i + n \<le> length m \<Longrightarrow> rd_n m i n = Inr (take n (drop i m))"
  by (simp add: rd_n_def)

lemma wr_n_in [mem_simps]:
  "i + length bs \<le> length m \<Longrightarrow> wr_n m i bs = Inr (splice m i bs)"
  by (simp add: wr_n_def)

lemma rd_InrD: "rd m i = Inr b \<Longrightarrow> i < length m \<and> b = m ! i"
  by (simp add: rd_def split: if_splits)

lemma rd_n_InrD: "rd_n m i n = Inr bs \<Longrightarrow> i + n \<le> length m \<and> bs = take n (drop i m)"
  by (simp add: rd_n_def split: if_splits)

lemma rd_n_length: "rd_n m i n = Inr bs \<Longrightarrow> length bs = n"
  by (auto dest!: rd_n_InrD)

lemma length_splice [simp]:
  "i + length bs \<le> length m \<Longrightarrow> length (splice m i bs) = length m"
  by (simp add: splice_def)

lemma wr_n_length: "wr_n m i bs = Inr m' \<Longrightarrow> length m' = length m"
  by (auto simp: wr_n_def split: if_splits)

text \<open>Bytes outside the written range keep their value; inside it they are the new ones.\<close>

lemma nth_splice:
  assumes "i + length bs \<le> length m" and "j < length m"
  shows "splice m i bs ! j = (if i \<le> j \<and> j < i + length bs then bs ! (j - i) else m ! j)"
  using assms by (auto simp: splice_def nth_append)

lemma splice_same [simp]:
  assumes "i + length bs \<le> length m"
  shows "take (length bs) (drop i (splice m i bs)) = bs"
  using assms by (simp add: splice_def)

text \<open>Two adjacent writes are one.\<close>

lemma splice_adjacent:
  assumes "i + length as + length bs \<le> length m"
  shows "splice (splice m i as) (i + length as) bs = splice m i (as @ bs)"
  using assms by (simp add: splice_def ac_simps)

text \<open>Reading a range that a write did not touch.\<close>

lemma take_drop_splice:
  assumes "i + length bs \<le> length m" and "j + n \<le> i \<or> i + length bs \<le> j" and "j + n \<le> length m"
  shows "take n (drop j (splice m i bs)) = take n (drop j m)"
  by (rule nth_equalityI) (use assms in \<open>auto simp: nth_splice\<close>)

lemma rd_n_nth:
  "rd_n m i n = Inr bs \<Longrightarrow> j < n \<Longrightarrow> bs ! j = m ! (i + j)"
  by (auto dest!: rd_n_InrD)

lemma rd_n_eqI:
  assumes "i + n \<le> length m" and "length bs = n" and "\<And>j. j < n \<Longrightarrow> m ! (i + j) = bs ! j"
  shows "rd_n m i n = Inr bs"
proof -
  have "take n (drop i m) = bs"
    by (rule nth_equalityI) (use assms in \<open>simp_all\<close>)
  with assms(1) show ?thesis by (simp add: rd_n_def)
qed

section \<open>Searches that take the first hit\<close>

text \<open>A \<open>for\<close> loop that returns at the first index with a property is \<open>find\<close>.\<close>

lemma find_upt_Some_iff:
  "find P [0..<n] = Some i \<longleftrightarrow> i < n \<and> P i \<and> (\<forall>j<i. \<not> P j)"
proof
  assume "find P [0..<n] = Some i"
  then show "i < n \<and> P i \<and> (\<forall>j<i. \<not> P j)"
    by (auto simp: find_Some_iff)
next
  assume a: "i < n \<and> P i \<and> (\<forall>j<i. \<not> P j)"
  then show "find P [0..<n] = Some i"
    by (auto simp: find_Some_iff intro: exI [of _ i])
qed

lemma find_upt_None_iff: "find P [0..<n] = None \<longleftrightarrow> (\<forall>i<n. \<not> P i)"
  by (auto simp: find_None_iff)

lemma option_eqI: "(\<And>y. x = Some y \<longleftrightarrow> z = Some y) \<Longrightarrow> x = z"
  by (cases x; cases z) auto

end
