(* ===== verification/Dhcp_Leases.thy ===== *)
theory Dhcp_Leases
  imports Prelude
begin

text \<open>
  The lease table of the DHCP server (\<open>apps/dhcps/dhcps.c\<close>): the array \<open>leases\<close> and
  \<open>allocateAddr\<close>. The contract a server relies on is the locale \<open>address_pool\<close>; the
  table is its instance \<open>lt\<close>.
\<close>

section \<open>Addresses and leases\<close>

text \<open>
  An \<open>ip4_addr_t\<close> as the code observes it: the four bytes it copies in and out with
  \<open>memcpy(.., 4)\<close>, in memory order.
\<close>

datatype ip4 = IP4 u8 u8 u8 u8

fun ip4_bytes :: "ip4 \<Rightarrow> u8 list" where
  "ip4_bytes (IP4 a b c d) = [a, b, c, d]"

text \<open>Four bytes read as an address, the target of \<open>memcpy(&addr, p, 4)\<close>.\<close>

definition ip4_of_bytes :: "u8 list \<Rightarrow> ip4" where
  "ip4_of_bytes bs = IP4 (bs ! 0) (bs ! 1) (bs ! 2) (bs ! 3)"

lemma length_ip4_bytes [simp]: "length (ip4_bytes a) = 4"
  by (cases a) simp

lemma ip4_of_bytes_inverse [simp]: "ip4_of_bytes (ip4_bytes a) = a"
  by (cases a) (simp add: ip4_of_bytes_def)

lemma ip4_bytes_inject [simp]: "ip4_bytes a = ip4_bytes b \<longleftrightarrow> a = b"
  by (metis ip4_of_bytes_inverse)

lemma ip4_bytes_of_bytes:
  assumes "length bs = 4"
  shows "ip4_bytes (ip4_of_bytes bs) = bs"
proof -
  from assms obtain a b c d where "bs = [a, b, c, d]"
    by (auto simp: length_Suc_conv numeral_eq_Suc)
  then show ?thesis by (simp add: ip4_of_bytes_def)
qed

record lease =
  lease_mac :: "u8 list"
  lease_ip :: ip4

definition MAX_LEASES :: nat where
  "MAX_LEASES = 3"

definition freeMac :: "u8 list" where
  "freeMac = [0, 0, 0, 0, 0, 0]"

lemma length_freeMac [simp]: "length freeMac = 6"
  by (simp add: freeMac_def)

section \<open>allocateAddr\<close>

text \<open>
  The first component is the address stored through \<open>ip\<close>, \<open>None\<close> where the code returns
  -1. The first loop looks for the client's own entry, the second for a free one.
\<close>

definition allocateAddr :: "u8 list \<Rightarrow> lease list \<Rightarrow> ip4 option \<times> lease list" where
  "allocateAddr mac ls =
     (case find (\<lambda>i. mac = lease_mac (ls ! i)) [0..<MAX_LEASES] of
        Some i \<Rightarrow> (Some (lease_ip (ls ! i)), ls)
      | None \<Rightarrow>
          (case find (\<lambda>i. lease_mac (ls ! i) = freeMac) [0..<MAX_LEASES] of
             Some i \<Rightarrow>
               (Some (lease_ip (ls ! i)), ls[i := (ls ! i)\<lparr>lease_mac := mac\<rparr>])
           | None \<Rightarrow> (None, ls)))"

section \<open>The invariant and the bindings of a table\<close>

definition leases_wf :: "lease list \<Rightarrow> bool" where
  "leases_wf ls \<longleftrightarrow>
     length ls = MAX_LEASES \<and> (\<forall>i<MAX_LEASES. length (lease_mac (ls ! i)) = 6) \<and>
     (\<forall>i<MAX_LEASES. \<forall>j<MAX_LEASES. lease_ip (ls ! i) = lease_ip (ls ! j) \<longrightarrow> i = j) \<and>
     (\<forall>i<MAX_LEASES. \<forall>j<MAX_LEASES. lease_mac (ls ! i) = lease_mac (ls ! j) \<longrightarrow>
        lease_mac (ls ! i) \<noteq> freeMac \<longrightarrow> i = j)"

definition is_client :: "u8 list \<Rightarrow> bool" where
  "is_client mac \<longleftrightarrow> length mac = 6 \<and> mac \<noteq> freeMac"

text \<open>Which address each client holds.\<close>

definition bindings :: "lease list \<Rightarrow> u8 list \<Rightarrow> ip4 option" where
  "bindings ls mac =
     (if mac = freeMac then None
      else map_option lease_ip (find (\<lambda>l. lease_mac l = mac) ls))"

text \<open>The entries no client holds yet.\<close>

definition free_slots :: "lease list \<Rightarrow> nat set" where
  "free_slots ls = {i \<in> {..<MAX_LEASES}. lease_mac (ls ! i) = freeMac}"

lemma leases_wf_length: "leases_wf ls \<Longrightarrow> length ls = MAX_LEASES"
  by (simp add: leases_wf_def)

lemma leases_wfI:
  assumes "length ls = MAX_LEASES"
    and "\<And>i. i < MAX_LEASES \<Longrightarrow> length (lease_mac (ls ! i)) = 6"
    and "\<And>i j. i < MAX_LEASES \<Longrightarrow> j < MAX_LEASES \<Longrightarrow>
      lease_ip (ls ! i) = lease_ip (ls ! j) \<Longrightarrow> i = j"
    and "\<And>i j. i < MAX_LEASES \<Longrightarrow> j < MAX_LEASES \<Longrightarrow>
      lease_mac (ls ! i) = lease_mac (ls ! j) \<Longrightarrow> lease_mac (ls ! i) \<noteq> freeMac \<Longrightarrow> i = j"
  shows "leases_wf ls"
  unfolding leases_wf_def using assms by blast

lemma leases_wf_mac_length:
  "leases_wf ls \<Longrightarrow> i < MAX_LEASES \<Longrightarrow> length (lease_mac (ls ! i)) = 6"
  by (simp add: leases_wf_def)

lemma leases_wf_mac_unique:
  "leases_wf ls \<Longrightarrow> i < MAX_LEASES \<Longrightarrow> j < MAX_LEASES \<Longrightarrow>
   lease_mac (ls ! i) = lease_mac (ls ! j) \<Longrightarrow> lease_mac (ls ! i) \<noteq> freeMac \<Longrightarrow> i = j"
  by (simp add: leases_wf_def)

lemma leases_wf_ip_unique:
  "leases_wf ls \<Longrightarrow> i < MAX_LEASES \<Longrightarrow> j < MAX_LEASES \<Longrightarrow>
   lease_ip (ls ! i) = lease_ip (ls ! j) \<Longrightarrow> i = j"
  by (simp add: leases_wf_def)

lemma bindings_Some_iff:
  assumes "leases_wf ls"
  shows "bindings ls mac = Some a \<longleftrightarrow>
    mac \<noteq> freeMac \<and> (\<exists>i<MAX_LEASES. lease_mac (ls ! i) = mac \<and> lease_ip (ls ! i) = a)"
proof -
  have len: "length ls = MAX_LEASES" using assms by (rule leases_wf_length)
  show ?thesis
  proof
    assume "bindings ls mac = Some a"
    then obtain i where "mac \<noteq> freeMac" "i < length ls" "lease_mac (ls ! i) = mac"
      "lease_ip (ls ! i) = a"
      by (auto simp: bindings_def find_Some_iff split: if_splits)
    with len show "mac \<noteq> freeMac \<and>
        (\<exists>i<MAX_LEASES. lease_mac (ls ! i) = mac \<and> lease_ip (ls ! i) = a)" by auto
  next
    assume "mac \<noteq> freeMac \<and>
        (\<exists>i<MAX_LEASES. lease_mac (ls ! i) = mac \<and> lease_ip (ls ! i) = a)"
    then obtain i where i: "mac \<noteq> freeMac" "i < MAX_LEASES" "lease_mac (ls ! i) = mac"
      "lease_ip (ls ! i) = a" by auto
    have "\<forall>j<i. lease_mac (ls ! j) \<noteq> mac"
    proof (intro allI impI notI)
      fix j
      assume "j < i" and "lease_mac (ls ! j) = mac"
      with i have "j = i" by (intro leases_wf_mac_unique [OF assms]) simp_all
      with \<open>j < i\<close> show False by simp
    qed
    with i len have "find (\<lambda>l. lease_mac l = mac) ls = Some (ls ! i)"
      by (auto simp: find_Some_iff intro!: exI [of _ i])
    with i show "bindings ls mac = Some a" by (simp add: bindings_def)
  qed
qed

lemma bindings_None_iff:
  assumes "leases_wf ls"
  shows "bindings ls mac = None \<longleftrightarrow>
    mac = freeMac \<or> (\<forall>i<MAX_LEASES. lease_mac (ls ! i) \<noteq> mac)"
  using leases_wf_length [OF assms]
  by (auto simp: bindings_def find_None_iff in_set_conv_nth)

text \<open>The two loops of \<open>allocateAddr\<close>, in terms of the bindings.\<close>

lemma find_client_Some:
  assumes "leases_wf ls" and "is_client mac"
    and "find (\<lambda>i. mac = lease_mac (ls ! i)) [0..<MAX_LEASES] = Some i"
  shows "bindings ls mac = Some (lease_ip (ls ! i))"
  using assms by (auto simp: bindings_Some_iff find_upt_Some_iff is_client_def)

lemma find_client_None:
  assumes "leases_wf ls" and "is_client mac"
    and "find (\<lambda>i. mac = lease_mac (ls ! i)) [0..<MAX_LEASES] = None"
  shows "bindings ls mac = None"
  using assms by (auto simp: bindings_None_iff find_upt_None_iff)

text \<open>What storing a new client's address in a free entry does to the table.\<close>

lemma lease_ip_update [simp]:
  "lease_ip (ls[i := (ls ! i)\<lparr>lease_mac := mac\<rparr>] ! j) = lease_ip (ls ! j)"
  by (cases "i < length ls"; cases "j = i") (simp_all add: list_update_beyond)

lemma leases_wf_update:
  assumes wf: "leases_wf ls" and "length mac = 6" and "i < MAX_LEASES"
    and new: "\<forall>j<MAX_LEASES. lease_mac (ls ! j) \<noteq> mac"
  shows "leases_wf (ls[i := (ls ! i)\<lparr>lease_mac := mac\<rparr>])" (is "leases_wf ?ls")
proof (rule leases_wfI)
  have len: "length ls = MAX_LEASES" using wf by (rule leases_wf_length)
  then show "length ?ls = MAX_LEASES" by simp
  have mac: "lease_mac (?ls ! j) = (if j = i then mac else lease_mac (ls ! j))"
    if "j < MAX_LEASES" for j
    using that len by (simp add: nth_list_update)
  show "length (lease_mac (?ls ! j)) = 6" if "j < MAX_LEASES" for j
    using that assms(2) by (simp add: mac leases_wf_mac_length [OF wf])
  show "j = k" if "j < MAX_LEASES" "k < MAX_LEASES"
    "lease_ip (?ls ! j) = lease_ip (?ls ! k)" for j k
    using that by (simp add: leases_wf_ip_unique [OF wf])
  show "j = k" if "j < MAX_LEASES" "k < MAX_LEASES"
    "lease_mac (?ls ! j) = lease_mac (?ls ! k)" "lease_mac (?ls ! j) \<noteq> freeMac" for j k
  proof (cases "j = i \<or> k = i")
    case True
    have "lease_mac (ls ! j) \<noteq> mac" "lease_mac (ls ! k) \<noteq> mac"
      using new that by blast+
    with True that show ?thesis by (auto simp: mac split: if_splits)
  next
    case False
    with that show ?thesis by (simp add: mac leases_wf_mac_unique [OF wf])
  qed
qed

lemma bindings_update:
  assumes wf: "leases_wf ls" and c: "is_client mac" and i: "i < MAX_LEASES"
    and fr: "lease_mac (ls ! i) = freeMac" and new: "\<forall>j<MAX_LEASES. lease_mac (ls ! j) \<noteq> mac"
  shows "bindings (ls[i := (ls ! i)\<lparr>lease_mac := mac\<rparr>]) = (bindings ls)(mac \<mapsto> lease_ip (ls ! i))"
proof (rule ext, rule option_eqI)
  fix m a
  let ?ls = "ls[i := (ls ! i)\<lparr>lease_mac := mac\<rparr>]"
  have wf': "leases_wf ?ls"
    using wf c i new by (intro leases_wf_update) (simp_all add: is_client_def)
  have len: "length ls = MAX_LEASES" using wf by (rule leases_wf_length)
  show "bindings ?ls m = Some a \<longleftrightarrow> ((bindings ls)(mac \<mapsto> lease_ip (ls ! i))) m = Some a"
  proof (cases "m = mac")
    case True
    have "lease_mac (?ls ! j) = mac \<longleftrightarrow> j = i" if "j < MAX_LEASES" for j
      using that new i len by (cases "j = i") auto
    with True c i len show ?thesis
      by (auto simp: bindings_Some_iff [OF wf'] is_client_def)
  next
    case False
    have "lease_mac (?ls ! j) = m \<longleftrightarrow> lease_mac (ls ! j) = m"
      if "j < MAX_LEASES" "m \<noteq> freeMac" for j
      using that False fr i len by (cases "j = i") auto
    then show ?thesis
      using False by (auto simp: bindings_Some_iff [OF wf'] bindings_Some_iff [OF wf])
  qed
qed

lemma free_slots_update:
  assumes "leases_wf ls" and "is_client mac" and "i \<in> free_slots ls"
  shows "free_slots (ls[i := (ls ! i)\<lparr>lease_mac := mac\<rparr>]) = free_slots ls - {i}"
  using assms leases_wf_length [OF assms(1)]
  by (auto simp: free_slots_def is_client_def nth_list_update)

lemma finite_free_slots [simp]: "finite (free_slots ls)"
  by (simp add: free_slots_def)

text \<open>The four ways a call can go.\<close>

lemma allocateAddr_cases:
  assumes "leases_wf ls" and "length mac = 6"
  obtains
    (known) a where "is_client mac" "bindings ls mac = Some a"
      "allocateAddr mac ls = (Some a, ls)"
  | (fresh) i where "is_client mac" "bindings ls mac = None" "i \<in> free_slots ls"
      "\<forall>j<MAX_LEASES. lease_mac (ls ! j) \<noteq> mac"
      "allocateAddr mac ls = (Some (lease_ip (ls ! i)), ls[i := (ls ! i)\<lparr>lease_mac := mac\<rparr>])"
  | (anonymous) i where "mac = freeMac" "i \<in> free_slots ls"
      "allocateAddr mac ls = (Some (lease_ip (ls ! i)), ls)"
  | (full) "free_slots ls = {}" "bindings ls mac = None" "allocateAddr mac ls = (None, ls)"
proof (cases "find (\<lambda>i. mac = lease_mac (ls ! i)) [0..<MAX_LEASES]")
  case (Some i)
  show ?thesis
  proof (cases "mac = freeMac")
    case True
    have "i \<in> free_slots ls"
      using Some True by (auto simp: free_slots_def find_upt_Some_iff)
    moreover have "allocateAddr mac ls = (Some (lease_ip (ls ! i)), ls)"
      using Some by (simp add: allocateAddr_def)
    ultimately show ?thesis using True by (intro anonymous)
  next
    case False
    with assms have c: "is_client mac" by (simp add: is_client_def)
    with Some show ?thesis
      by (intro known [OF _ find_client_Some [OF assms(1) c Some]]) (simp_all add: allocateAddr_def)
  qed
next
  case None
  note nomatch = this
  then have new: "\<forall>j<MAX_LEASES. lease_mac (ls ! j) \<noteq> mac"
    by (auto simp: find_upt_None_iff)
  show ?thesis
  proof (cases "find (\<lambda>i. lease_mac (ls ! i) = freeMac) [0..<MAX_LEASES]")
    case None
    with nomatch have "allocateAddr mac ls = (None, ls)"
      by (simp add: allocateAddr_def)
    moreover have "free_slots ls = {}"
      using None by (auto simp: free_slots_def find_upt_None_iff)
    ultimately show ?thesis
      using new by (intro full) (simp_all add: bindings_None_iff [OF assms(1)])
  next
    case (Some i)
    then have i: "i \<in> free_slots ls"
      by (auto simp: free_slots_def find_upt_Some_iff)
    with new assms have c: "is_client mac"
      by (auto simp: is_client_def free_slots_def)
    from c new nomatch Some show ?thesis
      by (intro fresh [OF c _ i new]) (simp_all add: allocateAddr_def bindings_None_iff [OF assms(1)])
  qed
qed

section \<open>The contract of an address pool\<close>

text \<open>
  What a server needs of its allocator: \<open>binds s\<close> is who holds which address, \<open>free s\<close>
  counts what is left, \<open>valid\<close> are the well-formed identifiers and \<open>client\<close> those the
  pool can keep a binding for.
\<close>

fun alloc_run :: "('m \<Rightarrow> 's \<Rightarrow> 'a option \<times> 's) \<Rightarrow> 'm list \<Rightarrow> 's \<Rightarrow> ('m \<times> 'a option) list \<times> 's" where
  "alloc_run alloc [] s = ([], s)"
| "alloc_run alloc (m # ms) s =
     (let (r, s') = alloc m s; (rs, s'') = alloc_run alloc ms s' in ((m, r) # rs, s''))"

locale address_pool =
  fixes alloc :: "'m \<Rightarrow> 's \<Rightarrow> 'a option \<times> 's"
    and binds :: "'s \<Rightarrow> 'm \<Rightarrow> 'a option"
    and free :: "'s \<Rightarrow> nat"
    and client :: "'m \<Rightarrow> bool"
    and valid :: "'m \<Rightarrow> bool"
    and invar :: "'s \<Rightarrow> bool"
  assumes client_valid: "client m \<Longrightarrow> valid m"
    and invar_alloc: "invar s \<Longrightarrow> valid m \<Longrightarrow> invar (snd (alloc m s))"
    and binds_inj: "invar s \<Longrightarrow> binds s m = Some a \<Longrightarrow> binds s n = Some a \<Longrightarrow> m = n"
    and alloc_known: "invar s \<Longrightarrow> client m \<Longrightarrow> binds s m = Some a \<Longrightarrow> alloc m s = (Some a, s)"
    and alloc_new: "invar s \<Longrightarrow> client m \<Longrightarrow> binds s m = None \<Longrightarrow> 0 < free s \<Longrightarrow>
      \<exists>a s'. alloc m s = (Some a, s') \<and> binds s' = (binds s)(m \<mapsto> a) \<and> free s = Suc (free s')"
    and alloc_full: "invar s \<Longrightarrow> client m \<Longrightarrow> binds s m = None \<Longrightarrow> free s = 0 \<Longrightarrow>
      alloc m s = (None, s)"
    and alloc_other: "invar s \<Longrightarrow> valid m \<Longrightarrow> \<not> client m \<Longrightarrow> snd (alloc m s) = s"
begin

lemma alloc_grants:
  assumes "invar s" and "client m" and "alloc m s = (Some a, s')"
  shows "binds s' m = Some a"
proof (cases "binds s m")
  case (Some b)
  with assms alloc_known show ?thesis by fastforce
next
  case None
  show ?thesis
  proof (cases "free s")
    case 0
    with assms None alloc_full show ?thesis by fastforce
  next
    case (Suc n)
    with assms None alloc_new [of s m] show ?thesis by auto
  qed
qed

lemma alloc_keeps:
  assumes "invar s" and "valid m" and "binds s n = Some a"
  shows "binds (snd (alloc m s)) n = Some a"
proof (cases "client m")
  case False
  with assms alloc_other show ?thesis by simp
next
  case c: True
  show ?thesis
  proof (cases "binds s m")
    case (Some b)
    with assms c alloc_known show ?thesis by simp
  next
    case None
    with assms c alloc_full alloc_new [of s m] show ?thesis
      by (cases "free s") auto
  qed
qed

lemma alloc_none_iff:
  assumes "invar s" and "client m"
  shows "fst (alloc m s) = None \<longleftrightarrow> binds s m = None \<and> free s = 0"
proof (cases "binds s m")
  case (Some b)
  with assms alloc_known show ?thesis by simp
next
  case None
  with assms alloc_full alloc_new [of s m] show ?thesis
    by (cases "free s") auto
qed

lemma alloc_count:
  assumes "invar s" and "valid m" and "finite (dom (binds s))"
  shows "finite (dom (binds (snd (alloc m s))))"
    and "card (dom (binds (snd (alloc m s)))) + free (snd (alloc m s)) =
      card (dom (binds s)) + free s"
proof -
  consider (same) "snd (alloc m s) = s"
    | (new) a s' where "alloc m s = (Some a, s')" "binds s m = None"
        "binds s' = (binds s)(m \<mapsto> a)" "free s = Suc (free s')"
  proof (cases "client m \<and> binds s m = None \<and> free s \<noteq> 0")
    case True
    with assms(1) alloc_new [of s m] new show ?thesis by auto
  next
    case False
    have "snd (alloc m s) = s"
    proof (cases "client m")
      case c: True
      show ?thesis
      proof (cases "binds s m")
        case None
        with False c have "free s = 0" by simp
        with None c assms(1) show ?thesis by (simp add: alloc_full)
      qed (simp add: alloc_known [OF assms(1) c])
    qed (simp add: alloc_other [OF assms(1,2)])
    then show ?thesis by (rule same)
  qed
  then have "finite (dom (binds (snd (alloc m s)))) \<and>
    card (dom (binds (snd (alloc m s)))) + free (snd (alloc m s)) = card (dom (binds s)) + free s"
  proof cases
    case same
    with assms(3) show ?thesis by simp
  next
    case new
    then have "m \<notin> dom (binds s)" by auto
    with new assms(3) show ?thesis by simp
  qed
  then show "finite (dom (binds (snd (alloc m s))))"
    and "card (dom (binds (snd (alloc m s)))) + free (snd (alloc m s)) =
      card (dom (binds s)) + free s" by simp_all
qed

lemma run_invar:
  "invar s \<Longrightarrow> \<forall>m \<in> set ms. valid m \<Longrightarrow> invar (snd (alloc_run alloc ms s))"
proof (induction ms arbitrary: s)
  case Nil
  then show ?case by simp
next
  case (Cons m ms)
  then have "invar (snd (alloc m s))" by (simp add: invar_alloc)
  with Cons show ?case by (simp add: Let_def split_beta)
qed

lemma run_keeps:
  "invar s \<Longrightarrow> \<forall>m \<in> set ms. valid m \<Longrightarrow> binds s n = Some a \<Longrightarrow>
   binds (snd (alloc_run alloc ms s)) n = Some a"
proof (induction ms arbitrary: s)
  case Nil
  then show ?case by simp
next
  case (Cons m ms)
  then have "invar (snd (alloc m s))" and "binds (snd (alloc m s)) n = Some a"
    by (simp_all add: invar_alloc alloc_keeps)
  with Cons show ?case by (simp add: Let_def split_beta)
qed

lemma run_grants:
  "invar s \<Longrightarrow> \<forall>m \<in> set ms. valid m \<Longrightarrow> client n \<Longrightarrow>
   (n, Some a) \<in> set (fst (alloc_run alloc ms s)) \<Longrightarrow>
   binds (snd (alloc_run alloc ms s)) n = Some a"
proof (induction ms arbitrary: s)
  case Nil
  then show ?case by simp
next
  case (Cons m ms)
  obtain r s' where r: "alloc m s = (r, s')" by fastforce
  with Cons.prems have inv: "invar s'" using invar_alloc [of s m] by simp
  show ?case
  proof (cases "(n, Some a) = (m, r)")
    case True
    with r Cons.prems have "binds s' n = Some a" by (auto intro: alloc_grants)
    with inv r Cons.prems show ?thesis by (simp add: Let_def split_beta run_keeps)
  next
    case False
    with r inv Cons show ?thesis by (auto simp: Let_def split_beta)
  qed
qed

text \<open>Over any run, an address goes to one client and a client gets one address.\<close>

lemma run_exclusive:
  assumes "invar s" and "\<forall>m \<in> set ms. valid m" and "client m" and "client n"
    and "(m, Some a) \<in> set (fst (alloc_run alloc ms s))"
    and "(n, Some b) \<in> set (fst (alloc_run alloc ms s))"
  shows "m = n \<longleftrightarrow> a = b"
proof -
  let ?s = "snd (alloc_run alloc ms s)"
  have "binds ?s m = Some a" "binds ?s n = Some b"
    using assms by (blast intro: run_grants)+
  with binds_inj [OF run_invar [OF assms(1,2)]] show ?thesis by auto
qed

lemma run_count:
  "invar s \<Longrightarrow> \<forall>m \<in> set ms. valid m \<Longrightarrow> finite (dom (binds s)) \<Longrightarrow>
   card (dom (binds (snd (alloc_run alloc ms s)))) + free (snd (alloc_run alloc ms s)) =
   card (dom (binds s)) + free s"
proof (induction ms arbitrary: s)
  case Nil
  then show ?case by simp
next
  case (Cons m ms)
  then show ?case
    using invar_alloc [of s m] alloc_count [of s m]
    by (simp add: Let_def split_beta)
qed

end

section \<open>The lease table is an address pool\<close>

interpretation lt: address_pool allocateAddr bindings "\<lambda>ls. card (free_slots ls)" is_client
  "\<lambda>mac. length mac = 6" leases_wf
proof
  fix ls mac
  show "is_client mac \<Longrightarrow> length mac = 6" by (simp add: is_client_def)
  show "leases_wf (snd (allocateAddr mac ls))" if "leases_wf ls" "length mac = 6"
    using that
  proof (cases rule: allocateAddr_cases)
    case (fresh i)
    then have "i < MAX_LEASES" by (simp add: free_slots_def)
    with fresh show ?thesis by (simp add: leases_wf_update [OF that _ fresh(4)])
  qed (simp_all add: that(1))
  show "\<exists>a ls'. allocateAddr mac ls = (Some a, ls') \<and> bindings ls' = (bindings ls)(mac \<mapsto> a) \<and>
      card (free_slots ls) = Suc (card (free_slots ls'))"
    if "leases_wf ls" "is_client mac" "bindings ls mac = None" "0 < card (free_slots ls)"
  proof -
    have "length mac = 6" using that(2) by (simp add: is_client_def)
    with that(1) show ?thesis
    proof (cases rule: allocateAddr_cases)
      case (fresh i)
      have "i < MAX_LEASES" and "lease_mac (ls ! i) = freeMac"
        using fresh(3) by (simp_all add: free_slots_def)
      then have "bindings (ls[i := (ls ! i)\<lparr>lease_mac := mac\<rparr>]) =
          (bindings ls)(mac \<mapsto> lease_ip (ls ! i))"
        by (rule bindings_update [OF that(1,2) _ _ fresh(4)])
      moreover have "card (free_slots ls) = Suc (card (free_slots ls - {i}))"
        by (rule card.remove [OF finite_free_slots fresh(3)])
      ultimately show ?thesis
        using fresh(5) by (simp add: free_slots_update [OF that(1,2) fresh(3)])
    qed (use that in \<open>simp_all add: is_client_def\<close>)
  qed
  show "allocateAddr mac ls = (Some a, ls)"
    if "leases_wf ls" "is_client mac" "bindings ls mac = Some a" for a
  proof -
    have "length mac = 6" using that(2) by (simp add: is_client_def)
    with that(1) show ?thesis
      by (cases rule: allocateAddr_cases) (use that in \<open>simp_all add: is_client_def\<close>)
  qed
  show "allocateAddr mac ls = (None, ls)"
    if "leases_wf ls" "is_client mac" "bindings ls mac = None" "card (free_slots ls) = 0"
  proof -
    have "length mac = 6" using that(2) by (simp add: is_client_def)
    with that(1) show ?thesis
      by (cases rule: allocateAddr_cases) (use that in \<open>auto simp: is_client_def\<close>)
  qed
  show "snd (allocateAddr mac ls) = ls"
    if "leases_wf ls" "length mac = 6" "\<not> is_client mac"
    using that by (cases rule: allocateAddr_cases) (simp_all add: that is_client_def)
  show "mac = n" if wf: "leases_wf ls" and b: "bindings ls mac = Some a" "bindings ls n = Some a"
    for n a
  proof -
    from b obtain i j where "i < MAX_LEASES" "lease_mac (ls ! i) = mac"
      "j < MAX_LEASES" "lease_mac (ls ! j) = n" "lease_ip (ls ! i) = lease_ip (ls ! j)"
      by (auto simp: bindings_Some_iff [OF wf])
    with leases_wf_ip_unique [OF wf, of i j] show ?thesis by simp
  qed
qed

section \<open>Properties of allocateAddr\<close>

text \<open>C17: \<open>allocateAddr\<close> implements lookup-or-insert on the bindings: it keeps the table
  well-formed, adds at most the binding of the calling client, answers a client with the
  address it is bound to afterwards, and fails exactly when the client is unbound and no entry
  is free.\<close>

theorem allocateAddr_refines:
  assumes "leases_wf ls" and "length mac = 6" and "allocateAddr mac ls = (r, ls')"
  shows "leases_wf ls' \<and>
    bindings ls' = (if is_client mac \<and> bindings ls mac = None \<and> r \<noteq> None
      then (bindings ls)(mac := r) else bindings ls) \<and>
    (is_client mac \<longrightarrow> r = bindings ls' mac) \<and>
    (r = None \<longleftrightarrow> bindings ls mac = None \<and> free_slots ls = {})"
proof -
  have wf': "leases_wf ls'" using lt.invar_alloc [OF assms(1,2)] assms(3) by simp
  show ?thesis
    using assms(1,2)
  proof (cases rule: allocateAddr_cases)
    case (fresh i)
    have i: "i < MAX_LEASES" "lease_mac (ls ! i) = freeMac"
      using fresh(3) by (simp_all add: free_slots_def)
    note b = bindings_update [OF assms(1) fresh(1) i fresh(4)]
    from fresh assms(3) wf' show ?thesis by (auto simp: b)
  next
    case (known a)
    with assms(3) wf' show ?thesis by auto
  next
    case (anonymous i)
    with assms(3) wf' show ?thesis by (auto simp: is_client_def)
  next
    case full
    with assms(3) wf' show ?thesis by auto
  qed
qed

definition ex_leases :: "lease list" where
  "ex_leases = [\<lparr>lease_mac = [2, 0, 0, 0, 0, 1], lease_ip = IP4 10 0 0 11\<rparr>,
     \<lparr>lease_mac = freeMac, lease_ip = IP4 10 0 0 12\<rparr>,
     \<lparr>lease_mac = freeMac, lease_ip = IP4 10 0 0 13\<rparr>]"

lemma less_MAX_LEASES: "(\<forall>i<MAX_LEASES. P i) \<longleftrightarrow> P 0 \<and> P 1 \<and> P 2"
  by (auto simp: MAX_LEASES_def numeral_eq_Suc All_less_Suc)

lemma find_MAX_LEASES: "find P [0..<MAX_LEASES] =
  (if P 0 then Some 0 else if P 1 then Some 1 else if P 2 then Some 2 else None)"
  by (simp add: MAX_LEASES_def upt_rec numeral_eq_Suc)

lemma ex_leases_wf: "leases_wf ex_leases"
  unfolding leases_wf_def less_MAX_LEASES
  by (simp add: ex_leases_def MAX_LEASES_def freeMac_def)

theorem allocateAddr_refines_witness:
  "\<exists>ls'. allocateAddr [2, 0, 0, 0, 0, 2] ex_leases = (Some (IP4 10 0 0 12), ls') \<and>
     bindings ls' [2, 0, 0, 0, 0, 2] = Some (IP4 10 0 0 12)"
proof -
  define ls' where "ls' = snd (allocateAddr [2, 0, 0, 0, 0, 2] ex_leases)"
  have a: "allocateAddr [2, 0, 0, 0, 0, 2] ex_leases = (Some (IP4 10 0 0 12), ls')"
    by (simp add: ls'_def allocateAddr_def find_MAX_LEASES ex_leases_def freeMac_def)
  from allocateAddr_refines [OF ex_leases_wf _ a] a show ?thesis
    by (simp add: is_client_def freeMac_def)
qed

text \<open>A client with the all-zero hardware address is given the first free address without
  taking it, so the next new client is given the same address.\<close>

theorem zero_mac_not_reserved:
  assumes "leases_wf ls" and "allocateAddr freeMac ls = (Some a, ls')"
    and "is_client mac" and "bindings ls mac = None"
  shows "ls' = ls \<and> fst (allocateAddr mac ls') = Some a"
proof -
  have same: "ls' = ls"
    using lt.alloc_other [OF assms(1), of freeMac] assms(2) by (simp add: is_client_def)
  obtain i where i: "find (\<lambda>i. lease_mac (ls ! i) = freeMac) [0..<MAX_LEASES] = Some i"
    and a: "a = lease_ip (ls ! i)"
    using assms(2) by (auto simp: allocateAddr_def eq_commute split: option.splits)
  have "find (\<lambda>i. mac = lease_mac (ls ! i)) [0..<MAX_LEASES] = None"
    using assms(3,4) by (auto simp: find_upt_None_iff bindings_None_iff [OF assms(1)] is_client_def)
  with i a same show ?thesis by (simp add: allocateAddr_def)
qed

theorem zero_mac_not_reserved_witness:
  "allocateAddr freeMac ex_leases = (Some (IP4 10 0 0 12), ex_leases) \<and>
   fst (allocateAddr [2, 0, 0, 0, 0, 2] ex_leases) = Some (IP4 10 0 0 12)"
proof -
  have a: "allocateAddr freeMac ex_leases = (Some (IP4 10 0 0 12), ex_leases)"
    by (simp add: allocateAddr_def find_MAX_LEASES ex_leases_def freeMac_def)
  have c: "is_client [2, 0, 0, 0, 0, 2]" by (simp add: is_client_def freeMac_def)
  have b: "bindings ex_leases [2, 0, 0, 0, 0, 2] = None"
    by (simp add: bindings_def ex_leases_def freeMac_def)
  from zero_mac_not_reserved [OF ex_leases_wf a c b] a show ?thesis by simp
qed

end
