(* ===== verification/Dhcp_Options.thy ===== *)
theory Dhcp_Options
  imports Dhcp_Leases
begin

text \<open>
  The option field of a DHCP message (\<open>apps/dhcps/dhcps.c\<close>): the option readers
  (\<open>getOption\<close> to \<open>nextOption\<close>), the writers (\<open>addOptionTime\<close>, \<open>addOptionIP\<close>,
  \<open>addOptionByte\<close>) and the loop of \<open>handleRequest\<close> that looks for the requested address.
  \<open>enc_opts\<close> is the RFC 2132 encoding (code, length, data) they are checked against.
\<close>

section \<open>Message types and option codes\<close>

definition DHCPDISCOVER :: u8 where "DHCPDISCOVER = 1"
definition DHCPOFFER :: u8 where "DHCPOFFER = 2"
definition DHCPREQUEST :: u8 where "DHCPREQUEST = 3"
definition DHCPDECLINE :: u8 where "DHCPDECLINE = 4"
definition DHCPACK :: u8 where "DHCPACK = 5"
definition DHCPNAK :: u8 where "DHCPNAK = 6"
definition DHCPRELEASE :: u8 where "DHCPRELEASE = 7"
definition DHCPINFORM :: u8 where "DHCPINFORM = 8"

definition OPT_NETMASK :: u8 where "OPT_NETMASK = 1"
definition OPT_REQ_IP :: u8 where "OPT_REQ_IP = 50"
definition OPT_LEASE_TIME :: u8 where "OPT_LEASE_TIME = 51"
definition OPT_MSGTYPE :: u8 where "OPT_MSGTYPE = 53"
definition OPT_SERVERID :: u8 where "OPT_SERVERID = 54"
definition OPT_RENEW_TIME :: u8 where "OPT_RENEW_TIME = 58"
definition OPT_REBIND_TIME :: u8 where "OPT_REBIND_TIME = 59"
definition OPT_END :: u8 where "OPT_END = 255"

lemmas msg_types = DHCPDISCOVER_def DHCPOFFER_def DHCPREQUEST_def DHCPDECLINE_def DHCPACK_def
  DHCPNAK_def DHCPRELEASE_def DHCPINFORM_def
lemmas opt_codes = OPT_NETMASK_def OPT_REQ_IP_def OPT_LEASE_TIME_def OPT_MSGTYPE_def
  OPT_SERVERID_def OPT_RENEW_TIME_def OPT_REBIND_TIME_def OPT_END_def

section \<open>Readers\<close>

text \<open>A pointer into the buffer \<open>m\<close> is an offset.\<close>

definition getOption :: "u8 list \<Rightarrow> nat \<Rightarrow> u8 res" where
  "getOption m p = rd m p"

definition getOptionLen :: "u8 list \<Rightarrow> nat \<Rightarrow> u8 res" where
  "getOptionLen m p = rd m (p + 1)"

definition getOptionData :: "nat \<Rightarrow> nat" where
  "getOptionData p = p + 2"

definition nextOption :: "u8 list \<Rightarrow> nat \<Rightarrow> nat res" where
  "nextOption m p = rbind (getOptionLen m p) (\<lambda>len. Inr (p + unat len + 2))"

section \<open>Writers\<close>

text \<open>A write cursor is the buffer and the offset \<open>optPtr\<close>; \<open>put\<close> is \<open>*optPtr++ = b\<close>.\<close>

type_synonym cursor = "u8 list \<times> nat"

definition put :: "u8 \<Rightarrow> cursor \<Rightarrow> cursor res" where
  "put b c = rbind (wr_n (fst c) (snd c) [b]) (\<lambda>m. Inr (m, snd c + 1))"

definition put_n :: "u8 list \<Rightarrow> cursor \<Rightarrow> cursor res" where
  "put_n bs c = rbind (wr_n (fst c) (snd c) bs) (\<lambda>m. Inr (m, snd c + length bs))"

definition addOptionTime :: "u8 \<Rightarrow> u32 \<Rightarrow> cursor \<Rightarrow> cursor res" where
  "addOptionTime opt t c =
     rbind (put opt c) (\<lambda>c.
     rbind (put 4 c) (\<lambda>c.
     rbind (put (ucast (t div (256 * 256 * 256))) c) (\<lambda>c.
     let t = t mod (256 * 256 * 256) in
     rbind (put (ucast (t div (256 * 256))) c) (\<lambda>c.
     let t = t mod (256 * 256) in
     rbind (put (ucast (t div 256)) c) (\<lambda>c.
     let t = t mod 256 in
     put (ucast t) c)))))"

definition addOptionIP :: "u8 \<Rightarrow> ip4 \<Rightarrow> cursor \<Rightarrow> cursor res" where
  "addOptionIP opt ip c =
     rbind (put opt c) (\<lambda>c. rbind (put 4 c) (\<lambda>c. put_n (ip4_bytes ip) c))"

definition addOptionByte :: "u8 \<Rightarrow> u8 \<Rightarrow> cursor \<Rightarrow> cursor res" where
  "addOptionByte opt val c =
     rbind (put opt c) (\<lambda>c. rbind (put 1 c) (\<lambda>c. put val c))"

section \<open>The requested address\<close>

text \<open>
  The loop of \<open>handleRequest\<close>: it steps over the options until \<open>OPT_END\<close> and keeps the
  last 4-byte requested address. Nothing bounds the pointer, so a message without
  \<open>OPT_END\<close> makes it read past the buffer.
\<close>

definition takeReqIP :: "u8 list \<Rightarrow> nat \<Rightarrow> u8 \<Rightarrow> u8 \<Rightarrow> ip4 \<Rightarrow> ip4 res" where
  \<comment> \<open>the \<open>switch\<close> of the loop body\<close>
  "takeReqIP m p code len reqAddr =
     (if code = OPT_REQ_IP \<and> len = 4
      then rbind (rd_n m (getOptionData p) 4) (\<lambda>bs. Inr (ip4_of_bytes bs))
      else Inr reqAddr)"

function findReqIP :: "u8 list \<Rightarrow> nat \<Rightarrow> ip4 \<Rightarrow> ip4 res" where
  "findReqIP m p reqAddr =
     rbind (getOption m p) (\<lambda>code.
     if code = OPT_END then Inr reqAddr
     else
       rbind (getOptionLen m p) (\<lambda>len.
       rbind (takeReqIP m p code len reqAddr) (\<lambda>reqAddr.
       rbind (nextOption m p) (\<lambda>p. findReqIP m p reqAddr))))"
  by pat_completeness auto
termination
  by (relation "measure (\<lambda>(m, p, _). length m - p)")
    (auto simp: getOption_def nextOption_def rbind_eq_Inr_iff dest!: rd_InrD)

declare findReqIP.simps [simp del]

section \<open>The encoding\<close>

definition enc_opt :: "u8 \<times> u8 list \<Rightarrow> u8 list" where
  "enc_opt x = fst x # word_of_nat (length (snd x)) # snd x"

definition enc_opts :: "(u8 \<times> u8 list) list \<Rightarrow> u8 list" where
  "enc_opts xs = concat (map enc_opt xs)"

text \<open>An option that can be encoded and does not read as the end mark.\<close>

definition opt_wf :: "u8 \<times> u8 list \<Rightarrow> bool" where
  "opt_wf x \<longleftrightarrow> fst x \<noteq> OPT_END \<and> length (snd x) < 256"

text \<open>The big-endian bytes of a 32-bit value.\<close>

definition be32 :: "u32 \<Rightarrow> u8 list" where
  "be32 t = [ucast (drop_bit 24 t), ucast (drop_bit 16 t), ucast (drop_bit 8 t), ucast t]"

definition be32_val :: "u8 list \<Rightarrow> nat" where
  "be32_val bs = fold (\<lambda>b a. a * 256 + unat b) bs 0"

text \<open>What the request loop should find: the last requested address of length 4.\<close>

definition requested :: "(u8 \<times> u8 list) list \<Rightarrow> ip4 \<Rightarrow> ip4" where
  "requested xs dflt =
     fold (\<lambda>x a. if fst x = OPT_REQ_IP \<and> length (snd x) = 4 then ip4_of_bytes (snd x) else a) xs dflt"

lemma enc_opts_simps [simp]:
  "enc_opts [] = []"
  "enc_opts (x # xs) = fst x # word_of_nat (length (snd x)) # snd x @ enc_opts xs"
  by (simp_all add: enc_opts_def enc_opt_def)

lemma requested_simps [simp]:
  "requested [] a = a"
  "requested (x # xs) a =
     requested xs (if fst x = OPT_REQ_IP \<and> length (snd x) = 4 then ip4_of_bytes (snd x) else a)"
  by (simp_all add: requested_def)

section \<open>What the writers write\<close>

text \<open>
  One rule describes every writer: with room for \<open>bs\<close> at the cursor, the buffer holds
  \<open>bs\<close> there, nothing else changes and the cursor moves by the length of \<open>bs\<close>.
\<close>

definition writes :: "(cursor \<Rightarrow> cursor res) \<Rightarrow> u8 list \<Rightarrow> bool" where
  "writes f bs \<longleftrightarrow>
     (\<forall>m p. f (m, p) =
        (if p + length bs \<le> length m then Inr (splice m p bs, p + length bs)
         else Inl OutOfBounds))"

lemma writesD:
  "writes f bs \<Longrightarrow> p + length bs \<le> length m \<Longrightarrow> f (m, p) = Inr (splice m p bs, p + length bs)"
  by (simp add: writes_def)

lemma writes_put: "writes (put b) [b]"
  by (simp add: writes_def put_def wr_n_def)

lemma writes_put_n: "writes (put_n bs) bs"
  by (simp add: writes_def put_n_def wr_n_def)

lemma writes_then:
  assumes "writes f as" and "writes g bs"
  shows "writes (\<lambda>c. rbind (f c) g) (as @ bs)"
  unfolding writes_def
proof (intro allI)
  fix m :: "u8 list" and p
  show "rbind (f (m, p)) g =
    (if p + length (as @ bs) \<le> length m
     then Inr (splice m p (as @ bs), p + length (as @ bs)) else Inl OutOfBounds)"
  proof (cases "p + length as \<le> length m")
    case False
    with assms(1) show ?thesis by (simp add: writes_def)
  next
    case True
    then show ?thesis
      using assms(2) by (simp add: writesD [OF assms(1)] writes_def splice_adjacent add.assoc)
  qed
qed

lemma ucast_div_mod_bytes:
  fixes t :: u32
  shows "(ucast (t div 16777216) :: u8) = ucast (drop_bit 24 t)"
    and "(ucast (t mod 16777216 div 65536) :: u8) = ucast (drop_bit 16 t)"
    and "(ucast (t mod 16777216 mod 65536 div 256) :: u8) = ucast (drop_bit 8 t)"
    and "(ucast (t mod 16777216 mod 65536 mod 256) :: u8) = ucast t"
proof -
  have d: "x div 16777216 = drop_bit 24 x" "x div 65536 = drop_bit 16 x" "x div 256 = drop_bit 8 x"
    "x mod 16777216 = take_bit 24 x" "x mod 65536 = take_bit 16 x" "x mod 256 = take_bit 8 x"
    for x :: u32
    by (simp_all add: drop_bit_eq_div take_bit_eq_mod)
  show "(ucast (t div 16777216) :: u8) = ucast (drop_bit 24 t)"
    "(ucast (t mod 16777216 div 65536) :: u8) = ucast (drop_bit 16 t)"
    "(ucast (t mod 16777216 mod 65536 div 256) :: u8) = ucast (drop_bit 8 t)"
    "(ucast (t mod 16777216 mod 65536 mod 256) :: u8) = ucast t"
    unfolding d by (rule bit_word_eqI, auto simp: bit_simps)+
qed

lemma writes_addOptionByte: "writes (addOptionByte opt val) (enc_opt (opt, [val]))"
  using writes_then [OF writes_put [of opt] writes_then [OF writes_put [of 1] writes_put [of val]]]
  by (simp add: addOptionByte_def [abs_def] enc_opt_def)

lemma writes_addOptionIP: "writes (addOptionIP opt ip) (enc_opt (opt, ip4_bytes ip))"
  using writes_then [OF writes_put [of opt] writes_then [OF writes_put [of 4]
      writes_put_n [of "ip4_bytes ip"]]]
  by (simp add: addOptionIP_def [abs_def] enc_opt_def)

lemma writes_addOptionTime: "writes (addOptionTime opt t) (enc_opt (opt, be32 t))"
  using writes_then [OF writes_put [of opt] writes_then [OF writes_put [of 4]
      writes_then [OF writes_put [of "ucast (drop_bit 24 t)"]
      writes_then [OF writes_put [of "ucast (drop_bit 16 t)"]
      writes_then [OF writes_put [of "ucast (drop_bit 8 t)"] writes_put [of "ucast t"]]]]]]
  by (simp add: addOptionTime_def [abs_def] enc_opt_def be32_def Let_def ucast_div_mod_bytes)

lemmas writers = writes_put writes_put_n writes_addOptionByte writes_addOptionIP
  writes_addOptionTime

lemma length_enc_opt [simp]: "length (enc_opt x) = length (snd x) + 2"
  by (simp add: enc_opt_def)

lemma length_be32 [simp]: "length (be32 t) = 4"
  by (simp add: be32_def)

text \<open>The four bytes read back in network order are the value.\<close>

lemma be32_val_be32: "be32_val (be32 t) = unat t"
proof -
  have t: "unat t < 4294967296" using unsigned_less [of t] by simp
  then have d: "unat (ucast (drop_bit n t) :: u8) = unat t div 2 ^ n mod 256" for n
    by (simp add: unsigned_ucast_eq take_bit_eq_mod unsigned_drop_bit_eq) (simp add: drop_bit_eq_div)
  let ?n = "unat t"
  have join: "?n div (k * 256) * 256 + ?n div k mod 256 = ?n div k" for k
    by (metis div_mult2_eq div_mult_mod_eq)
  have "?n div 16777216 mod 256 = ?n div 16777216" using t by simp
  then show ?thesis
    using d [of 0] join [of 65536] join [of 256] join [of 1]
    by (simp add: be32_val_def be32_def d)
qed

section \<open>What the request loop finds\<close>

lemma unat_length_byte: "length d < 256 \<Longrightarrow> unat (word_of_nat (length d) :: u8) = length d"
  by (simp add: unat_of_nat)

lemma findReqIP_end:
  assumes "p < length m" and "m ! p = OPT_END"
  shows "findReqIP m p a = Inr a"
  using assms by (subst findReqIP.simps) (simp add: getOption_def rd_in)

lemma findReqIP_out:
  assumes "length m \<le> p"
  shows "findReqIP m p a = Inl OutOfBounds"
  using assms by (subst findReqIP.simps) (simp add: getOption_def rd_def)

text \<open>One turn of the loop, at a well-formed option.\<close>

lemma findReqIP_step:
  assumes m: "m = pre @ enc_opt (c, d) @ post" and wf: "opt_wf (c, d)"
  shows "findReqIP m (length pre) a =
    findReqIP m (length pre + length (enc_opt (c, d)))
      (if c = OPT_REQ_IP \<and> length d = 4 then ip4_of_bytes d else a)"
proof -
  let ?n = "word_of_nat (length d) :: u8"
  have len: "unat ?n = length d" using wf by (simp add: opt_wf_def unat_length_byte)
  then have four: "?n = 4 \<longleftrightarrow> length d = 4"
    by (simp only: word_unat_eq_iff) simp
  have c: "rd m (length pre) = Inr c" and l: "rd m (Suc (length pre)) = Inr ?n"
    by (simp_all add: m enc_opt_def rd_def nth_append)
  have "rd_n m (Suc (Suc (length pre))) 4 = Inr d" if "length d = 4"
    using that by (simp add: m enc_opt_def rd_n_def)
  then have tk: "takeReqIP m (length pre) c ?n a =
      Inr (if c = OPT_REQ_IP \<and> length d = 4 then ip4_of_bytes d else a)"
    by (simp add: takeReqIP_def getOptionData_def four)
  have nx: "nextOption m (length pre) = Inr (length pre + length (enc_opt (c, d)))"
    using l len by (simp add: nextOption_def getOptionLen_def)
  have "c \<noteq> OPT_END" using wf by (simp add: opt_wf_def)
  then show ?thesis
    by (subst findReqIP.simps) (simp add: getOption_def getOptionLen_def c l tk nx)
qed

lemma findReqIP_finds:
  assumes "\<forall>x \<in> set os. opt_wf x" and "m = pre @ enc_opts os @ OPT_END # rest"
  shows "findReqIP m (length pre) a = Inr (requested os a)"
  using assms
proof (induction os arbitrary: pre a)
  case Nil
  then show ?case by (simp add: findReqIP_end)
next
  case (Cons x os)
  obtain c d where x: "x = (c, d)" by (cases x)
  have m: "m = pre @ enc_opt (c, d) @ enc_opts os @ OPT_END # rest"
    using Cons.prems x by (simp add: enc_opt_def)
  have "findReqIP m (length pre) a = findReqIP m (length (pre @ enc_opt (c, d)))
      (if c = OPT_REQ_IP \<and> length d = 4 then ip4_of_bytes d else a)"
    using findReqIP_step [OF m] Cons.prems(1) x by simp
  also have "\<dots> = Inr (requested os (if c = OPT_REQ_IP \<and> length d = 4 then ip4_of_bytes d else a))"
    by (rule Cons.IH) (use Cons.prems m in simp_all)
  finally show ?case by (simp add: x)
qed

text \<open>Without an end mark the loop leaves the buffer.\<close>

lemma findReqIP_overrun:
  assumes "\<forall>x \<in> set os. opt_wf x" and "m = pre @ enc_opts os"
  shows "findReqIP m (length pre) a = Inl OutOfBounds"
  using assms
proof (induction os arbitrary: pre a)
  case Nil
  then show ?case by (simp add: findReqIP_out)
next
  case (Cons x os)
  obtain c d where x: "x = (c, d)" by (cases x)
  have m: "m = pre @ enc_opt (c, d) @ enc_opts os"
    using Cons.prems x by (simp add: enc_opt_def)
  have "findReqIP m (length pre) a = findReqIP m (length (pre @ enc_opt (c, d)))
      (if c = OPT_REQ_IP \<and> length d = 4 then ip4_of_bytes d else a)"
    using findReqIP_step [OF m] Cons.prems(1) x by simp
  also have "\<dots> = Inl OutOfBounds"
    by (rule Cons.IH) (use Cons.prems m in simp_all)
  finally show ?case .
qed

text \<open>The only fault the loop can have is leaving the buffer.\<close>

lemma option_faults:
  "getOption m p = Inl e \<Longrightarrow> e = OutOfBounds"
  "getOptionLen m p = Inl e \<Longrightarrow> e = OutOfBounds"
  "takeReqIP m p c l a = Inl e \<Longrightarrow> e = OutOfBounds"
  "nextOption m p = Inl e \<Longrightarrow> e = OutOfBounds"
  by (auto simp: getOption_def getOptionLen_def takeReqIP_def nextOption_def rbind_eq_Inl_iff
      mem_defs split: if_splits)

lemma findReqIP_fault: "findReqIP m p a = Inl e \<Longrightarrow> e = OutOfBounds"
proof (induction m p a rule: findReqIP.induct)
  case (1 m p a)
  from "1.prems" show ?case
    by (subst (asm) findReqIP.simps)
      (auto simp: rbind_eq_Inl_iff split: if_splits intro: option_faults "1.IH")
qed

section \<open>Properties of the options\<close>

lemma splice_split:
  "p + length bs \<le> length m \<Longrightarrow> length (take p m) = p \<and>
   splice m p bs = take p m @ bs @ drop (p + length bs) m"
  by (simp add: splice_def)

text \<open>What the option readers see of an option at \<open>p\<close>: code, length, data and where it ends.\<close>

definition option_at :: "u8 list \<Rightarrow> nat \<Rightarrow> u8 \<Rightarrow> u8 list \<Rightarrow> bool" where
  "option_at m p opt d \<longleftrightarrow>
     getOption m p = Inr opt \<and> getOptionLen m p = Inr (word_of_nat (length d)) \<and>
     rd_n m (getOptionData p) (length d) = Inr d \<and> nextOption m p = Inr (p + length d + 2)"

text \<open>The bytes outside the \<open>n\<close> bytes at \<open>p\<close> are the same.\<close>

definition same_around :: "nat \<Rightarrow> nat \<Rightarrow> u8 list \<Rightarrow> u8 list \<Rightarrow> bool" where
  "same_around p n m m' \<longleftrightarrow> length m' = length m \<and> take p m' = take p m \<and> drop (p + n) m' = drop (p + n) m"

lemma written_option:
  assumes "writes f (enc_opt (opt, d))" and "length d < 256" and "p + length d + 2 \<le> length m"
  shows "\<exists>m'. f (m, p) = Inr (m', p + length d + 2) \<and> option_at m' p opt d \<and> same_around p (length d + 2) m m'"
proof -
  let ?bs = "enc_opt (opt, d)"
  have fits: "p + length ?bs \<le> length m" using assms(3) by simp
  have w: "f (m, p) = Inr (splice m p ?bs, p + length d + 2)" using writesD [OF assms(1) fits] by simp
  obtain pre post where m': "splice m p ?bs = pre @ ?bs @ post" and pre: "length pre = p"
    "pre = take p m" "post = drop (p + length ?bs) m"
    using splice_split [OF fits] by simp
  have "rd (pre @ ?bs @ post) p = Inr opt" "rd (pre @ ?bs @ post) (p + 1) = Inr (word_of_nat (length d))"
    using pre(1) by (simp_all add: rd_def enc_opt_def nth_append)
  moreover have "rd_n (pre @ ?bs @ post) (p + 2) (length d) = Inr d"
    using pre(1) by (simp add: rd_n_def enc_opt_def)
  moreover have "same_around p (length d + 2) m (pre @ ?bs @ post)"
    using pre assms(3) by (simp add: same_around_def)
  ultimately show ?thesis
    unfolding w m' using unat_length_byte [OF assms(2)]
    by (simp add: option_at_def getOption_def getOptionLen_def getOptionData_def nextOption_def)
qed

text \<open>C38: An option written by \<open>addOptionByte\<close>, \<open>addOptionIP\<close> or \<open>addOptionTime\<close> into a buffer
  with room for it reads back through the server's own readers: the code, the length, the value
  (an address as \<open>handleRequest\<close> takes it out of a request, a time as its four bytes in network
  order), and a next option right behind it, where the write cursor is; the bytes before and
  after it are unchanged.\<close>

theorem options_roundtrip:
  assumes "p + 6 \<le> length m"
  shows "(\<exists>m'. addOptionByte opt v (m, p) = Inr (m', p + 3) \<and> option_at m' p opt [v] \<and> same_around p 3 m m') \<and>
    (\<exists>m'. addOptionIP opt ip (m, p) = Inr (m', p + 6) \<and> option_at m' p opt (ip4_bytes ip) \<and>
      takeReqIP m' p OPT_REQ_IP 4 dflt = Inr ip \<and> same_around p 6 m m') \<and>
    (\<exists>m' d. addOptionTime opt t (m, p) = Inr (m', p + 6) \<and> option_at m' p opt d \<and> length d = 4 \<and>
      be32_val d = unat t \<and> same_around p 6 m m')"
proof (intro conjI)
  show "\<exists>m'. addOptionByte opt v (m, p) = Inr (m', p + 3) \<and> option_at m' p opt [v] \<and> same_around p 3 m m'"
    using written_option [OF writes_addOptionByte [of opt v], of p m] assms by (simp add: numeral_3_eq_3)
  from written_option [OF writes_addOptionIP [of opt ip], of p m] assms obtain m' where
    w: "addOptionIP opt ip (m, p) = Inr (m', p + 6)" "option_at m' p opt (ip4_bytes ip)" "same_around p 6 m m'"
    by auto
  have "takeReqIP m' p OPT_REQ_IP 4 dflt = Inr ip" using w(2) by (simp add: takeReqIP_def option_at_def)
  with w show "\<exists>m'. addOptionIP opt ip (m, p) = Inr (m', p + 6) \<and> option_at m' p opt (ip4_bytes ip) \<and>
      takeReqIP m' p OPT_REQ_IP 4 dflt = Inr ip \<and> same_around p 6 m m'" by blast
  from written_option [OF writes_addOptionTime [of opt t], of p m] assms obtain m' where
    "addOptionTime opt t (m, p) = Inr (m', p + 6)" "option_at m' p opt (be32 t)" "same_around p 6 m m'"
    by auto
  then show "\<exists>m' d. addOptionTime opt t (m, p) = Inr (m', p + 6) \<and> option_at m' p opt d \<and> length d = 4 \<and>
      be32_val d = unat t \<and> same_around p 6 m m'" by (intro exI [of _ m'] exI [of _ "be32 t"]) (simp add: be32_val_be32)
qed

theorem options_roundtrip_witness:
  "(\<exists>m'. addOptionIP OPT_REQ_IP (IP4 10 0 0 5) (replicate 8 0, 1) = Inr (m', 7) \<and>
     takeReqIP m' 1 OPT_REQ_IP 4 (IP4 0 0 0 0) = Inr (IP4 10 0 0 5)) \<and>
   (\<exists>m' d. addOptionTime OPT_LEASE_TIME 3600 (replicate 8 0, 1) = Inr (m', 7) \<and>
     option_at m' 1 OPT_LEASE_TIME d \<and> be32_val d = 3600)"
proof -
  have "1 + 6 \<le> length (replicate 8 (0 :: u8))" by simp
  note r = options_roundtrip [OF this]
  from r [where opt = OPT_REQ_IP and ip = "IP4 10 0 0 5" and dflt = "IP4 0 0 0 0" and v = 0 and t = 0]
    r [where opt = OPT_LEASE_TIME and ip = "IP4 0 0 0 0" and dflt = "IP4 0 0 0 0" and v = 0 and t = 3600]
  show ?thesis by auto
qed

text \<open>C31: on options that are well-formed and closed by the end mark, the loop of
  \<open>handleRequest\<close> stays in the buffer and returns the last requested address of length 4,
  or the default when there is none.\<close>

theorem findReqIP_correct:
  assumes "\<forall>x \<in> set os. opt_wf x" and "m = pre @ enc_opts os @ OPT_END # rest"
  shows "findReqIP m (length pre) dflt = Inr (requested os dflt)"
  using assms by (rule findReqIP_finds)

theorem findReqIP_correct_witness:
  "findReqIP ([7, 7] @ enc_opts [(OPT_MSGTYPE, [3]), (OPT_REQ_IP, [10, 0, 0, 5])] @ [OPT_END, 9])
     (length [7 :: u8, 7]) (IP4 0 0 0 0) = Inr (IP4 10 0 0 5)"
proof -
  have "\<forall>x \<in> set [(OPT_MSGTYPE, [3]), (OPT_REQ_IP, [10, 0, 0, 5])]. opt_wf x"
    by (simp add: opt_wf_def opt_codes)
  from findReqIP_correct [OF this refl, of "[7, 7]" "[9]" "IP4 0 0 0 0"] show ?thesis
    by (simp add: opt_codes ip4_of_bytes_def)
qed

text \<open>A pad option (RFC 2132 code 0, a single byte) is stepped over as if it had a length and
  data: after one pad byte the length of the step is the code of the next option.\<close>

theorem pad_is_misread:
  assumes "m = pre @ 0 # c # rest" and "c \<noteq> 0"
  shows "findReqIP m (length pre) a = findReqIP m (length pre + unat c + 2) a"
proof -
  have "getOption m (length pre) = Inr 0" "getOptionLen m (length pre) = Inr c"
    by (simp_all add: assms(1) getOption_def getOptionLen_def rd_def nth_append)
  then show ?thesis
    by (subst findReqIP.simps) (simp add: takeReqIP_def nextOption_def opt_codes)
qed

theorem pad_is_misread_witness:
  "findReqIP [0, 50, 4, 10, 0, 0, 5, 255] 0 (IP4 0 0 0 0) = Inl OutOfBounds"
  using pad_is_misread [of "[0, 50, 4, 10, 0, 0, 5, 255]" "[]" 50 "[4, 10, 0, 0, 5, 255]" "IP4 0 0 0 0"]
  by (simp add: findReqIP_out)

end
