(* ===== verification/Dhcp_Server.thy ===== *)
theory Dhcp_Server
  imports Dhcp_Options
begin

text \<open>
  The DHCP server proper (\<open>apps/dhcps/dhcps.c\<close>): building a reply, the DISCOVER and
  REQUEST handlers, the receive callback, start and stop. A handler takes the server state
  and returns it with the list of calls it makes into lwIP, in order.
\<close>

section \<open>What lwIP provides\<close>

text \<open>
  \<open>struct dhcp_msg\<close> is lwIP's: the model takes the offsets of the fields the code uses,
  the size of the structure and the four bytes of \<open>PP_HTONL(DHCP_MAGIC_COOKIE)\<close> as a
  parameter. \<open>dhcp_msg_ok\<close> is what the structure promises: the fields come in the
  order of RFC 2131, do not overlap and lie inside it, and there is room for at least 68
  bytes of options.
\<close>

record dhcp_msg =
  op_off :: nat
  yiaddr_off :: nat
  chaddr_off :: nat
  cookie_off :: nat
  options_off :: nat
  options_len :: nat
  msg_size :: nat
  cookie_bytes :: "u8 list"

definition dhcp_msg_ok :: "dhcp_msg \<Rightarrow> bool" where
  "dhcp_msg_ok L \<longleftrightarrow>
     op_off L < yiaddr_off L \<and> yiaddr_off L + 4 \<le> chaddr_off L \<and>
     chaddr_off L + 6 \<le> cookie_off L \<and> cookie_off L + 4 \<le> options_off L \<and>
     options_off L + options_len L \<le> msg_size L \<and> 68 \<le> options_len L \<and>
     length (cookie_bytes L) = 4"

text \<open>The address macros of lwIP: one octet of an address, an address from four integers.\<close>

record ip4_macros =
  ip4_addr1 :: "ip4 \<Rightarrow> u8"
  ip4_addr2 :: "ip4 \<Rightarrow> u8"
  ip4_addr3 :: "ip4 \<Rightarrow> u8"
  ip4_addr4 :: "ip4 \<Rightarrow> u8"
  IP4_ADDR :: "nat \<Rightarrow> nat \<Rightarrow> nat \<Rightarrow> nat \<Rightarrow> ip4"

definition ip4_macros_ok :: "ip4_macros \<Rightarrow> bool" where
  "ip4_macros_ok A \<longleftrightarrow>
     (\<forall>a b c d. ip4_addr1 A (IP4 a b c d) = a \<and> ip4_addr2 A (IP4 a b c d) = b \<and>
        ip4_addr3 A (IP4 a b c d) = c \<and> ip4_addr4 A (IP4 a b c d) = d) \<and>
     (\<forall>a b c d. IP4_ADDR A a b c d = IP4 (word_of_nat a) (word_of_nat b) (word_of_nat c) (word_of_nat d))"

text \<open>The network interface, as far as the server reads it.\<close>

record netif4 =
  netif_ip4_addr :: ip4
  netif_ip4_netmask :: ip4

section \<open>State and calls\<close>

text \<open>
  The static variables. \<open>dhcpBuffer\<close> holds the bytes of the buffer of that name, which the
  code never writes.
\<close>

record dhcps =
  dhcpPcb :: "nat option"
  leases :: "lease list"
  dhcpBuffer :: "u8 list"

datatype pbuf_name = Request | Response

datatype dest = Broadcast | Unicast ip4

datatype port = DhcpClientPort | DhcpServerPort

datatype message =
    RequestReceived
  | OfferSent ip4
  | AckSent ip4
  | NotFree ip4
  | NoFreeAddresses
  | OutOfMem
  | PbufTooSmall
  | UnknownOption u8
  | NoPcb

text \<open>
  Calls into lwIP and prints. \<open>PbufAlloc\<close> is an allocation that succeeded; \<open>ReadPbuf\<close> records that the arguments of a print read
  bytes of a buffer.
\<close>

datatype call =
    PbufAlloc nat
  | PbufFree pbuf_name
  | ReadPbuf pbuf_name nat nat
  | UdpSendToIf "nat option" "u8 list" dest port
  | EtharpAddStatic ip4 "u8 list"
  | UdpNew
  | IpSetBroadcast "nat option"
  | UdpBind "nat option" port
  | UdpRecv "nat option" netif4
  | UdpRemove "nat option"
  | Print message

section \<open>Building a reply\<close>

text \<open>
  The answer of \<open>pbuf_alloc\<close> is the argument \<open>rpo\<close>: the payload of the new buffer with
  whatever it contains, or \<open>None\<close>. \<open>p\<close> is the payload of the received buffer, of
  \<open>p->len\<close> bytes.
\<close>

definition newResp :: "dhcp_msg \<Rightarrow> u8 list \<Rightarrow> u8 list option \<Rightarrow> (u8 list option \<times> call list) res" where
  "newResp L p rpo =
     (case rpo of
        None \<Rightarrow> Inr (None, [Print OutOfMem])
      | Some rp \<Rightarrow>
          if length rp < msg_size L
          then Inr (None, [PbufAlloc (msg_size L), Print PbufTooSmall, PbufFree Response])
          else
            let len = length p; len = (if length rp < len then length rp else len) in
            rbind (rd_n p 0 len) (\<lambda>bs.
            rbind (wr_n rp 0 bs) (\<lambda>rp.
            rbind (wr_n rp (options_off L) (replicate (options_len L) 0)) (\<lambda>rp.
            rbind (wr_n rp (op_off L) [2]) (\<lambda>rp.
            rbind (wr_n rp (cookie_off L) (cookie_bytes L)) (\<lambda>rp.
            Inr (Some rp, [PbufAlloc (msg_size L)])))))))"

section \<open>The handlers\<close>

definition handleDiscover ::
    "dhcp_msg \<Rightarrow> netif4 \<Rightarrow> u8 list \<Rightarrow> u8 list option \<Rightarrow> dhcps \<Rightarrow> (dhcps \<times> call list) res" where
  "handleDiscover L nif p rpo s =
     rbind (rd_n p (chaddr_off L) 6) (\<lambda>mac.
     case allocateAddr mac (leases s) of
       (None, _) \<Rightarrow> Inr (s, [Print NoFreeAddresses])
     | (Some addr, ls) \<Rightarrow>
         let s = s\<lparr>leases := ls\<rparr> in
         rbind (newResp L p rpo) (\<lambda>(resp, calls).
         case resp of
           None \<Rightarrow> Inr (s, calls)
         | Some rp \<Rightarrow>
             rbind (wr_n rp (yiaddr_off L) (ip4_bytes addr)) (\<lambda>rp.
             rbind (addOptionByte OPT_MSGTYPE DHCPOFFER (rp, options_off L)) (\<lambda>c.
             rbind (addOptionIP OPT_NETMASK (netif_ip4_netmask nif) c) (\<lambda>c.
             rbind (addOptionIP OPT_SERVERID (netif_ip4_addr nif) c) (\<lambda>c.
             rbind (put OPT_END c) (\<lambda>(rp, _).
             Inr (s, calls @
               [UdpSendToIf (dhcpPcb s) rp Broadcast DhcpClientPort,
                PbufFree Response,
                ReadPbuf Response (chaddr_off L) 6,
                Print (OfferSent addr)]))))))))"

definition handleRequest ::
    "dhcp_msg \<Rightarrow> netif4 \<Rightarrow> u8 list \<Rightarrow> u8 list option \<Rightarrow> dhcps \<Rightarrow> (dhcps \<times> call list) res" where
  "handleRequest L nif p rpo s =
     (let reqAddr = IP4 0 0 0 0 in
     rbind (rd_n p (chaddr_off L) 6) (\<lambda>mac.
     case allocateAddr mac (leases s) of
       (None, _) \<Rightarrow> Inr (s, [Print NoFreeAddresses])
     | (Some newAddr, ls) \<Rightarrow>
         let s = s\<lparr>leases := ls\<rparr> in
         rbind (newResp L p rpo) (\<lambda>(resp, calls).
         case resp of
           None \<Rightarrow> Inr (s, calls)
         | Some rp \<Rightarrow>
             rbind (findReqIP p (options_off L) reqAddr) (\<lambda>reqAddr.
             if reqAddr = newAddr then
               rbind (wr_n rp (yiaddr_off L) (ip4_bytes reqAddr)) (\<lambda>rp.
               rbind (addOptionByte OPT_MSGTYPE DHCPACK (rp, options_off L)) (\<lambda>c.
               rbind (addOptionTime OPT_RENEW_TIME (30 * 60) c) (\<lambda>c.
               rbind (addOptionTime OPT_REBIND_TIME (50 * 60) c) (\<lambda>c.
               rbind (addOptionTime OPT_LEASE_TIME (60 * 60) c) (\<lambda>c.
               rbind (addOptionIP OPT_NETMASK (netif_ip4_netmask nif) c) (\<lambda>c.
               rbind (addOptionIP OPT_SERVERID (netif_ip4_addr nif) c) (\<lambda>c.
               rbind (put OPT_END c) (\<lambda>(rp, _).
               rbind (rd_n rp (yiaddr_off L) 4) (\<lambda>dest.
               rbind (rd_n rp (chaddr_off L) 6) (\<lambda>chaddr.
               Inr (s, calls @
                 [EtharpAddStatic (ip4_of_bytes dest) chaddr,
                  UdpSendToIf (dhcpPcb s) rp (Unicast (ip4_of_bytes dest)) DhcpClientPort,
                  PbufFree Response,
                  ReadPbuf Response (chaddr_off L) 6,
                  Print (AckSent (ip4_of_bytes dest))])))))))))))
             else
               rbind (addOptionByte OPT_MSGTYPE DHCPNAK (rp, options_off L)) (\<lambda>c.
               rbind (addOptionIP OPT_SERVERID (netif_ip4_addr nif) c) (\<lambda>c.
               rbind (put OPT_END c) (\<lambda>(rp, _).
               Inr (s, calls @
                 [Print (NotFree reqAddr),
                  UdpSendToIf (dhcpPcb s) rp Broadcast DhcpClientPort,
                  PbufFree Response]))))))))"

text \<open>
  The receive callback. The default branch prints \<open>dhcpBuffer.options[2]\<close>, not the
  option of the request.
\<close>

definition dhcpRecv ::
    "dhcp_msg \<Rightarrow> netif4 \<Rightarrow> u8 list \<Rightarrow> u8 list option \<Rightarrow> dhcps \<Rightarrow> (dhcps \<times> call list) res" where
  "dhcpRecv L nif p rpo s =
     rbind (rd p (options_off L + 2)) (\<lambda>msgtype.
     rbind
       (if msgtype = DHCPDISCOVER then handleDiscover L nif p rpo s
        else if msgtype = DHCPREQUEST then handleRequest L nif p rpo s
        else rbind (rd (dhcpBuffer s) (options_off L + 2)) (\<lambda>o2.
          Inr (s, [Print (UnknownOption o2)])))
       (\<lambda>(s, calls). Inr (s, Print RequestReceived # calls @ [PbufFree Request])))"

section \<open>Start and stop\<close>

text \<open>The answer of \<open>udp_new\<close> is the argument \<open>pcb\<close>.\<close>

definition dhcpServerStartRaw ::
    "ip4_macros \<Rightarrow> netif4 \<Rightarrow> nat option \<Rightarrow> dhcps \<Rightarrow> dhcps \<times> call list" where
  "dhcpServerStartRaw A nif pcb s =
     (let base = netif_ip4_addr nif;
          ls = map (\<lambda>i. \<lparr>lease_mac = replicate 6 0,
                 lease_ip = IP4_ADDR A (unat (ip4_addr1 A base)) (unat (ip4_addr2 A base))
                   (unat (ip4_addr3 A base)) (unat (ip4_addr4 A base) + i + 10)\<rparr>) [0..<MAX_LEASES];
          s = s\<lparr>leases := ls, dhcpPcb := pcb\<rparr>
      in if pcb = None then (s, [UdpNew, Print NoPcb])
         else (s, [UdpNew, IpSetBroadcast pcb, UdpBind pcb DhcpServerPort, UdpRecv pcb nif]))"

definition dhcpServerStopRaw :: "dhcps \<Rightarrow> dhcps \<times> call list" where
  "dhcpServerStopRaw s = (s\<lparr>dhcpPcb := None\<rparr>, [UdpRemove (dhcpPcb s)])"

text \<open>
  The two entry points only queue a callback for the tcpip thread; \<open>tcpip_callback\<close> is
  lwIP's, with its own state and error code.
\<close>

datatype tcpip_job = DhcpServerStartRaw netif4 | DhcpServerStopRaw netif4

definition dhcpServerStart ::
    "(tcpip_job \<Rightarrow> 'w \<Rightarrow> 'err \<times> 'w) \<Rightarrow> netif4 \<Rightarrow> 'w \<Rightarrow> 'err \<times> 'w" where
  "dhcpServerStart tcpip_callback nif w = tcpip_callback (DhcpServerStartRaw nif) w"

definition dhcpServerStop ::
    "(tcpip_job \<Rightarrow> 'w \<Rightarrow> 'err \<times> 'w) \<Rightarrow> netif4 \<Rightarrow> 'w \<Rightarrow> 'err \<times> 'w" where
  "dhcpServerStop tcpip_callback nif w = tcpip_callback (DhcpServerStopRaw nif) w"

text \<open>What the tcpip thread does with a queued job.\<close>

fun run_job :: "ip4_macros \<Rightarrow> nat option \<Rightarrow> tcpip_job \<Rightarrow> dhcps \<Rightarrow> dhcps \<times> call list" where
  "run_job A pcb (DhcpServerStartRaw nif) s = dhcpServerStartRaw A nif pcb s"
| "run_job A pcb (DhcpServerStopRaw nif) s = dhcpServerStopRaw s"

end
