(* ===== verification/Dhcp_Replies.thy ===== *)
theory Dhcp_Replies
  imports Dhcp_Server
begin

text \<open>
  What the handlers of \<open>Dhcp_Server\<close> send: an abstract description of a reply, byte by
  byte, and the proof that every branch of the handlers builds it. The handler lemmas
  (\<open>handleDiscover_offer\<close> to \<open>handleRequest_nak\<close>) are what the later theories use; they
  never unfold a handler again.
\<close>

section \<open>The abstract reply\<close>

text \<open>
  Byte \<open>i\<close> of the reply to the request \<open>p\<close> in a buffer that held \<open>rp\<close>: operation 2,
  the assigned address if there is one, the cookie, the options padded with zeros, and the
  request's own byte everywhere else.
\<close>

definition reply_byte ::
    "dhcp_msg \<Rightarrow> u8 list \<Rightarrow> u8 list \<Rightarrow> ip4 option \<Rightarrow> u8 list \<Rightarrow> nat \<Rightarrow> u8" where
  "reply_byte L p rp yi opts i =
     (if i = op_off L then 2
      else if yi \<noteq> None \<and> yiaddr_off L \<le> i \<and> i < yiaddr_off L + 4
        then ip4_bytes (the yi) ! (i - yiaddr_off L)
      else if cookie_off L \<le> i \<and> i < cookie_off L + 4 then cookie_bytes L ! (i - cookie_off L)
      else if options_off L \<le> i \<and> i < options_off L + options_len L
        then (if i - options_off L < length opts then opts ! (i - options_off L) else 0)
      else if i < length p then p ! i else rp ! i)"

definition reply :: "dhcp_msg \<Rightarrow> u8 list \<Rightarrow> u8 list \<Rightarrow> ip4 option \<Rightarrow> u8 list \<Rightarrow> u8 list" where
  "reply L p rp yi opts = map (reply_byte L p rp yi opts) [0..<length rp]"

lemma length_reply [simp]: "length (reply L p rp yi opts) = length rp"
  by (simp add: reply_def)

lemma nth_reply: "i < length rp \<Longrightarrow> reply L p rp yi opts ! i = reply_byte L p rp yi opts i"
  by (simp add: reply_def)

text \<open>The options of the three replies.\<close>

definition offer_opts :: "netif4 \<Rightarrow> (u8 \<times> u8 list) list" where
  "offer_opts nif =
     [(OPT_MSGTYPE, [DHCPOFFER]),
      (OPT_NETMASK, ip4_bytes (netif_ip4_netmask nif)),
      (OPT_SERVERID, ip4_bytes (netif_ip4_addr nif))]"

definition ack_opts :: "netif4 \<Rightarrow> (u8 \<times> u8 list) list" where
  "ack_opts nif =
     [(OPT_MSGTYPE, [DHCPACK]),
      (OPT_RENEW_TIME, be32 1800),
      (OPT_REBIND_TIME, be32 3000),
      (OPT_LEASE_TIME, be32 3600),
      (OPT_NETMASK, ip4_bytes (netif_ip4_netmask nif)),
      (OPT_SERVERID, ip4_bytes (netif_ip4_addr nif))]"

definition nak_opts :: "netif4 \<Rightarrow> (u8 \<times> u8 list) list" where
  "nak_opts nif =
     [(OPT_MSGTYPE, [DHCPNAK]), (OPT_SERVERID, ip4_bytes (netif_ip4_addr nif))]"

definition opts_bytes :: "(u8 \<times> u8 list) list \<Rightarrow> u8 list" where
  "opts_bytes os = enc_opts os @ [OPT_END]"

lemma length_opts_bytes [simp]:
  "length (opts_bytes (offer_opts nif)) = 16"
  "length (opts_bytes (ack_opts nif)) = 34"
  "length (opts_bytes (nak_opts nif)) = 10"
  by (simp_all add: opts_bytes_def offer_opts_def ack_opts_def nak_opts_def)

section \<open>newResp\<close>

lemma newResp_none: "newResp L p None = Inr (None, [Print OutOfMem])"
  by (simp add: newResp_def)

lemma newResp_small:
  "length rp < msg_size L \<Longrightarrow>
   newResp L p (Some rp) =
     Inr (None, [PbufAlloc (msg_size L), Print PbufTooSmall, PbufFree Response])"
  by (simp add: newResp_def)

lemma dhcp_msg_okD:
  assumes "dhcp_msg_ok L"
  shows "op_off L < yiaddr_off L" "yiaddr_off L + 4 \<le> chaddr_off L"
    "chaddr_off L + 6 \<le> cookie_off L" "cookie_off L + 4 \<le> options_off L"
    "options_off L + options_len L \<le> msg_size L" "68 \<le> options_len L"
    "length (cookie_bytes L) = 4"
  using assms by (simp_all add: dhcp_msg_ok_def)

lemma newResp_reply:
  assumes ok: "dhcp_msg_ok L" and size: "msg_size L \<le> length rp"
  shows "newResp L p (Some rp) = Inr (Some (reply L p rp None []), [PbufAlloc (msg_size L)])"
proof -
  note L = dhcp_msg_okD [OF ok]
  define len where "len = (if length rp < length p then length rp else length p)"
  have len: "len \<le> length p" "len \<le> length rp" by (auto simp: len_def)
  define a where "a = splice rp 0 (take len p)"
  define b where "b = splice a (options_off L) (replicate (options_len L) 0)"
  define c where "c = splice b (op_off L) [2]"
  define d where "d = splice c (cookie_off L) (cookie_bytes L)"
  have la: "length a = length rp" using len by (simp add: a_def)
  have lb: "length b = length rp" using L size la by (simp add: b_def)
  have lc: "length c = length rp" using L size lb by (simp add: c_def)
  have ld: "length d = length rp" using L size lc by (simp add: d_def)
  have "newResp L p (Some rp) = Inr (Some d, [PbufAlloc (msg_size L)])"
    using size len L la lb lc
    by (simp add: newResp_def Let_def len_def [symmetric] rd_n_in wr_n_in a_def [symmetric]
        b_def [symmetric] c_def [symmetric] d_def [symmetric])
  moreover have "d = reply L p rp None []"
  proof (rule nth_equalityI)
    show "length d = length (reply L p rp None [])" using ld by simp
    fix i
    assume "i < length d"
    then have i: "i < length rp" using ld by simp
    have da: "a ! i = (if i < length p then p ! i else rp ! i)"
      using i len by (auto simp: a_def nth_splice len_def)
    have db: "b ! i =
        (if options_off L \<le> i \<and> i < options_off L + options_len L then 0 else a ! i)"
      using i L size la by (auto simp: b_def nth_splice)
    have dc: "c ! i = (if i = op_off L then 2 else b ! i)"
      using i L size lb by (auto simp: c_def nth_splice)
    have dd: "d ! i = (if cookie_off L \<le> i \<and> i < cookie_off L + 4
        then cookie_bytes L ! (i - cookie_off L) else c ! i)"
      using i L size lc by (auto simp: d_def nth_splice)
    show "d ! i = reply L p rp None [] ! i"
      using i L unfolding dd dc db da by (auto simp: nth_reply reply_byte_def)
  qed
  ultimately show ?thesis by simp
qed

text \<open>Storing the address and the options in the reply.\<close>

lemma reply_yiaddr:
  assumes ok: "dhcp_msg_ok L" and size: "msg_size L \<le> length rp"
  shows "splice (reply L p rp None []) (yiaddr_off L) (ip4_bytes a) = reply L p rp (Some a) []"
proof (rule nth_equalityI)
  note L = dhcp_msg_okD [OF ok]
  show "length (splice (reply L p rp None []) (yiaddr_off L) (ip4_bytes a)) =
      length (reply L p rp (Some a) [])"
    using L size by simp
  fix i
  assume "i < length (splice (reply L p rp None []) (yiaddr_off L) (ip4_bytes a))"
  then have i: "i < length rp" using L size by simp
  with L size show "splice (reply L p rp None []) (yiaddr_off L) (ip4_bytes a) ! i =
      reply L p rp (Some a) [] ! i"
    by (auto simp: nth_splice nth_reply reply_byte_def)
qed

lemma reply_options:
  assumes ok: "dhcp_msg_ok L" and size: "msg_size L \<le> length rp"
    and opts: "length opts \<le> options_len L"
  shows "splice (reply L p rp yi []) (options_off L) opts = reply L p rp yi opts"
proof (rule nth_equalityI)
  note L = dhcp_msg_okD [OF ok]
  show "length (splice (reply L p rp yi []) (options_off L) opts) =
      length (reply L p rp yi opts)"
    using L size opts by simp
  fix i
  assume "i < length (splice (reply L p rp yi []) (options_off L) opts)"
  then have i: "i < length rp" using L size opts by simp
  with L size opts show "splice (reply L p rp yi []) (options_off L) opts ! i =
      reply L p rp yi opts ! i"
    by (auto simp: nth_splice nth_reply reply_byte_def)
qed

text \<open>Reading a field back from a reply.\<close>

lemma take_drop_reply_yiaddr:
  assumes ok: "dhcp_msg_ok L" and size: "msg_size L \<le> length rp"
  shows "rd_n (reply L p rp (Some a) opts) (yiaddr_off L) 4 = Inr (ip4_bytes a)"
  by (rule rd_n_eqI)
    (use dhcp_msg_okD [OF ok] size in \<open>auto simp: nth_reply reply_byte_def\<close>)

lemma rd_n_reply_chaddr:
  assumes ok: "dhcp_msg_ok L" and size: "msg_size L \<le> length rp"
    and mac: "rd_n p (chaddr_off L) 6 = Inr mac"
  shows "rd_n (reply L p rp yi opts) (chaddr_off L) 6 = Inr mac"
  by (rule rd_n_eqI)
    (use dhcp_msg_okD [OF ok] size mac in
      \<open>auto simp: nth_reply reply_byte_def rd_n_nth [OF mac] dest: rd_n_InrD\<close>)

section \<open>The handlers, branch by branch\<close>

text \<open>The request is too short to hold a hardware address.\<close>

lemma rd_n_chaddr_short:
  "length p < chaddr_off L + 6 \<Longrightarrow> rd_n p (chaddr_off L) 6 = Inl OutOfBounds"
  by (simp add: rd_n_def)

lemma handleDiscover_full:
  assumes "rd_n p (chaddr_off L) 6 = Inr mac" and "allocateAddr mac (leases s) = (None, ls)"
  shows "handleDiscover L nif p rpo s = Inr (s, [Print NoFreeAddresses])"
  using assms by (simp add: handleDiscover_def)

lemma handleRequest_full:
  assumes "rd_n p (chaddr_off L) 6 = Inr mac" and "allocateAddr mac (leases s) = (None, ls)"
  shows "handleRequest L nif p rpo s = Inr (s, [Print NoFreeAddresses])"
  using assms by (simp add: handleRequest_def Let_def)

text \<open>No buffer for the reply, or one that is too small: the lease is taken all the same.\<close>

definition no_reply_calls :: "dhcp_msg \<Rightarrow> u8 list option \<Rightarrow> call list" where
  "no_reply_calls L rpo =
     (case rpo of
        None \<Rightarrow> [Print OutOfMem]
      | Some _ \<Rightarrow> [PbufAlloc (msg_size L), Print PbufTooSmall, PbufFree Response])"

definition usable :: "dhcp_msg \<Rightarrow> u8 list option \<Rightarrow> bool" where
  "usable L rpo \<longleftrightarrow> (case rpo of None \<Rightarrow> False | Some rp \<Rightarrow> msg_size L \<le> length rp)"

lemma usable_Some [simp]: "usable L (Some rp) \<longleftrightarrow> msg_size L \<le> length rp"
  by (simp add: usable_def)

lemma newResp_unusable:
  "\<not> usable L rpo \<Longrightarrow> newResp L p rpo = Inr (None, no_reply_calls L rpo)"
  by (cases rpo) (simp_all add: usable_def no_reply_calls_def newResp_none newResp_small)

lemma handleDiscover_no_reply:
  assumes "rd_n p (chaddr_off L) 6 = Inr mac" and "allocateAddr mac (leases s) = (Some a, ls)"
    and "\<not> usable L rpo"
  shows "handleDiscover L nif p rpo s = Inr (s\<lparr>leases := ls\<rparr>, no_reply_calls L rpo)"
  using assms by (simp add: handleDiscover_def Let_def newResp_unusable)

lemma handleRequest_no_reply:
  assumes "rd_n p (chaddr_off L) 6 = Inr mac" and "allocateAddr mac (leases s) = (Some a, ls)"
    and "\<not> usable L rpo"
  shows "handleRequest L nif p rpo s = Inr (s\<lparr>leases := ls\<rparr>, no_reply_calls L rpo)"
  using assms by (simp add: handleRequest_def Let_def newResp_unusable)

text \<open>The option writers of a reply, run one after the other from the option field.\<close>

lemma write_offer:
  assumes "dhcp_msg_ok L" and "msg_size L \<le> length m"
  shows "rbind (addOptionByte OPT_MSGTYPE DHCPOFFER (m, options_off L)) (\<lambda>c.
      rbind (addOptionIP OPT_NETMASK (netif_ip4_netmask nif) c) (\<lambda>c.
      rbind (addOptionIP OPT_SERVERID (netif_ip4_addr nif) c) (\<lambda>c.
      rbind (put OPT_END c) K))) =
    K (splice m (options_off L) (opts_bytes (offer_opts nif)), options_off L + 16)"
proof -
  note L = dhcp_msg_okD [OF assms(1)]
  have eq: "opts_bytes (offer_opts nif) = enc_opt (OPT_MSGTYPE, [DHCPOFFER]) @
      enc_opt (OPT_NETMASK, ip4_bytes (netif_ip4_netmask nif)) @
      enc_opt (OPT_SERVERID, ip4_bytes (netif_ip4_addr nif)) @ [OPT_END]"
    by (simp add: opts_bytes_def offer_opts_def enc_opts_def)
  have w: "writes (\<lambda>c. rbind (addOptionByte OPT_MSGTYPE DHCPOFFER c) (\<lambda>c.
      rbind (addOptionIP OPT_NETMASK (netif_ip4_netmask nif) c) (\<lambda>c.
      rbind (addOptionIP OPT_SERVERID (netif_ip4_addr nif) c) (\<lambda>c. put OPT_END c))))
      (opts_bytes (offer_opts nif))"
    unfolding eq by (intro writes_then writers)
  then show ?thesis
    using writesD [OF w, of "options_off L" m] L assms(2)
    by (simp add: rbind_assoc [symmetric])
qed

lemma write_ack:
  assumes "dhcp_msg_ok L" and "msg_size L \<le> length m"
  shows "rbind (addOptionByte OPT_MSGTYPE DHCPACK (m, options_off L)) (\<lambda>c.
      rbind (addOptionTime OPT_RENEW_TIME 1800 c) (\<lambda>c.
      rbind (addOptionTime OPT_REBIND_TIME 3000 c) (\<lambda>c.
      rbind (addOptionTime OPT_LEASE_TIME 3600 c) (\<lambda>c.
      rbind (addOptionIP OPT_NETMASK (netif_ip4_netmask nif) c) (\<lambda>c.
      rbind (addOptionIP OPT_SERVERID (netif_ip4_addr nif) c) (\<lambda>c.
      rbind (put OPT_END c) K)))))) =
    K (splice m (options_off L) (opts_bytes (ack_opts nif)), options_off L + 34)"
proof -
  note L = dhcp_msg_okD [OF assms(1)]
  have eq: "opts_bytes (ack_opts nif) = enc_opt (OPT_MSGTYPE, [DHCPACK]) @
      enc_opt (OPT_RENEW_TIME, be32 1800) @ enc_opt (OPT_REBIND_TIME, be32 3000) @
      enc_opt (OPT_LEASE_TIME, be32 3600) @
      enc_opt (OPT_NETMASK, ip4_bytes (netif_ip4_netmask nif)) @
      enc_opt (OPT_SERVERID, ip4_bytes (netif_ip4_addr nif)) @ [OPT_END]"
    by (simp add: opts_bytes_def ack_opts_def enc_opts_def)
  have w: "writes (\<lambda>c. rbind (addOptionByte OPT_MSGTYPE DHCPACK c) (\<lambda>c.
      rbind (addOptionTime OPT_RENEW_TIME 1800 c) (\<lambda>c.
      rbind (addOptionTime OPT_REBIND_TIME 3000 c) (\<lambda>c.
      rbind (addOptionTime OPT_LEASE_TIME 3600 c) (\<lambda>c.
      rbind (addOptionIP OPT_NETMASK (netif_ip4_netmask nif) c) (\<lambda>c.
      rbind (addOptionIP OPT_SERVERID (netif_ip4_addr nif) c) (\<lambda>c. put OPT_END c)))))))
      (opts_bytes (ack_opts nif))"
    unfolding eq by (intro writes_then writers)
  then show ?thesis
    using writesD [OF w, of "options_off L" m] L assms(2)
    by (simp add: rbind_assoc [symmetric])
qed

lemma write_nak:
  assumes "dhcp_msg_ok L" and "msg_size L \<le> length m"
  shows "rbind (addOptionByte OPT_MSGTYPE DHCPNAK (m, options_off L)) (\<lambda>c.
      rbind (addOptionIP OPT_SERVERID (netif_ip4_addr nif) c) (\<lambda>c.
      rbind (put OPT_END c) K)) =
    K (splice m (options_off L) (opts_bytes (nak_opts nif)), options_off L + 10)"
proof -
  note L = dhcp_msg_okD [OF assms(1)]
  have eq: "opts_bytes (nak_opts nif) = enc_opt (OPT_MSGTYPE, [DHCPNAK]) @
      enc_opt (OPT_SERVERID, ip4_bytes (netif_ip4_addr nif)) @ [OPT_END]"
    by (simp add: opts_bytes_def nak_opts_def enc_opts_def)
  have w: "writes (\<lambda>c. rbind (addOptionByte OPT_MSGTYPE DHCPNAK c) (\<lambda>c.
      rbind (addOptionIP OPT_SERVERID (netif_ip4_addr nif) c) (\<lambda>c. put OPT_END c)))
      (opts_bytes (nak_opts nif))"
    unfolding eq by (intro writes_then writers)
  then show ?thesis
    using writesD [OF w, of "options_off L" m] L assms(2)
    by (simp add: rbind_assoc [symmetric])
qed

lemma handleDiscover_offer:
  assumes ok: "dhcp_msg_ok L" and size: "msg_size L \<le> length rp"
    and mac: "rd_n p (chaddr_off L) 6 = Inr mac"
    and alloc: "allocateAddr mac (leases s) = (Some a, ls)"
  shows "handleDiscover L nif p (Some rp) s =
    Inr (s\<lparr>leases := ls\<rparr>,
      [PbufAlloc (msg_size L),
       UdpSendToIf (dhcpPcb s) (reply L p rp (Some a) (opts_bytes (offer_opts nif)))
         Broadcast DhcpClientPort,
       PbufFree Response, ReadPbuf Response (chaddr_off L) 6, Print (OfferSent a)])"
proof -
  note L = dhcp_msg_okD [OF ok]
  have yi: "wr_n (reply L p rp None []) (yiaddr_off L) (ip4_bytes a) = Inr (reply L p rp (Some a) [])"
    using L size by (simp add: wr_n_in reply_yiaddr [OF ok size])
  show ?thesis
    using L size mac alloc
    by (simp add: handleDiscover_def Let_def newResp_reply [OF ok size] yi write_offer [OF ok]
        reply_options [OF ok size])
qed

lemma handleRequest_ack:
  assumes ok: "dhcp_msg_ok L" and size: "msg_size L \<le> length rp"
    and mac: "rd_n p (chaddr_off L) 6 = Inr mac"
    and alloc: "allocateAddr mac (leases s) = (Some a, ls)"
    and req: "findReqIP p (options_off L) (IP4 0 0 0 0) = Inr a"
  shows "handleRequest L nif p (Some rp) s =
    Inr (s\<lparr>leases := ls\<rparr>,
      [PbufAlloc (msg_size L), EtharpAddStatic a mac,
       UdpSendToIf (dhcpPcb s) (reply L p rp (Some a) (opts_bytes (ack_opts nif)))
         (Unicast a) DhcpClientPort,
       PbufFree Response, ReadPbuf Response (chaddr_off L) 6, Print (AckSent a)])"
proof -
  note L = dhcp_msg_okD [OF ok]
  have yi: "wr_n (reply L p rp None []) (yiaddr_off L) (ip4_bytes a) = Inr (reply L p rp (Some a) [])"
    using L size by (simp add: wr_n_in reply_yiaddr [OF ok size])
  show ?thesis
    using L size mac alloc req
    by (simp add: handleRequest_def Let_def newResp_reply [OF ok size] yi write_ack [OF ok]
        reply_options [OF ok size] take_drop_reply_yiaddr [OF ok size]
        rd_n_reply_chaddr [OF ok size mac])
qed

lemma handleRequest_nak:
  assumes ok: "dhcp_msg_ok L" and size: "msg_size L \<le> length rp"
    and mac: "rd_n p (chaddr_off L) 6 = Inr mac"
    and alloc: "allocateAddr mac (leases s) = (Some a, ls)"
    and req: "findReqIP p (options_off L) (IP4 0 0 0 0) = Inr b" "b \<noteq> a"
  shows "handleRequest L nif p (Some rp) s =
    Inr (s\<lparr>leases := ls\<rparr>,
      [PbufAlloc (msg_size L), Print (NotFree b),
       UdpSendToIf (dhcpPcb s) (reply L p rp None (opts_bytes (nak_opts nif)))
         Broadcast DhcpClientPort,
       PbufFree Response])"
  using dhcp_msg_okD [OF ok] size mac alloc req
  by (simp add: handleRequest_def Let_def newResp_reply [OF ok size] write_nak [OF ok]
      reply_options [OF ok size])

text \<open>A request whose options run past the buffer is a fault, with the lease already taken.\<close>

lemma handleRequest_overrun:
  assumes ok: "dhcp_msg_ok L" and size: "msg_size L \<le> length rp"
    and mac: "rd_n p (chaddr_off L) 6 = Inr mac"
    and alloc: "allocateAddr mac (leases s) = (Some a, ls)"
    and req: "findReqIP p (options_off L) (IP4 0 0 0 0) = Inl e"
  shows "handleRequest L nif p (Some rp) s = Inl e"
  using mac alloc req
  by (simp add: handleRequest_def Let_def newResp_reply [OF ok size])

section \<open>The receive callback\<close>

text \<open>What the callback adds around a handler's calls.\<close>

definition around :: "call list \<Rightarrow> call list" where
  "around calls = Print RequestReceived # calls @ [PbufFree Request]"

lemma dhcpRecv_discover:
  assumes "rd p (options_off L + 2) = Inr DHCPDISCOVER"
  shows "dhcpRecv L nif p rpo s =
    rbind (handleDiscover L nif p rpo s) (\<lambda>(s, calls). Inr (s, around calls))"
  using assms by (simp add: dhcpRecv_def around_def)

lemma dhcpRecv_request:
  assumes "rd p (options_off L + 2) = Inr DHCPREQUEST"
  shows "dhcpRecv L nif p rpo s =
    rbind (handleRequest L nif p rpo s) (\<lambda>(s, calls). Inr (s, around calls))"
  using assms by (simp add: dhcpRecv_def around_def msg_types)

lemma dhcpRecv_other:
  assumes "rd p (options_off L + 2) = Inr t" and "t \<noteq> DHCPDISCOVER" and "t \<noteq> DHCPREQUEST"
  shows "dhcpRecv L nif p rpo s =
    rbind (rd (dhcpBuffer s) (options_off L + 2))
      (\<lambda>o2. Inr (s, around [Print (UnknownOption o2)]))"
  using assms by (simp add: dhcpRecv_def around_def rbind_assoc)

text \<open>Every way a call of the callback can return.\<close>

datatype outcome = Full | NoReply | Offer | Ack | Nak | Unknown

definition outcome_calls ::
    "dhcp_msg \<Rightarrow> netif4 \<Rightarrow> nat option \<Rightarrow> u8 list \<Rightarrow> u8 list option \<Rightarrow> u8 list \<Rightarrow> ip4 \<Rightarrow> ip4 \<Rightarrow>
     u8 \<Rightarrow> outcome \<Rightarrow> call list" where
  "outcome_calls L nif pcb p rpo mac a b o2 out =
     (case out of
        Full \<Rightarrow> [Print NoFreeAddresses]
      | NoReply \<Rightarrow> no_reply_calls L rpo
      | Offer \<Rightarrow>
          [PbufAlloc (msg_size L),
           UdpSendToIf pcb (reply L p (the rpo) (Some a) (opts_bytes (offer_opts nif)))
             Broadcast DhcpClientPort,
           PbufFree Response, ReadPbuf Response (chaddr_off L) 6, Print (OfferSent a)]
      | Ack \<Rightarrow>
          [PbufAlloc (msg_size L), EtharpAddStatic a mac,
           UdpSendToIf pcb (reply L p (the rpo) (Some a) (opts_bytes (ack_opts nif)))
             (Unicast a) DhcpClientPort,
           PbufFree Response, ReadPbuf Response (chaddr_off L) 6, Print (AckSent a)]
      | Nak \<Rightarrow>
          [PbufAlloc (msg_size L), Print (NotFree b),
           UdpSendToIf pcb (reply L p (the rpo) None (opts_bytes (nak_opts nif)))
             Broadcast DhcpClientPort,
           PbufFree Response]
      | Unknown \<Rightarrow> [Print (UnknownOption o2)])"

lemma handler_cases:
  assumes ok: "dhcp_msg_ok L"
    and h: "handleDiscover L nif p rpo s = Inr (s', calls) \<or>
      handleRequest L nif p rpo s = Inr (s', calls)"
  obtains mac a b out where "rd_n p (chaddr_off L) 6 = Inr mac" "out \<noteq> Unknown"
    "calls = outcome_calls L nif (dhcpPcb s) p rpo mac a b 0 out"
    "out = Full \<longleftrightarrow> fst (allocateAddr mac (leases s)) = None"
    "out \<noteq> Full \<Longrightarrow> fst (allocateAddr mac (leases s)) = Some a"
    "s' = s\<lparr>leases := (if out = Full then leases s else snd (allocateAddr mac (leases s)))\<rparr>"
proof -
  obtain mac where mac: "rd_n p (chaddr_off L) 6 = Inr mac"
    using h by (auto simp: handleDiscover_def handleRequest_def Let_def rbind_eq_Inr_iff)
  obtain r ls where alloc: "allocateAddr mac (leases s) = (r, ls)" by fastforce
  show ?thesis
  proof (cases r)
    case None
    with alloc have al: "allocateAddr mac (leases s) = (None, ls)" by simp
    have "s' = s" "calls = [Print NoFreeAddresses]"
      using h by (auto simp: handleDiscover_full [OF mac al] handleRequest_full [OF mac al])
    with al show ?thesis
      by (intro that [OF mac, of Full]) (simp_all add: outcome_calls_def)
  next
    case (Some a)
    with alloc have al: "allocateAddr mac (leases s) = (Some a, ls)" by simp
    show ?thesis
    proof (cases "usable L rpo")
      case False
      have "s' = s\<lparr>leases := ls\<rparr>" "calls = no_reply_calls L rpo"
        using h by (auto simp: handleDiscover_no_reply [OF mac al False]
            handleRequest_no_reply [OF mac al False])
      with al show ?thesis
        by (intro that [OF mac, of NoReply]) (simp_all add: outcome_calls_def)
    next
      case True
      then obtain rp where rp: "rpo = Some rp" and size: "msg_size L \<le> length rp"
        by (cases rpo) (simp_all add: usable_def)
      from h show ?thesis
      proof
        assume "handleDiscover L nif p rpo s = Inr (s', calls)"
        then have "s' = s\<lparr>leases := ls\<rparr>"
          "calls = outcome_calls L nif (dhcpPcb s) p rpo mac a b 0 Offer" for b
          using handleDiscover_offer [OF ok size mac al] by (simp_all add: rp outcome_calls_def)
        with al show ?thesis by (intro that [OF mac, of Offer]) simp_all
      next
        assume r: "handleRequest L nif p rpo s = Inr (s', calls)"
        show ?thesis
        proof (cases "findReqIP p (options_off L) (IP4 0 0 0 0)")
          case (Inl e)
          with r handleRequest_overrun [OF ok size mac al Inl] show ?thesis by (simp add: rp)
        next
          case (Inr c)
          show ?thesis
          proof (cases "c = a")
            case True
            with r Inr have "s' = s\<lparr>leases := ls\<rparr>"
              "calls = outcome_calls L nif (dhcpPcb s) p rpo mac a b 0 Ack" for b
              using handleRequest_ack [OF ok size mac al] by (simp_all add: rp outcome_calls_def)
            with al show ?thesis by (intro that [OF mac, of Ack]) simp_all
          next
            case False
            with r have "s' = s\<lparr>leases := ls\<rparr>"
              "calls = outcome_calls L nif (dhcpPcb s) p rpo mac a c 0 Nak"
              using handleRequest_nak [OF ok size mac al Inr]
              by (simp_all add: rp outcome_calls_def)
            with al show ?thesis by (intro that [OF mac, of Nak]) simp_all
          qed
        qed
      qed
    qed
  qed
qed

lemma dhcpRecv_cases:
  assumes ok: "dhcp_msg_ok L" and r: "dhcpRecv L nif p rpo s = Inr (s', calls)"
  obtains
    (unknown) o2 where "rd (dhcpBuffer s) (options_off L + 2) = Inr o2" "s' = s"
      "calls = around [Print (UnknownOption o2)]"
  | (handled) mac a b out where "rd_n p (chaddr_off L) 6 = Inr mac" "out \<noteq> Unknown"
      "calls = around (outcome_calls L nif (dhcpPcb s) p rpo mac a b 0 out)"
      "out = Full \<longleftrightarrow> fst (allocateAddr mac (leases s)) = None"
      "out \<noteq> Full \<Longrightarrow> fst (allocateAddr mac (leases s)) = Some a"
      "s' = s\<lparr>leases := (if out = Full then leases s else snd (allocateAddr mac (leases s)))\<rparr>"
proof -
  obtain t where t: "rd p (options_off L + 2) = Inr t"
    using r by (auto simp: dhcpRecv_def rbind_eq_Inr_iff)
  show ?thesis
  proof (cases "t = DHCPDISCOVER \<or> t = DHCPREQUEST")
    case False
    with r t show ?thesis
      by (auto simp: dhcpRecv_other rbind_eq_Inr_iff intro: unknown)
  next
    case True
    with r t obtain cs where cs: "calls = around cs"
      "handleDiscover L nif p rpo s = Inr (s', cs) \<or> handleRequest L nif p rpo s = Inr (s', cs)"
      by (auto simp: dhcpRecv_discover dhcpRecv_request rbind_eq_Inr_iff)
    from handler_cases [OF ok cs(2)] handled cs(1) show ?thesis by metis
  qed
qed

end
