(* ===== verification/Dhcp_Session.thy ===== *)
theory Dhcp_Session
  imports Dhcp_Replies
begin

text \<open>
  Whole sessions of the DHCP server: a start and any number of received messages, in the
  order the tcpip thread runs the callbacks. The invariant ties the calls made so far to
  the lease table, and the properties of clients follow from it and from the facts of the
  address pool \<open>lt\<close>.
\<close>

section \<open>Sessions\<close>

text \<open>A message is the received payload with the answer \<open>pbuf_alloc\<close> will give.\<close>

fun dhcpRecv_all ::
    "dhcp_msg \<Rightarrow> netif4 \<Rightarrow> (u8 list \<times> u8 list option) list \<Rightarrow> dhcps \<Rightarrow> (dhcps \<times> call list) res" where
  "dhcpRecv_all L nif [] s = Inr (s, [])"
| "dhcpRecv_all L nif ((p, rpo) # ms) s =
     rbind (dhcpRecv L nif p rpo s) (\<lambda>(s, calls).
     rbind (dhcpRecv_all L nif ms s) (\<lambda>(s, calls'). Inr (s, calls @ calls')))"

inductive dhcp_session :: "dhcp_msg \<Rightarrow> ip4_macros \<Rightarrow> netif4 \<Rightarrow> dhcps \<Rightarrow> call list \<Rightarrow> bool"
  for L A nif where
  started: "dhcpBuffer s0 = replicate (msg_size L) 0 \<Longrightarrow>
    dhcpServerStartRaw A nif (Some pcb) s0 = (s, calls) \<Longrightarrow> dhcp_session L A nif s []"
| received: "dhcp_session L A nif s es \<Longrightarrow> dhcpRecv L nif p rpo s = Inr (s', calls) \<Longrightarrow>
    dhcp_session L A nif s' (es @ calls)"

lemma dhcp_session_recv_all:
  "dhcp_session L A nif s es \<Longrightarrow> dhcpRecv_all L nif ms s = Inr (s', calls) \<Longrightarrow>
   dhcp_session L A nif s' (es @ calls)"
proof (induction ms arbitrary: s es calls)
  case Nil
  then show ?case by simp
next
  case (Cons m ms)
  obtain p rpo where m: "m = (p, rpo)" by (cases m)
  with Cons.prems(2) obtain s1 c1 c2 where
    "dhcpRecv L nif p rpo s = Inr (s1, c1)" "dhcpRecv_all L nif ms s1 = Inr (s', c2)"
    "calls = c1 @ c2"
    by (auto simp: rbind_eq_Inr_iff)
  moreover from this Cons.prems(1) have "dhcp_session L A nif s1 (es @ c1)"
    by (blast intro: received)
  ultimately show ?case using Cons.IH by fastforce
qed

section \<open>The start of a session\<close>

text \<open>Lease \<open>i\<close> gets the server's address with \<open>i + 10\<close> added to the last octet.\<close>

definition pool_addr :: "ip4 \<Rightarrow> nat \<Rightarrow> ip4" where
  "pool_addr base i = (case base of IP4 a b c d \<Rightarrow> IP4 a b c (d + word_of_nat (i + 10)))"

lemma nth_start_leases:
  assumes "ip4_macros_ok A" and "i < MAX_LEASES"
  shows "leases (fst (dhcpServerStartRaw A nif pcb s)) ! i =
    \<lparr>lease_mac = freeMac, lease_ip = pool_addr (netif_ip4_addr nif) i\<rparr>"
proof (cases "netif_ip4_addr nif")
  case (IP4 a b c d)
  have six: "replicate 6 (0::u8) = freeMac"
    by (simp add: freeMac_def numeral_eq_Suc)
  show ?thesis
    using assms unfolding dhcpServerStartRaw_def six
    by (simp add: IP4 ip4_macros_ok_def Let_def pool_addr_def ac_simps)
qed

lemma length_start_leases [simp]:
  "length (leases (fst (dhcpServerStartRaw A nif pcb s))) = MAX_LEASES"
  by (simp add: dhcpServerStartRaw_def Let_def)

lemma MAX_LEASES_cases: "i < MAX_LEASES \<Longrightarrow> i = 0 \<or> i = 1 \<or> i = 2"
  by (auto simp: MAX_LEASES_def)

lemma pool_addr_inject:
  assumes "i < MAX_LEASES" and "j < MAX_LEASES" and "pool_addr base i = pool_addr base j"
  shows "i = j"
  using MAX_LEASES_cases [OF assms(1)] MAX_LEASES_cases [OF assms(2)] assms(3)
  by (cases base) (auto simp: pool_addr_def)

lemma pool_addr_not_base:
  assumes "i < MAX_LEASES"
  shows "pool_addr base i \<noteq> base"
  using MAX_LEASES_cases [OF assms] by (cases base) (auto simp: pool_addr_def)

lemma start_leases_wf:
  assumes "ip4_macros_ok A"
  shows "leases_wf (leases (fst (dhcpServerStartRaw A nif pcb s)))"
  by (rule leases_wfI) (auto simp: nth_start_leases [OF assms] intro: pool_addr_inject)

lemma start_bindings:
  assumes "ip4_macros_ok A"
  shows "bindings (leases (fst (dhcpServerStartRaw A nif pcb s))) m = None"
  by (auto simp: bindings_None_iff [OF start_leases_wf [OF assms]] nth_start_leases [OF assms])

lemma start_free_slots:
  assumes "ip4_macros_ok A"
  shows "free_slots (leases (fst (dhcpServerStartRaw A nif pcb s))) = {..<MAX_LEASES}"
  by (auto simp: free_slots_def nth_start_leases [OF assms])

section \<open>The invariant of a session\<close>

text \<open>
  The table is well-formed, its addresses are the pool's, every acknowledged client holds
  its address, and the unused buffer is still zero.
\<close>

definition session_inv :: "dhcp_msg \<Rightarrow> netif4 \<Rightarrow> dhcps \<Rightarrow> call list \<Rightarrow> bool" where
  "session_inv L nif s es \<longleftrightarrow>
     leases_wf (leases s) \<and>
     (\<forall>i<MAX_LEASES. lease_ip (leases s ! i) = pool_addr (netif_ip4_addr nif) i) \<and>
     (\<forall>a m. EtharpAddStatic a m \<in> set es \<longrightarrow> is_client m \<longrightarrow> bindings (leases s) m = Some a) \<and>
     (\<forall>a m. EtharpAddStatic a m \<in> set es \<longrightarrow>
        (\<exists>i<MAX_LEASES. a = pool_addr (netif_ip4_addr nif) i)) \<and>
     finite (dom (bindings (leases s))) \<and>
     card (dom (bindings (leases s))) + card (free_slots (leases s)) = MAX_LEASES \<and>
     dhcpBuffer s = replicate (msg_size L) 0"

lemma session_invD:
  assumes "session_inv L nif s es"
  shows "leases_wf (leases s)"
    and "i < MAX_LEASES \<Longrightarrow> lease_ip (leases s ! i) = pool_addr (netif_ip4_addr nif) i"
    and "EtharpAddStatic a m \<in> set es \<Longrightarrow> is_client m \<Longrightarrow> bindings (leases s) m = Some a"
    and "EtharpAddStatic a m \<in> set es \<Longrightarrow> \<exists>i<MAX_LEASES. a = pool_addr (netif_ip4_addr nif) i"
    and "finite (dom (bindings (leases s)))"
    and "card (dom (bindings (leases s))) + card (free_slots (leases s)) = MAX_LEASES"
    and "dhcpBuffer s = replicate (msg_size L) 0"
  using assms unfolding session_inv_def by blast+

lemma allocateAddr_ip:
  assumes "leases_wf ls" and "length mac = 6"
  shows "lease_ip (snd (allocateAddr mac ls) ! i) = lease_ip (ls ! i)"
    and "fst (allocateAddr mac ls) = Some a \<Longrightarrow> \<exists>i<MAX_LEASES. a = lease_ip (ls ! i)"
proof -
  have "lease_ip (snd (allocateAddr mac ls) ! i) = lease_ip (ls ! i) \<and>
    (fst (allocateAddr mac ls) = Some a \<longrightarrow> (\<exists>i<MAX_LEASES. a = lease_ip (ls ! i)))"
    using assms
    by (cases rule: allocateAddr_cases)
      (auto simp: bindings_Some_iff [OF assms(1)] free_slots_def)
  then show "lease_ip (snd (allocateAddr mac ls) ! i) = lease_ip (ls ! i)"
    and "fst (allocateAddr mac ls) = Some a \<Longrightarrow> \<exists>i<MAX_LEASES. a = lease_ip (ls ! i)"
    by blast+
qed

lemma session_inv_start:
  assumes "ip4_macros_ok A" and "dhcpBuffer s0 = replicate (msg_size L) 0"
    and "dhcpServerStartRaw A nif pcb s0 = (s, calls)"
  shows "session_inv L nif s []"
proof -
  have s: "s = fst (dhcpServerStartRaw A nif pcb s0)" using assms(3) by simp
  have buf: "dhcpBuffer s = dhcpBuffer s0"
    unfolding s by (simp add: dhcpServerStartRaw_def Let_def)
  have dom: "dom (bindings (leases s)) = {}"
    unfolding s by (simp add: dom_def start_bindings [OF assms(1)])
  have free: "card (free_slots (leases s)) = MAX_LEASES"
    unfolding s start_free_slots [OF assms(1)] by simp
  show ?thesis
    unfolding session_inv_def
    using start_leases_wf [OF assms(1), of nif pcb s0] nth_start_leases [OF assms(1), of _ nif pcb s0]
    by (simp add: dom free buf assms(2) s [symmetric])
qed

lemma ethar_outcome:
  "EtharpAddStatic x m \<in> set (around (outcome_calls L nif pcb p rpo mac a b o2 out)) \<Longrightarrow>
   out = Ack \<and> x = a \<and> m = mac"
  by (cases out)
    (auto simp: around_def outcome_calls_def no_reply_calls_def split: option.splits)

text \<open>The interface a message arrives on has no influence on the table.\<close>

lemma session_inv_recv:
  assumes ok: "dhcp_msg_ok L" and inv: "session_inv L nif s es"
    and r: "dhcpRecv L nif' p rpo s = Inr (s', calls)"
  shows "session_inv L nif s' (es @ calls)"
  using ok r
proof (cases rule: dhcpRecv_cases)
  case (unknown o2)
  then show ?thesis using inv by (simp add: session_inv_def around_def)
next
  case (handled mac a b out)
  note I = session_invD [OF inv]
  have len: "length mac = 6" using handled(1) by (rule rd_n_length)
  define ls where "ls = leases s'"
  have ls: "ls = leases s \<or> ls = snd (allocateAddr mac (leases s))"
    and same: "dhcpBuffer s' = dhcpBuffer s"
    using handled(6) by (simp_all add: ls_def)
  have wf: "leases_wf ls"
    using ls I(1) lt.invar_alloc [OF I(1) len] by auto
  have keep: "bindings ls n = Some x" if "bindings (leases s) n = Some x" for n x
    using ls that lt.alloc_keeps [OF I(1) len that] by auto
  have ip: "lease_ip (ls ! i) = pool_addr (netif_ip4_addr nif) i" if "i < MAX_LEASES" for i
    using ls I(2) [OF that] allocateAddr_ip(1) [OF I(1) len] by auto
  have cnt: "finite (dom (bindings ls))"
    "card (dom (bindings ls)) + card (free_slots ls) = MAX_LEASES"
    using ls I(5,6) lt.alloc_count [OF I(1) len I(5)] by auto
  have new: "(is_client m \<longrightarrow> bindings ls m = Some x) \<and>
      (\<exists>i<MAX_LEASES. x = pool_addr (netif_ip4_addr nif) i)"
    if "EtharpAddStatic x m \<in> set calls" for x m
  proof -
    from that handled(3) have *: "out = Ack" "x = a" "m = mac"
      by (auto dest: ethar_outcome)
    with handled(5) have al: "fst (allocateAddr mac (leases s)) = Some a" by simp
    then have al': "allocateAddr mac (leases s) = (Some a, snd (allocateAddr mac (leases s)))"
      by (simp add: prod_eq_iff)
    have l: "ls = snd (allocateAddr mac (leases s))" using handled(6) * by (simp add: ls_def)
    have "is_client mac \<longrightarrow> bindings ls mac = Some a"
      using lt.alloc_grants [OF I(1) _ al'] l by simp
    moreover have "\<exists>i<MAX_LEASES. a = pool_addr (netif_ip4_addr nif) i"
      using allocateAddr_ip(2) [OF I(1) len al] I(2) by metis
    ultimately show ?thesis using * by simp
  qed
  show ?thesis
    unfolding session_inv_def ls_def [symmetric]
  proof (intro conjI allI impI)
    fix x m
    assume "EtharpAddStatic x m \<in> set (es @ calls)"
    then consider "EtharpAddStatic x m \<in> set es" | "EtharpAddStatic x m \<in> set calls" by auto
    then show "\<exists>i<MAX_LEASES. x = pool_addr (netif_ip4_addr nif) i"
      by cases (use I(4) new in blast)+
  next
    fix x m
    assume "EtharpAddStatic x m \<in> set (es @ calls)" and c: "is_client m"
    then consider "EtharpAddStatic x m \<in> set es" | "EtharpAddStatic x m \<in> set calls" by auto
    then show "bindings ls m = Some x"
      by cases (use I(3) keep new c in blast)+
  qed (use wf ip cnt same I(7) in simp_all)
qed

lemma dhcp_session_inv:
  assumes "dhcp_msg_ok L" and "ip4_macros_ok A"
  shows "dhcp_session L A nif s es \<Longrightarrow> session_inv L nif s es"
proof (induction rule: dhcp_session.induct)
  case (started s0 pcb s calls)
  then show ?case by (intro session_inv_start [OF assms(2)])
next
  case (received s es p rpo s' calls)
  then show ?case by (intro session_inv_recv [OF assms(1)])
qed

section \<open>Bindings last\<close>

lemma dhcpRecv_keeps:
  assumes ok: "dhcp_msg_ok L" and wf: "leases_wf (leases s)"
    and r: "dhcpRecv L nif p rpo s = Inr (s', calls)"
  shows "leases_wf (leases s')" and "dhcpPcb s' = dhcpPcb s"
    and "bindings (leases s) n = Some x \<Longrightarrow> bindings (leases s') n = Some x"
proof -
  have "leases_wf (leases s') \<and> dhcpPcb s' = dhcpPcb s \<and>
    (bindings (leases s) n = Some x \<longrightarrow> bindings (leases s') n = Some x)"
    using ok r
  proof (cases rule: dhcpRecv_cases)
    case (unknown o2)
    with wf show ?thesis by simp
  next
    case (handled mac a b out)
    have "length mac = 6" using handled(1) by (rule rd_n_length)
    with wf handled(6) show ?thesis
      by (auto intro: lt.invar_alloc lt.alloc_keeps)
  qed
  then show "leases_wf (leases s')" and "dhcpPcb s' = dhcpPcb s"
    and "bindings (leases s) n = Some x \<Longrightarrow> bindings (leases s') n = Some x" by blast+
qed

lemma dhcpRecv_all_keeps:
  assumes ok: "dhcp_msg_ok L"
  shows "leases_wf (leases s) \<Longrightarrow> dhcpRecv_all L nif ms s = Inr (s', calls) \<Longrightarrow>
    leases_wf (leases s') \<and> dhcpPcb s' = dhcpPcb s \<and>
    (bindings (leases s) n = Some x \<longrightarrow> bindings (leases s') n = Some x)"
proof (induction ms arbitrary: s calls)
  case Nil
  then show ?case by simp
next
  case (Cons m ms)
  obtain p rpo where m: "m = (p, rpo)" by (cases m)
  with Cons.prems(2) obtain s1 c1 c2 where
    r: "dhcpRecv L nif p rpo s = Inr (s1, c1)" "dhcpRecv_all L nif ms s1 = Inr (s', c2)"
    by (auto simp: rbind_eq_Inr_iff)
  note k = dhcpRecv_keeps [OF ok Cons.prems(1) r(1)]
  from Cons.IH [OF k(1) r(2)] k(2,3) show ?case by auto
qed

text \<open>A bound client that asks for its address gets it.\<close>

lemma dhcpRecv_bound_ack:
  assumes ok: "dhcp_msg_ok L" and wf: "leases_wf (leases s)" and size: "msg_size L \<le> length rp"
    and mac: "rd_n p (chaddr_off L) 6 = Inr mac" "is_client mac"
    and b: "bindings (leases s) mac = Some a"
    and t: "rd p (options_off L + 2) = Inr DHCPREQUEST"
    and req: "findReqIP p (options_off L) (IP4 0 0 0 0) = Inr a"
  shows "dhcpRecv L nif p (Some rp) s =
    Inr (s, around (outcome_calls L nif (dhcpPcb s) p (Some rp) mac a b2 o2 Ack))"
proof -
  have "allocateAddr mac (leases s) = (Some a, leases s)"
    by (rule lt.alloc_known [OF wf mac(2) b])
  from handleRequest_ack [OF ok size mac(1) this req] show ?thesis
    by (simp add: dhcpRecv_request [OF t] outcome_calls_def)
qed

text \<open>An offer binds the client to the offered address.\<close>

lemma dhcpRecv_offer_binds:
  assumes ok: "dhcp_msg_ok L" and wf: "leases_wf (leases s)"
    and mac: "rd_n p (chaddr_off L) 6 = Inr mac" "is_client mac"
    and r: "dhcpRecv L nif p rpo s = Inr (s', calls)"
    and offer: "Print (OfferSent a) \<in> set calls \<or> Print (AckSent a) \<in> set calls"
  shows "bindings (leases s') mac = Some a"
  using ok r
proof (cases rule: dhcpRecv_cases)
  case (unknown o2)
  with offer show ?thesis by (simp add: around_def)
next
  case (handled mac' c b out)
  have mac': "mac' = mac" using handled(1) mac(1) by simp
  have "c = a \<and> out \<noteq> Full"
    using offer unfolding handled(3)
    by (cases out) (auto simp: around_def outcome_calls_def no_reply_calls_def split: option.splits)
  with handled(5) have al: "allocateAddr mac (leases s) = (Some a, snd (allocateAddr mac (leases s)))"
    by (simp add: mac' prod_eq_iff)
  from lt.alloc_grants [OF wf mac(2) al] handled(6) \<open>c = a \<and> out \<noteq> Full\<close> show ?thesis
    by (simp add: mac')
qed

text \<open>Nothing a client sends frees an entry or moves one: a full table stays as it is.\<close>

lemma dhcpRecv_full:
  assumes ok: "dhcp_msg_ok L" and wf: "leases_wf (leases s)" and full: "free_slots (leases s) = {}"
    and r: "dhcpRecv L nif p rpo s = Inr (s', calls)"
  shows "s' = s"
  using ok r
proof (cases rule: dhcpRecv_cases)
  case (handled mac a b out)
  have "length mac = 6" using handled(1) by (rule rd_n_length)
  with wf have "snd (allocateAddr mac (leases s)) = leases s"
    by (cases rule: allocateAddr_cases) (simp_all add: full)
  with handled(6) show ?thesis by simp
qed

lemma dhcpRecv_all_full:
  assumes ok: "dhcp_msg_ok L" and wf: "leases_wf (leases s)" and full: "free_slots (leases s) = {}"
  shows "dhcpRecv_all L nif ms s = Inr (s', calls) \<Longrightarrow> s' = s"
proof (induction ms arbitrary: calls)
  case (Cons m ms)
  obtain p rpo where m: "m = (p, rpo)" by (cases m)
  with Cons.prems obtain s1 c1 c2 where
    r: "dhcpRecv L nif p rpo s = Inr (s1, c1)" "dhcpRecv_all L nif ms s1 = Inr (s', c2)"
    by (auto simp: rbind_eq_Inr_iff)
  from dhcpRecv_full [OF ok wf full r(1)] r(2) show ?case by (auto intro: Cons.IH)
qed simp

section \<open>Discipline of a handler's calls\<close>

text \<open>
  How often a buffer is allocated and freed, and whether bytes of a buffer are read after
  it was freed.
\<close>

definition allocs :: "call list \<Rightarrow> nat" where
  "allocs calls = length (filter (\<lambda>c. case c of PbufAlloc _ \<Rightarrow> True | _ \<Rightarrow> False) calls)"

definition frees :: "pbuf_name \<Rightarrow> call list \<Rightarrow> nat" where
  "frees b calls = length (filter (\<lambda>c. c = PbufFree b) calls)"

fun reads_freed :: "pbuf_name list \<Rightarrow> call list \<Rightarrow> bool" where
  "reads_freed fr [] = False"
| "reads_freed fr (PbufFree b # cs) = reads_freed (b # fr) cs"
| "reads_freed fr (ReadPbuf b _ _ # cs) = (b \<in> set fr \<or> reads_freed fr cs)"
| "reads_freed fr (_ # cs) = reads_freed fr cs"

lemma outcome_discipline:
  "allocs (around (outcome_calls L nif pcb p rpo mac a b o2 out)) =
   frees Response (around (outcome_calls L nif pcb p rpo mac a b o2 out))"
  "frees Request (around (outcome_calls L nif pcb p rpo mac a b o2 out)) = 1"
  "last (around (outcome_calls L nif pcb p rpo mac a b o2 out)) = PbufFree Request"
  "reads_freed [] (around (outcome_calls L nif pcb p rpo mac a b o2 out)) \<longleftrightarrow>
   out = Offer \<or> out = Ack"
  by (cases out; simp add: around_def outcome_calls_def no_reply_calls_def allocs_def frees_def
      split: option.splits)+

lemma outcome_prints:
  "(\<exists>x. Print (OfferSent x) \<in> set (around (outcome_calls L nif pcb p rpo mac a b o2 out))) \<longleftrightarrow>
   out = Offer"
  "(\<exists>x. Print (AckSent x) \<in> set (around (outcome_calls L nif pcb p rpo mac a b o2 out))) \<longleftrightarrow>
   out = Ack"
  by (cases out; auto simp: around_def outcome_calls_def no_reply_calls_def split: option.splits)+

end
