(* ===== verification/Dhcp_Properties.thy ===== *)
theory Dhcp_Properties
  imports Dhcp_Session
begin

text \<open>
  The properties of the DHCP server, each with a witness on a message laid out as in
  RFC 2131, a server at 192.168.1.1 and its three leases.
\<close>

section \<open>Concrete inputs for the witnesses\<close>

definition rfc_msg :: dhcp_msg where
  "rfc_msg = \<lparr>op_off = 0, yiaddr_off = 16, chaddr_off = 28, cookie_off = 236,
     options_off = 240, options_len = 68, msg_size = 308, cookie_bytes = [99, 130, 83, 99]\<rparr>"

definition octet_macros :: ip4_macros where
  "octet_macros =
     \<lparr>ip4_addr1 = (\<lambda>ip. case ip of IP4 a b c d \<Rightarrow> a), ip4_addr2 = (\<lambda>ip. case ip of IP4 a b c d \<Rightarrow> b),
      ip4_addr3 = (\<lambda>ip. case ip of IP4 a b c d \<Rightarrow> c), ip4_addr4 = (\<lambda>ip. case ip of IP4 a b c d \<Rightarrow> d),
      IP4_ADDR = (\<lambda>a b c d. IP4 (word_of_nat a) (word_of_nat b) (word_of_nat c) (word_of_nat d))\<rparr>"

definition ex_nif :: netif4 where
  "ex_nif = \<lparr>netif_ip4_addr = IP4 192 168 1 1, netif_ip4_netmask = IP4 255 255 255 0\<rparr>"

definition ex_packet :: "u8 list \<Rightarrow> (u8 \<times> u8 list) list \<Rightarrow> u8 list" where
  "ex_packet mac os = replicate 28 0 @ mac @ replicate 206 0 @ opts_bytes os"

definition ex_buffer :: "u8 list" where
  "ex_buffer = replicate 308 0"

definition mac_a :: "u8 list" where "mac_a = [2, 0, 0, 0, 0, 10]"
definition mac_b :: "u8 list" where "mac_b = [2, 0, 0, 0, 0, 11]"

definition ex_discover :: "u8 list \<Rightarrow> u8 list" where
  "ex_discover mac = ex_packet mac [(OPT_MSGTYPE, [DHCPDISCOVER])]"

definition ex_request :: "u8 list \<Rightarrow> ip4 \<Rightarrow> u8 list" where
  "ex_request mac ip = ex_packet mac [(OPT_MSGTYPE, [DHCPREQUEST]), (OPT_REQ_IP, ip4_bytes ip)]"

lemma rfc_msg_simps [simp]:
  "op_off rfc_msg = 0" "yiaddr_off rfc_msg = 16" "chaddr_off rfc_msg = 28"
  "cookie_off rfc_msg = 236" "options_off rfc_msg = 240" "options_len rfc_msg = 68"
  "msg_size rfc_msg = 308" "length (cookie_bytes rfc_msg) = 4"
  by (simp_all add: rfc_msg_def)

lemma rfc_msg_ok [simp]: "dhcp_msg_ok rfc_msg"
  by (simp add: dhcp_msg_ok_def)

lemma octet_macros_ok [simp]: "ip4_macros_ok octet_macros"
  by (simp add: ip4_macros_ok_def octet_macros_def)

lemma length_ex_buffer [simp]: "length ex_buffer = 308"
  by (simp add: ex_buffer_def)

lemma length_macs [simp]: "length mac_a = 6" "length mac_b = 6"
  by (simp_all add: mac_a_def mac_b_def)

lemma clients [simp]: "is_client mac_a" "is_client mac_b" "mac_a \<noteq> mac_b"
  by (simp_all add: is_client_def freeMac_def mac_a_def mac_b_def)

lemma ex_packet_chaddr:
  "length mac = 6 \<Longrightarrow> rd_n (ex_packet mac os) (chaddr_off rfc_msg) 6 = Inr mac"
  by (simp add: rd_n_def ex_packet_def)

lemma ex_packet_type:
  "length mac = 6 \<Longrightarrow> rd (ex_packet mac ((c, [t]) # os)) (options_off rfc_msg + 2) = Inr t"
  by (simp add: rd_def ex_packet_def opts_bytes_def nth_append)

lemma ex_packet_req:
  assumes "length mac = 6" and "\<forall>x \<in> set os. opt_wf x"
  shows "findReqIP (ex_packet mac os) (options_off rfc_msg) a = Inr (requested os a)"
  using findReqIP_finds [OF assms(2), of "ex_packet mac os" "replicate 28 0 @ mac @ replicate 206 0" "[]"]
    assms(1)
  by (simp add: ex_packet_def opts_bytes_def)

lemma ex_discover_facts:
  assumes "length mac = 6"
  shows "rd_n (ex_discover mac) (chaddr_off rfc_msg) 6 = Inr mac"
    and "rd (ex_discover mac) (options_off rfc_msg + 2) = Inr DHCPDISCOVER"
  using ex_packet_chaddr [OF assms] ex_packet_type [OF assms] unfolding ex_discover_def by blast+

lemma ex_request_facts:
  assumes "length mac = 6"
  shows "rd_n (ex_request mac ip) (chaddr_off rfc_msg) 6 = Inr mac"
    and "rd (ex_request mac ip) (options_off rfc_msg + 2) = Inr DHCPREQUEST"
    and "findReqIP (ex_request mac ip) (options_off rfc_msg) (IP4 0 0 0 0) = Inr ip"
proof -
  show "rd_n (ex_request mac ip) (chaddr_off rfc_msg) 6 = Inr mac"
    and "rd (ex_request mac ip) (options_off rfc_msg + 2) = Inr DHCPREQUEST"
    using ex_packet_chaddr [OF assms] ex_packet_type [OF assms] unfolding ex_request_def by blast+
  have "\<forall>x \<in> set [(OPT_MSGTYPE, [DHCPREQUEST]), (OPT_REQ_IP, ip4_bytes ip)]. opt_wf x"
    by (simp add: opt_wf_def opt_codes)
  from ex_packet_req [OF assms this, of "IP4 0 0 0 0"]
  show "findReqIP (ex_request mac ip) (options_off rfc_msg) (IP4 0 0 0 0) = Inr ip"
    by (simp add: ex_request_def opt_codes)
qed

text \<open>The state after the start, and the tables after one and two clients.\<close>

definition ex_table :: "u8 list \<Rightarrow> u8 list \<Rightarrow> u8 list \<Rightarrow> lease list" where
  "ex_table m0 m1 m2 =
     [\<lparr>lease_mac = m0, lease_ip = IP4 192 168 1 11\<rparr>,
      \<lparr>lease_mac = m1, lease_ip = IP4 192 168 1 12\<rparr>,
      \<lparr>lease_mac = m2, lease_ip = IP4 192 168 1 13\<rparr>]"

definition ex_state :: "u8 list \<Rightarrow> u8 list \<Rightarrow> u8 list \<Rightarrow> dhcps" where
  "ex_state m0 m1 m2 =
     \<lparr>dhcpPcb = Some 1, leases = ex_table m0 m1 m2, dhcpBuffer = replicate 308 0\<rparr>"

lemma find_upt_3: "find P [0..<MAX_LEASES] = (if P 0 then Some 0 else if P 1 then Some 1
    else if P 2 then Some 2 else None)"
  by (simp add: MAX_LEASES_def upt_rec numeral_eq_Suc)

lemma ex_alloc:
  "allocateAddr mac_a (ex_table freeMac freeMac freeMac) =
     (Some (IP4 192 168 1 11), ex_table mac_a freeMac freeMac)"
  "allocateAddr mac_b (ex_table mac_a freeMac freeMac) =
     (Some (IP4 192 168 1 12), ex_table mac_a mac_b freeMac)"
  by (simp_all add: allocateAddr_def find_upt_3 ex_table_def freeMac_def mac_a_def mac_b_def)

section \<open>A session with two clients\<close>

lemma ex_start:
  "dhcpServerStartRaw octet_macros ex_nif (Some 1) (ex_state [] [] []) =
     (ex_state freeMac freeMac freeMac,
      [UdpNew, IpSetBroadcast (Some 1), UdpBind (Some 1) DhcpServerPort, UdpRecv (Some 1) ex_nif])"
  by (simp add: dhcpServerStartRaw_def Let_def ex_state_def ex_table_def ex_nif_def
      octet_macros_def MAX_LEASES_def upt_rec numeral_eq_Suc freeMac_def)

lemma ex_session_start: "dhcp_session rfc_msg octet_macros ex_nif (ex_state freeMac freeMac freeMac) []"
  by (rule dhcp_session.started [OF _ ex_start]) (simp add: ex_state_def)

lemma ex_recv_request:
  assumes "length mac = 6" and "allocateAddr mac (ex_table m0 m1 m2) = (Some a, ls)"
  shows "dhcpRecv rfc_msg ex_nif (ex_request mac a) (Some ex_buffer) (ex_state m0 m1 m2) =
    Inr (ex_state m0 m1 m2\<lparr>leases := ls\<rparr>,
      around (outcome_calls rfc_msg ex_nif (Some 1) (ex_request mac a) (Some ex_buffer) mac a a 0 Ack))"
proof -
  note f = ex_request_facts [OF assms(1), of a]
  have "allocateAddr mac (leases (ex_state m0 m1 m2)) = (Some a, ls)"
    using assms(2) by (simp add: ex_state_def)
  from handleRequest_ack [OF rfc_msg_ok _ f(1) this f(3), of ex_buffer]
  show ?thesis
    by (simp add: dhcpRecv_request [OF f(2)] outcome_calls_def ex_state_def)
qed

definition ex_calls_a :: "call list" where
  "ex_calls_a = around (outcome_calls rfc_msg ex_nif (Some 1) (ex_request mac_a (IP4 192 168 1 11))
     (Some ex_buffer) mac_a (IP4 192 168 1 11) (IP4 192 168 1 11) 0 Ack)"

definition ex_calls_b :: "call list" where
  "ex_calls_b = around (outcome_calls rfc_msg ex_nif (Some 1) (ex_request mac_b (IP4 192 168 1 12))
     (Some ex_buffer) mac_b (IP4 192 168 1 12) (IP4 192 168 1 12) 0 Ack)"

lemma ex_recv_a:
  "dhcpRecv rfc_msg ex_nif (ex_request mac_a (IP4 192 168 1 11)) (Some ex_buffer)
     (ex_state freeMac freeMac freeMac) = Inr (ex_state mac_a freeMac freeMac, ex_calls_a)"
  using ex_recv_request [OF _ ex_alloc(1)] by (simp add: ex_state_def ex_calls_a_def)

lemma ex_recv_b:
  "dhcpRecv rfc_msg ex_nif (ex_request mac_b (IP4 192 168 1 12)) (Some ex_buffer)
     (ex_state mac_a freeMac freeMac) = Inr (ex_state mac_a mac_b freeMac, ex_calls_b)"
  using ex_recv_request [OF _ ex_alloc(2)] by (simp add: ex_state_def ex_calls_b_def)

lemma ex_calls_ethar [simp]:
  "EtharpAddStatic (IP4 192 168 1 11) mac_a \<in> set ex_calls_a"
  "EtharpAddStatic (IP4 192 168 1 12) mac_b \<in> set ex_calls_b"
  by (simp_all add: ex_calls_a_def ex_calls_b_def around_def outcome_calls_def)

lemma ex_session_two:
  "dhcp_session rfc_msg octet_macros ex_nif (ex_state mac_a mac_b freeMac) (ex_calls_a @ ex_calls_b)"
  using dhcp_session.received [OF dhcp_session.received [OF ex_session_start ex_recv_a] ex_recv_b]
  by simp

section \<open>Addresses and clients\<close>

text \<open>Within a session, an address is acknowledged to one client and a client is
  acknowledged one address: two acknowledgements (the static ARP entries the server makes)
  name the same client exactly when they name the same address.\<close>

theorem ack_exclusive:
  assumes "dhcp_msg_ok L" and "ip4_macros_ok A" and "dhcp_session L A nif s es"
    and "EtharpAddStatic a m \<in> set es" and "EtharpAddStatic b n \<in> set es"
    and "is_client m" and "is_client n"
  shows "m = n \<longleftrightarrow> a = b"
proof -
  note I = session_invD [OF dhcp_session_inv [OF assms(1-3)]]
  have "bindings (leases s) m = Some a" "bindings (leases s) n = Some b"
    using I(3) assms(4-7) by blast+
  with lt.binds_inj [OF I(1)] show ?thesis by auto
qed

theorem ack_exclusive_witness:
  "EtharpAddStatic (IP4 192 168 1 11) mac_a \<in> set (ex_calls_a @ ex_calls_b) \<and>
   EtharpAddStatic (IP4 192 168 1 12) mac_b \<in> set (ex_calls_a @ ex_calls_b) \<and>
   (mac_a = mac_b \<longleftrightarrow> IP4 192 168 1 11 = IP4 192 168 1 12)"
  using ack_exclusive [OF rfc_msg_ok octet_macros_ok ex_session_two,
      of "IP4 192 168 1 11" mac_a "IP4 192 168 1 12" mac_b] by simp

text \<open>C13: An address that a client, with a hardware address other than all zeros, was offered
  (or acknowledged) is acknowledged to it when it asks for it and lwIP has a buffer for the
  reply that holds a DHCP message, whatever other messages the server handled in between.\<close>

theorem offer_then_ack:
  assumes ok: "dhcp_msg_ok L" and "ip4_macros_ok A" and "dhcp_session L A nif s es"
    and "rd_n p (chaddr_off L) 6 = Inr mac" and c: "is_client mac"
    and r1: "dhcpRecv L nif p rpo s = Inr (s1, calls)"
    and "Print (OfferSent a) \<in> set calls \<or> Print (AckSent a) \<in> set calls"
    and r2: "dhcpRecv_all L nif ms s1 = Inr (s2, calls2)"
    and q: "rd_n q (chaddr_off L) 6 = Inr mac" "rd q (options_off L + 2) = Inr DHCPREQUEST"
      "findReqIP q (options_off L) (IP4 0 0 0 0) = Inr a"
    and size: "msg_size L \<le> length rp"
  shows "dhcpRecv L nif q (Some rp) s2 =
    Inr (s2, [Print RequestReceived, PbufAlloc (msg_size L), EtharpAddStatic a mac,
      UdpSendToIf (dhcpPcb s) (reply L q rp (Some a) (opts_bytes (ack_opts nif))) (Unicast a)
        DhcpClientPort,
      PbufFree Response, ReadPbuf Response (chaddr_off L) 6, Print (AckSent a), PbufFree Request])"
proof -
  have wf: "leases_wf (leases s)"
    by (rule session_invD(1) [OF dhcp_session_inv [OF assms(1-3)]])
  note k = dhcpRecv_keeps [OF ok wf r1]
  have "bindings (leases s1) mac = Some a"
    by (rule dhcpRecv_offer_binds [OF ok wf assms(4) c r1 assms(7)])
  with dhcpRecv_all_keeps [OF ok k(1) r2, of mac a]
  have "leases_wf (leases s2)" "bindings (leases s2) mac = Some a" "dhcpPcb s2 = dhcpPcb s"
    using k(2) by simp_all
  with dhcpRecv_bound_ack [OF ok _ size q(1) c _ q(2,3), of s2] show ?thesis
    by (simp add: around_def outcome_calls_def)
qed

lemma ex_recv_discover:
  "dhcpRecv rfc_msg ex_nif (ex_discover mac_a) (Some ex_buffer) (ex_state freeMac freeMac freeMac) =
   Inr (ex_state mac_a freeMac freeMac,
     around (outcome_calls rfc_msg ex_nif (Some 1) (ex_discover mac_a) (Some ex_buffer) mac_a
       (IP4 192 168 1 11) (IP4 192 168 1 11) 0 Offer))"
proof -
  note f = ex_discover_facts [OF length_macs(1)]
  have "allocateAddr mac_a (leases (ex_state freeMac freeMac freeMac)) =
      (Some (IP4 192 168 1 11), ex_table mac_a freeMac freeMac)"
    using ex_alloc(1) by (simp add: ex_state_def)
  from handleDiscover_offer [OF rfc_msg_ok _ f(1) this, of ex_buffer]
  show ?thesis
    by (simp add: dhcpRecv_discover [OF f(2)] outcome_calls_def ex_state_def)
qed

theorem offer_then_ack_witness:
  "dhcpRecv rfc_msg ex_nif (ex_request mac_a (IP4 192 168 1 11)) (Some ex_buffer)
     (ex_state mac_a mac_b freeMac) =
   Inr (ex_state mac_a mac_b freeMac,
     [Print RequestReceived, PbufAlloc 308, EtharpAddStatic (IP4 192 168 1 11) mac_a,
      UdpSendToIf (Some 1) (reply rfc_msg (ex_request mac_a (IP4 192 168 1 11)) ex_buffer
        (Some (IP4 192 168 1 11)) (opts_bytes (ack_opts ex_nif))) (Unicast (IP4 192 168 1 11))
        DhcpClientPort,
      PbufFree Response, ReadPbuf Response 28 6, Print (AckSent (IP4 192 168 1 11)),
      PbufFree Request])"
proof -
  note d = ex_discover_facts [OF length_macs(1)] and q = ex_request_facts [OF length_macs(1)]
  have "dhcpRecv_all rfc_msg ex_nif [(ex_request mac_b (IP4 192 168 1 12), Some ex_buffer)]
      (ex_state mac_a freeMac freeMac) = Inr (ex_state mac_a mac_b freeMac, ex_calls_b)"
    by (simp add: ex_recv_b)
  from offer_then_ack [OF rfc_msg_ok octet_macros_ok ex_session_start d(1) clients(1)
      ex_recv_discover _ this q(1,2,3), where rp = ex_buffer]
  show ?thesis
    by (simp add: around_def outcome_calls_def ex_state_def)
qed

text \<open>Every acknowledged address is one of the three addresses after the server's own
  (last octet plus 10, 11 or 12, modulo 256), and never the server's own.\<close>

theorem ack_address_in_pool:
  assumes "dhcp_msg_ok L" and "ip4_macros_ok A" and "dhcp_session L A nif s es"
    and "EtharpAddStatic a m \<in> set es" and "netif_ip4_addr nif = IP4 w x y z"
  shows "a \<in> {IP4 w x y (z + 10), IP4 w x y (z + 11), IP4 w x y (z + 12)} \<and>
    a \<noteq> netif_ip4_addr nif"
proof -
  from session_invD(4) [OF dhcp_session_inv [OF assms(1-3)] assms(4)]
  obtain i where i: "i < MAX_LEASES" and a: "a = pool_addr (netif_ip4_addr nif) i" by blast
  have "a \<in> {IP4 w x y (z + 10), IP4 w x y (z + 11), IP4 w x y (z + 12)}"
    using MAX_LEASES_cases [OF i] a assms(5) by (auto simp: pool_addr_def)
  with pool_addr_not_base [OF i] a show ?thesis by simp
qed

theorem ack_address_in_pool_witness:
  "IP4 192 168 1 12 \<in> {IP4 192 168 1 (1 + 10), IP4 192 168 1 (1 + 11), IP4 192 168 1 (1 + 12)} \<and>
   IP4 192 168 1 12 \<noteq> netif_ip4_addr ex_nif"
  using ack_address_in_pool [OF rfc_msg_ok octet_macros_ok ex_session_two,
      of "IP4 192 168 1 12" mac_b 192 168 1 1] by (simp add: ex_nif_def)

text \<open>In one session at most \<open>MAX_LEASES\<close> different clients are ever acknowledged an
  address.\<close>

theorem ack_capacity:
  assumes "dhcp_msg_ok L" and "ip4_macros_ok A" and "dhcp_session L A nif s es"
  shows "card {m. is_client m \<and> (\<exists>a. EtharpAddStatic a m \<in> set es)} \<le> MAX_LEASES"
proof -
  note I = session_invD [OF dhcp_session_inv [OF assms]]
  have "{m. is_client m \<and> (\<exists>a. EtharpAddStatic a m \<in> set es)} \<subseteq> dom (bindings (leases s))"
    using I(3) by blast
  then have "card {m. is_client m \<and> (\<exists>a. EtharpAddStatic a m \<in> set es)} \<le>
      card (dom (bindings (leases s)))"
    by (rule card_mono [OF I(5)])
  also have "\<dots> \<le> MAX_LEASES" using I(6) by simp
  finally show ?thesis .
qed

theorem ack_capacity_witness:
  "card {m. is_client m \<and> (\<exists>a. EtharpAddStatic a m \<in> set (ex_calls_a @ ex_calls_b))} \<le> 3"
  using ack_capacity [OF rfc_msg_ok octet_macros_ok ex_session_two] by (simp add: MAX_LEASES_def)

text \<open>C15: a lease is never given back. Once \<open>MAX_LEASES\<close> clients were acknowledged an
  address, then whatever arrives (their release and decline messages included) a DISCOVER or
  REQUEST of any other client is answered with nothing but the message that no address is
  left, although the acknowledgements grant an hour.\<close>

theorem leases_last_forever:
  assumes ok: "dhcp_msg_ok L" and "ip4_macros_ok A" and "dhcp_session L A nif s es"
    and full: "card {m. is_client m \<and> (\<exists>a. EtharpAddStatic a m \<in> set es)} = MAX_LEASES"
    and new: "is_client mac" "\<forall>a. EtharpAddStatic a mac \<notin> set es"
    and r: "dhcpRecv_all L nif ms s = Inr (s2, calls)"
    and q: "rd_n q (chaddr_off L) 6 = Inr mac" "rd q (options_off L + 2) = Inr t"
      "t = DHCPDISCOVER \<or> t = DHCPREQUEST"
  shows "dhcpRecv L nif q rpo s2 =
    Inr (s, [Print RequestReceived, Print NoFreeAddresses, PbufFree Request])"
proof -
  note I = session_invD [OF dhcp_session_inv [OF assms(1-3)]]
  have sub: "{m. is_client m \<and> (\<exists>a. EtharpAddStatic a m \<in> set es)} \<subseteq> dom (bindings (leases s))"
    using I(3) by blast
  have "card (dom (bindings (leases s))) = MAX_LEASES" and "card (free_slots (leases s)) = 0"
    using card_mono [OF I(5) sub] full I(6) by linarith+
  then have none: "free_slots (leases s) = {}"
    and "dom (bindings (leases s)) = {m. is_client m \<and> (\<exists>a. EtharpAddStatic a m \<in> set es)}"
    using card_subset_eq [OF I(5) sub] full by simp_all
  then have "bindings (leases s) mac = None" using new by (auto simp: dom_def)
  then have al: "allocateAddr mac (leases s) = (None, leases s)"
    using lt.alloc_full [OF I(1) new(1)] none by simp
  have "s2 = s" by (rule dhcpRecv_all_full [OF ok I(1) none r])
  with q handleDiscover_full [OF q(1) al] handleRequest_full [OF q(1) al] show ?thesis
    by (auto simp: dhcpRecv_discover dhcpRecv_request around_def)
qed

definition mac_c :: "u8 list" where "mac_c = [2, 0, 0, 0, 0, 12]"
definition mac_d :: "u8 list" where "mac_d = [2, 0, 0, 0, 0, 13]"

lemma more_clients [simp]:
  "is_client mac_c" "is_client mac_d" "length mac_c = 6" "length mac_d = 6"
  "mac_a \<noteq> mac_c" "mac_b \<noteq> mac_c" "mac_d \<noteq> mac_a" "mac_d \<noteq> mac_b" "mac_d \<noteq> mac_c"
  by (simp_all add: is_client_def freeMac_def mac_a_def mac_b_def mac_c_def mac_d_def)

definition ex_calls_c :: "call list" where
  "ex_calls_c = around (outcome_calls rfc_msg ex_nif (Some 1) (ex_request mac_c (IP4 192 168 1 13))
     (Some ex_buffer) mac_c (IP4 192 168 1 13) (IP4 192 168 1 13) 0 Ack)"

lemma ex_recv_c:
  "dhcpRecv rfc_msg ex_nif (ex_request mac_c (IP4 192 168 1 13)) (Some ex_buffer)
     (ex_state mac_a mac_b freeMac) = Inr (ex_state mac_a mac_b mac_c, ex_calls_c)"
proof -
  have "allocateAddr mac_c (ex_table mac_a mac_b freeMac) =
      (Some (IP4 192 168 1 13), ex_table mac_a mac_b mac_c)"
    by (simp add: allocateAddr_def find_upt_3 ex_table_def freeMac_def mac_a_def mac_b_def
        mac_c_def)
  from ex_recv_request [OF _ this] show ?thesis by (simp add: ex_state_def ex_calls_c_def)
qed

lemma ex_session_three:
  "dhcp_session rfc_msg octet_macros ex_nif (ex_state mac_a mac_b mac_c)
     ((ex_calls_a @ ex_calls_b) @ ex_calls_c)"
  by (rule dhcp_session.received [OF ex_session_two ex_recv_c])

lemma ex_acks_three:
  "EtharpAddStatic a m \<in> set ((ex_calls_a @ ex_calls_b) @ ex_calls_c) \<longleftrightarrow>
     m = mac_a \<and> a = IP4 192 168 1 11 \<or> m = mac_b \<and> a = IP4 192 168 1 12 \<or>
     m = mac_c \<and> a = IP4 192 168 1 13"
  by (auto simp: ex_calls_a_def ex_calls_b_def ex_calls_c_def around_def outcome_calls_def)

text \<open>A client that releases its address.\<close>

definition ex_release :: "u8 list \<Rightarrow> u8 list" where
  "ex_release mac = ex_packet mac [(OPT_MSGTYPE, [DHCPRELEASE])]"

lemma ex_recv_release:
  "dhcpRecv_all rfc_msg ex_nif [(ex_release mac_a, None)] (ex_state mac_a mac_b mac_c) =
   Inr (ex_state mac_a mac_b mac_c, around [Print (UnknownOption 0)])"
  using dhcpRecv_other [OF ex_packet_type [OF length_macs(1), of OPT_MSGTYPE DHCPRELEASE "[]"],
      where nif = ex_nif and rpo = None and s = "ex_state mac_a mac_b mac_c"]
  by (simp add: ex_release_def msg_types ex_state_def rd_def)

theorem leases_last_forever_witness:
  "dhcpRecv rfc_msg ex_nif (ex_discover mac_d) (Some ex_buffer) (ex_state mac_a mac_b mac_c) =
   Inr (ex_state mac_a mac_b mac_c,
     [Print RequestReceived, Print NoFreeAddresses, PbufFree Request])"
proof -
  have "{m. is_client m \<and> (\<exists>a. EtharpAddStatic a m \<in> set ((ex_calls_a @ ex_calls_b) @ ex_calls_c))} =
      {mac_a, mac_b, mac_c}"
    unfolding ex_acks_three by auto
  then have full: "card {m. is_client m \<and>
      (\<exists>a. EtharpAddStatic a m \<in> set ((ex_calls_a @ ex_calls_b) @ ex_calls_c))} = MAX_LEASES"
    by (simp add: MAX_LEASES_def)
  have new: "\<forall>a. EtharpAddStatic a mac_d \<notin> set ((ex_calls_a @ ex_calls_b) @ ex_calls_c)"
    unfolding ex_acks_three by simp
  note d = ex_discover_facts [OF more_clients(4)]
  from leases_last_forever [OF rfc_msg_ok octet_macros_ok ex_session_three full
      more_clients(2) new ex_recv_release d disjI1 [OF refl]]
  show ?thesis .
qed

section \<open>Replies\<close>

lemma reply_fields:
  assumes ok: "dhcp_msg_ok L" and size: "msg_size L \<le> length rp" and olen: "length bs \<le> options_len L"
    and q: "q = reply L p rp yi bs"
  shows "q ! op_off L = 2" "rd_n q (cookie_off L) 4 = Inr (cookie_bytes L)"
    "rd_n q (options_off L) (length bs) = Inr bs"
    "op_off L < i \<Longrightarrow> i < options_off L \<Longrightarrow> i < length p \<Longrightarrow>
       \<not> (yiaddr_off L \<le> i \<and> i < yiaddr_off L + 4) \<Longrightarrow>
       \<not> (cookie_off L \<le> i \<and> i < cookie_off L + 4) \<Longrightarrow> q ! i = p ! i"
proof -
  note L = dhcp_msg_okD [OF ok]
  have byte: "q ! i = reply_byte L p rp yi bs i" if "i < msg_size L" for i
    using that size by (simp add: q nth_reply)
  have lq: "length q = length rp" by (simp add: q)
  show "q ! op_off L = 2"
    using L byte [of "op_off L"] by (simp add: reply_byte_def)
  show "rd_n q (cookie_off L) 4 = Inr (cookie_bytes L)"
    by (rule rd_n_eqI) (use L size lq in \<open>auto simp: byte reply_byte_def\<close>)
  show "rd_n q (options_off L) (length bs) = Inr bs"
    by (rule rd_n_eqI) (use L size lq olen in \<open>auto simp: byte reply_byte_def\<close>)
  show "op_off L < i \<Longrightarrow> i < options_off L \<Longrightarrow> i < length p \<Longrightarrow>
       \<not> (yiaddr_off L \<le> i \<and> i < yiaddr_off L + 4) \<Longrightarrow>
       \<not> (cookie_off L \<le> i \<and> i < cookie_off L + 4) \<Longrightarrow> q ! i = p ! i"
    using L byte [of i] by (auto simp: reply_byte_def)
qed

text \<open>A reply is only sent from a buffer that holds the whole message.\<close>

lemma reply_buffer_size:
  assumes "dhcpRecv L nif p rpo s = Inr (s', calls)" and "UdpSendToIf pcb q dst pt \<in> set calls"
    and mac: "rd_n p (chaddr_off L) 6 = Inr mac" and a: "fst (allocateAddr mac (leases s)) = Some a"
  shows "msg_size L \<le> length (the rpo)"
proof (rule ccontr)
  assume "\<not> msg_size L \<le> length (the rpo)"
  then have u: "\<not> usable L rpo" by (cases rpo) (simp_all add: usable_def)
  have al: "allocateAddr mac (leases s) = (Some a, snd (allocateAddr mac (leases s)))"
    using a by (simp add: prod_eq_iff)
  from assms(1,2) u show False
    by (auto simp: dhcpRecv_def rbind_eq_Inr_iff no_reply_calls_def
        handleDiscover_no_reply [OF mac al u] handleRequest_no_reply [OF mac al u]
        split: if_splits option.splits)
qed

text \<open>C25: every reply goes from the server's socket to the client port and is a well-formed
  answer to its request: operation 2, the DHCP cookie, one of the three option lists, the
  client's own address in an offer or an acknowledgement, and the request's bytes (the
  transaction id among them) in every other field.\<close>

theorem reply_wellformed:
  assumes ok: "dhcp_msg_ok L" and "dhcpRecv L nif p rpo s = Inr (s', calls)"
    and "UdpSendToIf pcb q dst pt \<in> set calls"
  shows "pcb = dhcpPcb s \<and> pt = DhcpClientPort \<and> q ! op_off L = 2 \<and>
    rd_n q (cookie_off L) 4 = Inr (cookie_bytes L) \<and>
    (\<exists>opts yi. (opts, yi) \<in> {(offer_opts nif, True), (ack_opts nif, True), (nak_opts nif, False)} \<and>
       rd_n q (options_off L) (length (opts_bytes opts)) = Inr (opts_bytes opts) \<and>
       (yi \<longrightarrow> (\<exists>mac a. rd_n p (chaddr_off L) 6 = Inr mac \<and>
          fst (allocateAddr mac (leases s)) = Some a \<and>
          rd_n q (yiaddr_off L) 4 = Inr (ip4_bytes a)))) \<and>
    (\<forall>i. op_off L < i \<and> i < options_off L \<and> i < length p \<and>
       \<not> (yiaddr_off L \<le> i \<and> i < yiaddr_off L + 4) \<and>
       \<not> (cookie_off L \<le> i \<and> i < cookie_off L + 4) \<longrightarrow> q ! i = p ! i)"
  using ok assms(2)
proof (cases rule: dhcpRecv_cases)
  case (unknown o2)
  with assms(3) show ?thesis by (simp add: around_def)
next
  case (handled mac a b out)
  have out: "out = Offer \<or> out = Ack \<or> out = Nak" and pcb: "pcb = dhcpPcb s" "pt = DhcpClientPort"
    using assms(3) unfolding handled(3)
    by (cases out; auto simp: around_def outcome_calls_def no_reply_calls_def split: option.splits)+
  define opts where "opts =
    (if out = Offer then offer_opts nif else if out = Ack then ack_opts nif else nak_opts nif)"
  define yi where "yi = (if out = Nak then None else Some a)"
  have q: "q = reply L p (the rpo) yi (opts_bytes opts)"
    using assms(3) out unfolding handled(3)
    by (cases out) (auto simp: around_def outcome_calls_def opts_def yi_def)
  have a: "fst (allocateAddr mac (leases s)) = Some a" using handled(5) out by auto
  note size = reply_buffer_size [OF assms(2,3) handled(1) a]
  have "length (opts_bytes opts) \<le> options_len L" using dhcp_msg_okD(6) [OF ok] by (simp add: opts_def)
  note f = reply_fields [OF ok size this q]
  have "rd_n q (yiaddr_off L) 4 = Inr (ip4_bytes a)" if "out \<noteq> Nak"
    using that size by (simp add: q yi_def take_drop_reply_yiaddr [OF ok])
  moreover have "(opts, out \<noteq> Nak) \<in>
      {(offer_opts nif, True), (ack_opts nif, True), (nak_opts nif, False)}"
    using out by (auto simp: opts_def)
  ultimately show ?thesis
    using pcb handled(1) a f by blast
qed

theorem reply_wellformed_witness:
  "rd_n (reply rfc_msg (ex_discover mac_a) ex_buffer (Some (IP4 192 168 1 11))
     (opts_bytes (offer_opts ex_nif))) (cookie_off rfc_msg) 4 = Inr [99, 130, 83, 99]"
  using reply_wellformed [OF rfc_msg_ok ex_recv_discover,
      of "Some 1" "reply rfc_msg (ex_discover mac_a) ex_buffer (Some (IP4 192 168 1 11))
        (opts_bytes (offer_opts ex_nif))" Broadcast DhcpClientPort]
  by (simp add: around_def outcome_calls_def rfc_msg_def)

section \<open>Buffers\<close>

text \<open>C32: on every path of the receive callback the reply buffer is freed exactly as often as it
  was allocated, and the received buffer is freed exactly once, as the last call.\<close>

theorem recv_frees_buffers:
  assumes "dhcp_msg_ok L" and "dhcpRecv L nif p rpo s = Inr (s', calls)"
  shows "allocs calls = frees Response calls \<and> frees Request calls = 1 \<and>
    last calls = PbufFree Request"
  using assms
proof (cases rule: dhcpRecv_cases)
  case (unknown o2)
  then show ?thesis by (simp add: around_def allocs_def frees_def)
next
  case (handled mac a b out)
  then show ?thesis by (simp add: outcome_discipline)
qed

theorem recv_frees_buffers_witness:
  "allocs ex_calls_a = frees Response ex_calls_a \<and> frees Request ex_calls_a = 1 \<and>
   last ex_calls_a = PbufFree Request"
  by (rule recv_frees_buffers [OF rfc_msg_ok ex_recv_a])

text \<open>The callback reads a buffer it has already freed exactly when it sends an offer or an
  acknowledgement: the prints of these two branches come after \<open>pbuf_free(rp)\<close> and take
  the hardware address from the freed reply.\<close>

theorem reads_after_free_iff:
  assumes "dhcp_msg_ok L" and "dhcpRecv L nif p rpo s = Inr (s', calls)"
  shows "reads_freed [] calls \<longleftrightarrow>
    (\<exists>a. Print (OfferSent a) \<in> set calls) \<or> (\<exists>a. Print (AckSent a) \<in> set calls)"
  using assms
proof (cases rule: dhcpRecv_cases)
  case (unknown o2)
  then show ?thesis by (simp add: around_def)
next
  case (handled mac a b out)
  then show ?thesis by (simp add: outcome_discipline outcome_prints)
qed

theorem reads_after_free_iff_witness:
  "reads_freed [] ex_calls_a \<longleftrightarrow>
   (\<exists>a. Print (OfferSent a) \<in> set ex_calls_a) \<or> (\<exists>a. Print (AckSent a) \<in> set ex_calls_a)"
  by (rule reads_after_free_iff [OF rfc_msg_ok ex_recv_a])

section \<open>Memory safety of the callback\<close>

lemma handleDiscover_is_ok:
  assumes "dhcp_msg_ok L" and mac: "rd_n p (chaddr_off L) 6 = Inr mac"
  shows "is_ok (handleDiscover L nif p rpo s)"
proof (cases "allocateAddr mac (leases s)")
  case (Pair r ls)
  show ?thesis
  proof (cases r)
    case None
    with Pair handleDiscover_full [OF mac] show ?thesis by simp
  next
    case (Some a)
    with Pair handleDiscover_no_reply [OF mac, of s a ls rpo]
      handleDiscover_offer [OF assms(1) _ mac, of "the rpo" s a ls]
    show ?thesis by (cases "usable L rpo"; cases rpo) (simp_all add: usable_def)
  qed
qed

lemma handleRequest_is_ok:
  assumes "dhcp_msg_ok L" and mac: "rd_n p (chaddr_off L) 6 = Inr mac"
    and req: "findReqIP p (options_off L) (IP4 0 0 0 0) = Inr b"
  shows "is_ok (handleRequest L nif p rpo s)"
proof (cases "allocateAddr mac (leases s)")
  case (Pair r ls)
  show ?thesis
  proof (cases r)
    case None
    with Pair handleRequest_full [OF mac] show ?thesis by simp
  next
    case (Some a)
    with Pair handleRequest_no_reply [OF mac, of s a ls rpo]
      handleRequest_ack [OF assms(1) _ mac, of "the rpo" s a ls]
      handleRequest_nak [OF assms(1) _ mac, of "the rpo" s a ls b] req
    show ?thesis
      by (cases "usable L rpo"; cases rpo; cases "b = a") (simp_all add: usable_def)
  qed
qed

text \<open>C28: the callback stays inside its buffers on every message that reaches its message type
  and, if it is a REQUEST, whose options are well-formed and closed by the end mark; whatever
  the buffer of the reply is.\<close>

theorem recv_no_fault:
  assumes ok: "dhcp_msg_ok L" and len: "options_off L + 3 \<le> length p"
    and buf: "length (dhcpBuffer s) = msg_size L"
    and opts: "rd p (options_off L + 2) = Inr DHCPREQUEST \<Longrightarrow>
      p = pre @ enc_opts os @ OPT_END # rest \<and> length pre = options_off L \<and> (\<forall>x \<in> set os. opt_wf x)"
  shows "is_ok (dhcpRecv L nif p rpo s)"
proof -
  note L = dhcp_msg_okD [OF ok]
  have "chaddr_off L + 6 \<le> length p" using L len by simp
  then obtain mac where mac: "rd_n p (chaddr_off L) 6 = Inr mac" by (simp add: rd_n_def)
  have "options_off L + 2 < length p" using len by simp
  then obtain t where t: "rd p (options_off L + 2) = Inr t" by (simp add: rd_def)
  consider "t = DHCPDISCOVER" | "t = DHCPREQUEST" | "t \<noteq> DHCPDISCOVER" "t \<noteq> DHCPREQUEST" by blast
  then show ?thesis
  proof cases
    case 1
    with t handleDiscover_is_ok [OF ok mac, of nif rpo s] show ?thesis
      by (auto simp: dhcpRecv_discover is_ok_iff)
  next
    case 2
    with t opts have "findReqIP p (options_off L) (IP4 0 0 0 0) = Inr (requested os (IP4 0 0 0 0))"
      using findReqIP_finds [of os p pre rest] by auto
    from handleRequest_is_ok [OF ok mac this, of nif rpo s] t 2 show ?thesis
      by (auto simp: dhcpRecv_request is_ok_iff)
  next
    case 3
    have "options_off L + 2 < length (dhcpBuffer s)" using L buf by simp
    with t 3 show ?thesis by (simp add: dhcpRecv_other rd_def)
  qed
qed

theorem recv_no_fault_witness:
  "is_ok (dhcpRecv rfc_msg ex_nif (ex_request mac_b (IP4 10 0 0 1)) None (ex_state mac_a freeMac freeMac))"
proof (rule recv_no_fault [where pre = "replicate 28 0 @ mac_b @ replicate 206 0" and rest = "[]"
      and os = "[(OPT_MSGTYPE, [DHCPREQUEST]), (OPT_REQ_IP, ip4_bytes (IP4 10 0 0 1))]"])
  show "ex_request mac_b (IP4 10 0 0 1) = (replicate 28 0 @ mac_b @ replicate 206 0) @
      enc_opts [(OPT_MSGTYPE, [DHCPREQUEST]), (OPT_REQ_IP, ip4_bytes (IP4 10 0 0 1))] @ [OPT_END] \<and>
      length (replicate 28 0 @ mac_b @ replicate 206 0) = options_off rfc_msg \<and>
      (\<forall>x \<in> set [(OPT_MSGTYPE, [DHCPREQUEST]), (OPT_REQ_IP, ip4_bytes (IP4 10 0 0 1))]. opt_wf x)"
    by (simp add: ex_request_def ex_packet_def opts_bytes_def opt_wf_def opt_codes)
  show "options_off rfc_msg + 3 \<le> length (ex_request mac_b (IP4 10 0 0 1))"
    by (simp add: ex_request_def ex_packet_def opts_bytes_def)
qed (simp_all add: ex_state_def)

text \<open>C29: a REQUEST whose options are not closed by the end mark makes the server read past the
  received buffer, once it holds a lease and a reply buffer for the client.\<close>

theorem request_overrun:
  assumes ok: "dhcp_msg_ok L" and size: "msg_size L \<le> length rp"
    and "rd_n p (chaddr_off L) 6 = Inr mac" and "rd p (options_off L + 2) = Inr DHCPREQUEST"
    and "fst (allocateAddr mac (leases s)) \<noteq> None"
    and p: "p = pre @ enc_opts os" "length pre = options_off L" "\<forall>x \<in> set os. opt_wf x"
  shows "dhcpRecv L nif p (Some rp) s = Inl OutOfBounds"
proof -
  obtain a where "allocateAddr mac (leases s) = (Some a, snd (allocateAddr mac (leases s)))"
    using assms(5) by (cases "allocateAddr mac (leases s)") auto
  moreover have "findReqIP p (options_off L) (IP4 0 0 0 0) = Inl OutOfBounds"
    using findReqIP_overrun [OF p(3,1)] p(2) by simp
  ultimately show ?thesis
    using handleRequest_overrun [OF ok size assms(3)] by (simp add: dhcpRecv_request [OF assms(4)])
qed

theorem request_overrun_witness:
  "dhcpRecv rfc_msg ex_nif
     (replicate 28 0 @ mac_a @ replicate 206 0 @ enc_opts [(OPT_MSGTYPE, [DHCPREQUEST])])
     (Some ex_buffer) (ex_state freeMac freeMac freeMac) = Inl OutOfBounds"
proof (rule request_overrun [where mac = mac_a and pre = "replicate 28 0 @ mac_a @ replicate 206 0"
      and os = "[(OPT_MSGTYPE, [DHCPREQUEST])]"])
  show "fst (allocateAddr mac_a (leases (ex_state freeMac freeMac freeMac))) \<noteq> None"
    using ex_alloc(1) by (simp add: ex_state_def)
qed (simp_all add: rd_def rd_n_def nth_append opt_wf_def opt_codes)

section \<open>Start, and the default branch\<close>

text \<open>A start empties the lease table and gives lease \<open>i\<close> the server's address with
  \<open>i + 10\<close> added to its last octet, all three different; a failing \<open>udp_new\<close> is reported
  and leaves the server without a socket, so without a receive callback.\<close>

theorem start_pool:
  assumes "ip4_macros_ok A" and "dhcpServerStartRaw A nif pcb s = (s', calls)"
  shows "leases_wf (leases s') \<and> bindings (leases s') = (\<lambda>_. None) \<and>
    (\<forall>i<MAX_LEASES. leases s' ! i = \<lparr>lease_mac = freeMac, lease_ip = pool_addr (netif_ip4_addr nif) i\<rparr>) \<and>
    dhcpPcb s' = pcb \<and>
    (UdpRecv pcb nif \<in> set calls \<longleftrightarrow> pcb \<noteq> None) \<and> (Print NoPcb \<in> set calls \<longleftrightarrow> pcb = None)"
proof -
  have s': "s' = fst (dhcpServerStartRaw A nif pcb s)" using assms(2) by simp
  have "dhcpPcb s' = pcb \<and> (UdpRecv pcb nif \<in> set calls \<longleftrightarrow> pcb \<noteq> None) \<and>
      (Print NoPcb \<in> set calls \<longleftrightarrow> pcb = None)"
    using assms(2) by (auto simp: dhcpServerStartRaw_def Let_def split: if_splits)
  then show ?thesis
    using start_leases_wf [OF assms(1)] start_bindings [OF assms(1)] nth_start_leases [OF assms(1)]
    by (auto simp: s')
qed

theorem start_pool_witness:
  "leases_wf (leases (ex_state freeMac freeMac freeMac)) \<and>
   leases (ex_state freeMac freeMac freeMac) ! 2 =
     \<lparr>lease_mac = freeMac, lease_ip = IP4 192 168 1 13\<rparr>"
  using start_pool [OF octet_macros_ok ex_start]
  by (simp add: ex_state_def ex_table_def)

text \<open>The last octet wraps without regard to the netmask: a server at x.y.z.245 leases
  x.y.z.255, the broadcast address of its /24 network, as its first address.\<close>

theorem pool_can_hold_broadcast:
  assumes "ip4_macros_ok A" and "netif_ip4_addr nif = IP4 x y z 245"
  shows "lease_ip (leases (fst (dhcpServerStartRaw A nif pcb s)) ! 0) = IP4 x y z 255"
  using nth_start_leases [OF assms(1), of 0 nif pcb s] assms(2)
  by (simp add: MAX_LEASES_def pool_addr_def)

theorem pool_can_hold_broadcast_witness:
  "lease_ip (leases (fst (dhcpServerStartRaw octet_macros
     (ex_nif\<lparr>netif_ip4_addr := IP4 192 168 1 245\<rparr>) (Some 1) (ex_state [] [] []))) ! 0) =
   IP4 192 168 1 255"
  by (rule pool_can_hold_broadcast) simp_all

text \<open>The message of the default branch always shows option 0, whatever the request was,
  because it prints a byte of \<open>dhcpBuffer\<close>, which nothing writes.\<close>

theorem unknown_option_prints_zero:
  assumes "dhcp_msg_ok L" and "ip4_macros_ok A" and "dhcp_session L A nif s es"
    and "Print (UnknownOption x) \<in> set es"
  shows "x = 0"
  using assms(3,4)
proof (induction rule: dhcp_session.induct)
  case (started s0 pcb s calls)
  then show ?case by simp
next
  case (received s es p rpo s' calls)
  have buf: "dhcpBuffer s = replicate (msg_size L) 0"
    by (rule session_invD(7) [OF dhcp_session_inv [OF assms(1,2) received(1)]])
  consider "Print (UnknownOption x) \<in> set es" | "Print (UnknownOption x) \<in> set calls"
    using received.prems by auto
  then show ?case
  proof cases
    case 1
    then show ?thesis by (rule received.IH)
  next
    case 2
    from assms(1) received(2) show ?thesis
    proof (cases rule: dhcpRecv_cases)
      case (unknown o2)
      with 2 buf show ?thesis by (auto simp: around_def rd_def split: if_splits)
    next
      case (handled mac a b out)
      from 2 handled(2) show ?thesis
        unfolding handled(3)
        by (cases out) (auto simp: around_def outcome_calls_def no_reply_calls_def
            split: option.splits)
    qed
  qed
qed

lemma ex_recv_inform:
  "dhcpRecv rfc_msg ex_nif (ex_packet mac_a [(OPT_MSGTYPE, [DHCPINFORM])]) None (ex_state mac_a mac_b freeMac) =
   Inr (ex_state mac_a mac_b freeMac, around [Print (UnknownOption 0)])"
  using dhcpRecv_other [OF ex_packet_type [OF length_macs(1), of OPT_MSGTYPE DHCPINFORM "[]"],
      where nif = ex_nif and rpo = None and s = "ex_state mac_a mac_b freeMac"]
  by (simp add: msg_types ex_state_def rd_def)

theorem unknown_option_prints_zero_witness:
  "Print (UnknownOption 0) \<in> set (around [Print (UnknownOption 0)]) \<and> (0::u8) = 0"
proof -
  have "Print (UnknownOption 0) \<in>
      set ((ex_calls_a @ ex_calls_b) @ around [Print (UnknownOption 0)])"
    by (simp add: around_def)
  from unknown_option_prints_zero [OF rfc_msg_ok octet_macros_ok
      dhcp_session.received [OF ex_session_two ex_recv_inform] this]
  show ?thesis by (simp add: around_def)
qed

text \<open>A second start without a stop replaces the socket without removing the first one, which
  stays bound to the server port: a following stop removes only the second.\<close>

theorem restart_leaks_socket:
  assumes "dhcpServerStartRaw A nif (Some a) s = (s1, c1)"
    and "dhcpServerStartRaw A nif (Some b) s1 = (s2, c2)"
    and "dhcpServerStopRaw s2 = (s3, c3)" and "a \<noteq> b"
  shows "UdpBind (Some a) DhcpServerPort \<in> set c1 \<and> UdpBind (Some b) DhcpServerPort \<in> set c2 \<and>
    UdpRemove (Some b) \<in> set c3 \<and> UdpRemove (Some a) \<notin> set (c1 @ c2 @ c3)"
  using assms by (auto simp: dhcpServerStartRaw_def dhcpServerStopRaw_def Let_def)

theorem restart_leaks_socket_witness:
  "\<exists>s1 c1 s2 c2 s3 c3.
     dhcpServerStartRaw octet_macros ex_nif (Some 7) (ex_state [] [] []) = (s1, c1) \<and>
     dhcpServerStartRaw octet_macros ex_nif (Some 8) s1 = (s2, c2) \<and>
     dhcpServerStopRaw s2 = (s3, c3) \<and> UdpRemove (Some 7) \<notin> set (c1 @ c2 @ c3)"
proof -
  obtain s1 c1 where a: "dhcpServerStartRaw octet_macros ex_nif (Some 7) (ex_state [] [] []) = (s1, c1)"
    by fastforce
  obtain s2 c2 where b: "dhcpServerStartRaw octet_macros ex_nif (Some 8) s1 = (s2, c2)"
    by fastforce
  obtain s3 c3 where c: "dhcpServerStopRaw s2 = (s3, c3)" by fastforce
  from restart_leaks_socket [OF a b c] a b c show ?thesis by auto
qed

end
