(* ===== verification/Dhcp_Lifecycle.thy ===== *)
theory Dhcp_Lifecycle
  imports Dhcp_Properties
begin

text \<open>
  The life of the DHCP server among the callbacks of the tcpip thread (\<open>apps/dhcps/dhcps.c\<close>):
  \<open>dhcpServerStart\<close> and \<open>dhcpServerStop\<close> only queue a job, the thread runs the jobs in order,
  and in between lwIP calls \<open>dhcpRecv\<close> for a message that arrives on any socket that still has
  it as its callback. Every start and every stop can be called at any time, on any interface.
\<close>

section \<open>The system\<close>

text \<open>
  The static variables, the queued jobs, the sockets lwIP has for the server with the
  interface of their callback, the calls since the last start ran and the interface it was
  for, and how many starts ran while the server had a socket.
\<close>

record dhcp_sys =
  srv :: dhcps
  jobs :: "tcpip_job list"
  live :: "(nat \<times> netif4) list"
  since_start :: "call list"
  pool_nif :: "netif4 option"
  restarts :: nat

text \<open>\<open>tcpip_callback\<close>: the job is queued, or there is no room for it.\<close>

definition tcpip_queue :: "bool \<Rightarrow> tcpip_job \<Rightarrow> tcpip_job list \<Rightarrow> err_t \<times> tcpip_job list" where
  "tcpip_queue room j q = (if room then (ERR_OK, q @ [j]) else (ERR_MEM, q))"

text \<open>What the calls of a job do to the sockets of lwIP; removing a null socket does nothing.\<close>

fun sockets_after :: "call list \<Rightarrow> (nat \<times> netif4) list \<Rightarrow> (nat \<times> netif4) list" where
  "sockets_after [] l = l"
| "sockets_after (UdpRecv (Some p) nif # cs) l = sockets_after cs (l @ [(p, nif)])"
| "sockets_after (UdpRemove (Some p) # cs) l = sockets_after cs (filter (\<lambda>x. fst x \<noteq> p) l)"
| "sockets_after (_ # cs) l = sockets_after cs l"

inductive dhcp_step :: "dhcp_msg \<Rightarrow> ip4_macros \<Rightarrow> dhcp_sys \<Rightarrow> dhcp_sys \<Rightarrow> bool" for L A where
    Call_start: "dhcpServerStart (tcpip_queue room) nif (jobs s) = (e, q) \<Longrightarrow>
      dhcp_step L A s (s\<lparr>jobs := q\<rparr>)"
  | Call_stop: "dhcpServerStop (tcpip_queue room) nif (jobs s) = (e, q) \<Longrightarrow>
      dhcp_step L A s (s\<lparr>jobs := q\<rparr>)"
  | Run_start: "jobs s = DhcpServerStartRaw nif # q \<Longrightarrow>
      (case pcb of None \<Rightarrow> True | Some p \<Rightarrow> p \<notin> fst ` set (live s)) \<Longrightarrow>
      run_job A pcb (DhcpServerStartRaw nif) (srv s) = (t, calls) \<Longrightarrow>
      dhcp_step L A s (s\<lparr>srv := t, jobs := q, live := sockets_after calls (live s), since_start := [],
        pool_nif := Some nif, restarts := (if dhcpPcb (srv s) = None then restarts s else Suc (restarts s))\<rparr>)"
  | Run_stop: "jobs s = DhcpServerStopRaw nif # q \<Longrightarrow>
      run_job A None (DhcpServerStopRaw nif) (srv s) = (t, calls) \<Longrightarrow>
      dhcp_step L A s (s\<lparr>srv := t, jobs := q, live := sockets_after calls (live s),
        since_start := since_start s @ calls\<rparr>)"
  | Receive: "(p, nif) \<in> set (live s) \<Longrightarrow> dhcpRecv L nif m rpo (srv s) = Inr (t, calls) \<Longrightarrow>
      dhcp_step L A s (s\<lparr>srv := t, since_start := since_start s @ calls\<rparr>)"

inductive_cases dhcp_stepE: "dhcp_step L A s s'"

text \<open>The state at boot: static variables are zero.\<close>

definition dhcp_boot :: "dhcp_msg \<Rightarrow> dhcp_sys" where
  "dhcp_boot L =
     \<lparr>srv = \<lparr>dhcpPcb = None, leases = replicate MAX_LEASES \<lparr>lease_mac = replicate 6 0, lease_ip = IP4 0 0 0 0\<rparr>,
        dhcpBuffer = replicate (msg_size L) 0\<rparr>,
      jobs = [], live = [], since_start = [], pool_nif = None, restarts = 0\<rparr>"

inductive dhcp_reach :: "dhcp_msg \<Rightarrow> ip4_macros \<Rightarrow> dhcp_sys \<Rightarrow> bool" for L A where
    Boot: "dhcp_reach L A (dhcp_boot L)"
  | Step: "dhcp_reach L A s \<Longrightarrow> dhcp_step L A s s' \<Longrightarrow> dhcp_reach L A s'"

section \<open>The invariant\<close>

text \<open>
  The server's own socket is one of lwIP's; the others are those a restart or a stop left
  behind. Before the first start there is none, after it the lease table keeps the invariant
  of a session of the interface last started.
\<close>

definition life_inv :: "dhcp_msg \<Rightarrow> dhcp_sys \<Rightarrow> bool" where
  "life_inv L s \<longleftrightarrow>
     distinct (map fst (live s)) \<and>
     (\<forall>p. dhcpPcb (srv s) = Some p \<longrightarrow> (\<exists>nif. pool_nif s = Some nif \<and> (p, nif) \<in> set (live s))) \<and>
     length (live s) = restarts s + (if dhcpPcb (srv s) = None then 0 else 1) \<and>
     dhcpBuffer (srv s) = replicate (msg_size L) 0 \<and>
     (pool_nif s = None \<longrightarrow> live s = []) \<and>
     (\<forall>nif. pool_nif s = Some nif \<longrightarrow> session_inv L nif (srv s) (since_start s))"

lemma life_invD:
  assumes "life_inv L s"
  shows "distinct (map fst (live s))"
    and "dhcpPcb (srv s) = Some p \<Longrightarrow> \<exists>nif. pool_nif s = Some nif \<and> (p, nif) \<in> set (live s)"
    and "length (live s) = restarts s + (if dhcpPcb (srv s) = None then 0 else 1)"
    and "dhcpBuffer (srv s) = replicate (msg_size L) 0"
    and "x \<in> set (live s) \<Longrightarrow> \<exists>nif. pool_nif s = Some nif"
    and "pool_nif s = Some nif \<Longrightarrow> session_inv L nif (srv s) (since_start s)"
  using assms by (cases "pool_nif s"; auto simp: life_inv_def)+

lemma start_calls:
  assumes "dhcpServerStartRaw A nif pcb s = (t, calls)"
  shows "dhcpPcb t = pcb" and "dhcpBuffer t = dhcpBuffer s"
    and "sockets_after calls l = (case pcb of None \<Rightarrow> l | Some p \<Rightarrow> l @ [(p, nif)])"
  using assms by (auto simp: dhcpServerStartRaw_def Let_def split: option.splits if_splits)

lemma stop_calls:
  assumes "dhcpServerStopRaw s = (t, calls)"
  shows "t = s\<lparr>dhcpPcb := None\<rparr>" and "calls = [UdpRemove (dhcpPcb s)]"
    and "sockets_after calls l = (case dhcpPcb s of None \<Rightarrow> l | Some p \<Rightarrow> filter (\<lambda>x. fst x \<noteq> p) l)"
  using assms by (auto simp: dhcpServerStopRaw_def split: option.splits)

lemma filter_one_less:
  "distinct (map fst l) \<Longrightarrow> (p, x) \<in> set l \<Longrightarrow> length l = Suc (length (filter (\<lambda>y. fst y \<noteq> p) l))"
proof (induction l)
  case (Cons y l)
  show ?case
  proof (cases "y = (p, x)")
    case True
    with Cons.prems(1) have "filter (\<lambda>y. fst y \<noteq> p) l = l"
      by (auto simp: filter_id_conv image_iff)
    with True show ?thesis by simp
  next
    case False
    with Cons.prems have "(p, x) \<in> set l" "fst y \<noteq> p" by (auto simp: image_iff)
    with Cons show ?thesis by simp
  qed
qed simp

lemma session_inv_stop:
  "session_inv L nif s es \<Longrightarrow> session_inv L nif (s\<lparr>dhcpPcb := None\<rparr>) (es @ [UdpRemove p])"
  by (simp add: session_inv_def)

lemma life_inv_step:
  assumes L: "dhcp_msg_ok L" and A: "ip4_macros_ok A" and inv: "life_inv L s" and st: "dhcp_step L A s s'"
  shows "life_inv L s'"
  using st
proof (cases rule: dhcp_step.cases)
  case Call_start
  with inv show ?thesis by (simp add: life_inv_def)
next
  case Call_stop
  with inv show ?thesis by (simp add: life_inv_def)
next
  case (Run_start nif q pcb t calls)
  then have r: "dhcpServerStartRaw A nif pcb (srv s) = (t, calls)" by simp
  have "dhcpBuffer (srv s) = replicate (msg_size L) 0" using inv by (simp add: life_inv_def)
  from session_inv_start [OF A this r] inv Run_start start_calls [OF r] show ?thesis
    by (auto simp: life_inv_def split: option.splits)
next
  case (Run_stop nif q t calls)
  then have r: "dhcpServerStopRaw (srv s) = (t, calls)" by simp
  have t: "t = (srv s)\<lparr>dhcpPcb := None\<rparr>" and c: "calls = [UdpRemove (dhcpPcb (srv s))]"
    using stop_calls [OF r] by simp_all
  note si = session_inv_stop [OF life_invD(6) [OF inv]]
  show ?thesis
  proof (cases "dhcpPcb (srv s)")
    case None
    with inv Run_stop t c si show ?thesis by (simp add: life_inv_def)
  next
    case (Some p)
    from life_invD(2) [OF inv Some] obtain nif' where l: "pool_nif s = Some nif'" "(p, nif') \<in> set (live s)"
      by blast
    note f = filter_one_less [OF life_invD(1) [OF inv] l(2)]
    from Some inv Run_stop t c f si l show ?thesis by (simp add: life_inv_def distinct_map_filter)
  qed
next
  case (Receive p nif m rpo t calls)
  from life_invD(5) [OF inv Receive(2)] obtain nif' where n: "pool_nif s = Some nif'" by blast
  note si = life_invD(6) [OF inv n]
  note si' = session_inv_recv [OF L si Receive(3)]
  have "dhcpPcb t = dhcpPcb (srv s)"
    using dhcpRecv_keeps(2) [OF L session_invD(1) [OF si] Receive(3)] .
  with si' inv session_invD(7) [OF si'] Receive n show ?thesis by (simp add: life_inv_def)
qed

lemma life_inv_reach:
  assumes "dhcp_msg_ok L" and "ip4_macros_ok A" and "dhcp_reach L A s"
  shows "life_inv L s"
  using assms(3)
proof induction
  case Boot
  show ?case by (simp add: life_inv_def dhcp_boot_def)
next
  case (Step s s')
  from life_inv_step [OF assms(1,2) Step.IH Step.hyps(2)] show ?case .
qed

text \<open>A handler sends from the socket in \<open>dhcpPcb\<close>, not from the one the message came in on.\<close>

lemma dhcpRecv_sends:
  assumes "dhcp_msg_ok L" and "dhcpRecv L nif m rpo s = Inr (t, calls)"
    and "UdpSendToIf q bs d pt \<in> set calls"
  shows "q = dhcpPcb s"
  using assms(1,2)
proof (cases rule: dhcpRecv_cases)
  case (unknown o2)
  with assms(3) show ?thesis by (simp add: around_def)
next
  case (handled mac a b out)
  with assms(3) show ?thesis
    by (cases out) (auto simp: around_def outcome_calls_def no_reply_calls_def split: option.splits)
qed

section \<open>Properties\<close>

text \<open>C1: Whatever starts and stops are called and messages arrive, in any order: the socket in
  \<open>dhcpPcb\<close> is one of the server's live sockets and serves the interface last started; the
  others are as many as starts ran on a running server; every address acknowledged since the
  last start ran is in the pool of that interface; and among the clients with a hardware
  address other than all zeros, which the table uses to mark a free lease, two acknowledgements
  since then name the same client exactly when they name the same address.\<close>

theorem server_lifecycle:
  assumes "dhcp_msg_ok L" and "ip4_macros_ok A" and "dhcp_reach L A s"
  shows "distinct (map fst (live s)) \<and>
    length (live s) = restarts s + (if dhcpPcb (srv s) = None then 0 else 1) \<and>
    (\<forall>p. dhcpPcb (srv s) = Some p \<longrightarrow> (\<exists>nif. pool_nif s = Some nif \<and> (p, nif) \<in> set (live s))) \<and>
    (\<forall>nif a m. pool_nif s = Some nif \<and> EtharpAddStatic a m \<in> set (since_start s) \<longrightarrow>
       (\<exists>i<MAX_LEASES. a = pool_addr (netif_ip4_addr nif) i)) \<and>
    (\<forall>nif a m b n. pool_nif s = Some nif \<and> EtharpAddStatic a m \<in> set (since_start s) \<and>
       EtharpAddStatic b n \<in> set (since_start s) \<and> is_client m \<and> is_client n \<longrightarrow> (m = n \<longleftrightarrow> a = b))"
proof (intro conjI allI impI)
  note inv = life_inv_reach [OF assms]
  show "distinct (map fst (live s))" by (rule life_invD(1) [OF inv])
  show "length (live s) = restarts s + (if dhcpPcb (srv s) = None then 0 else 1)"
    by (rule life_invD(3) [OF inv])
  show "\<exists>nif. pool_nif s = Some nif \<and> (p, nif) \<in> set (live s)" if "dhcpPcb (srv s) = Some p" for p
    by (rule life_invD(2) [OF inv that])
  show "\<exists>i<MAX_LEASES. a = pool_addr (netif_ip4_addr nif) i"
    if h: "pool_nif s = Some nif \<and> EtharpAddStatic a m \<in> set (since_start s)" for nif a m
    using session_invD(4) [OF life_invD(6) [OF inv conjunct1 [OF h]] conjunct2 [OF h]] .
  fix nif a m b n
  assume h: "pool_nif s = Some nif \<and> EtharpAddStatic a m \<in> set (since_start s) \<and>
    EtharpAddStatic b n \<in> set (since_start s) \<and> is_client m \<and> is_client n"
  then have "session_inv L nif (srv s) (since_start s)" using life_invD(6) [OF inv] by blast
  note I = session_invD [OF this]
  from h I(3) have "bindings (leases (srv s)) m = Some a" "bindings (leases (srv s)) n = Some b" by blast+
  with lt.binds_inj [OF I(1)] show "m = n \<longleftrightarrow> a = b" by auto
qed

text \<open>A run: start, start again, stop, and a request, all jobs queued before the first one runs.\<close>

definition ex_life :: "tcpip_job list \<Rightarrow> nat option \<Rightarrow> (nat \<times> netif4) list \<Rightarrow> nat \<Rightarrow> call list \<Rightarrow> dhcp_sys" where
  "ex_life q pcb l r es =
     \<lparr>srv = (ex_state freeMac freeMac freeMac)\<lparr>dhcpPcb := pcb\<rparr>, jobs = q, live = l, since_start = es,
      pool_nif = Some ex_nif, restarts = r\<rparr>"

definition ex_jobs :: "tcpip_job list" where
  "ex_jobs = [DhcpServerStartRaw ex_nif, DhcpServerStartRaw ex_nif, DhcpServerStopRaw ex_nif]"

lemma start_state:
  "fst (dhcpServerStartRaw A nif pcb s) = (fst (dhcpServerStartRaw A nif pcb' s'))\<lparr>dhcpPcb := pcb, dhcpBuffer := dhcpBuffer s\<rparr>"
  by (simp add: dhcpServerStartRaw_def Let_def)

lemma ex_start_any:
  "dhcpBuffer s = replicate 308 0 \<Longrightarrow> dhcpServerStartRaw octet_macros ex_nif (Some p) s =
     ((ex_state freeMac freeMac freeMac)\<lparr>dhcpPcb := Some p\<rparr>,
      [UdpNew, IpSetBroadcast (Some p), UdpBind (Some p) DhcpServerPort, UdpRecv (Some p) ex_nif])"
  using start_state [of octet_macros ex_nif "Some p" s "Some 1" "ex_state [] [] []"]
  unfolding ex_start prod_eq_iff by (simp add: ex_state_def) (simp add: dhcpServerStartRaw_def Let_def)

lemma ex_life_started: "dhcp_reach rfc_msg octet_macros (ex_life (tl ex_jobs) (Some 1) [(1, ex_nif)] 0 [])"
proof -
  let ?b = "dhcp_boot rfc_msg"
  note start = dhcp_step.Call_start [where room = True and nif = ex_nif, OF prod.collapse [symmetric]]
  note stop = dhcp_step.Call_stop [where room = True and nif = ex_nif, OF prod.collapse [symmetric]]
  have "dhcp_reach rfc_msg octet_macros (?b\<lparr>jobs := ex_jobs\<rparr>)"
    using dhcp_reach.Step [OF dhcp_reach.Step [OF dhcp_reach.Step [OF dhcp_reach.Boot start] start] stop,
        of rfc_msg octet_macros]
    by (simp add: dhcpServerStart_def dhcpServerStop_def tcpip_queue_def dhcp_boot_def ex_jobs_def)
  moreover have "dhcp_step rfc_msg octet_macros (?b\<lparr>jobs := ex_jobs\<rparr>) (ex_life (tl ex_jobs) (Some 1) [(1, ex_nif)] 0 [])"
    using dhcp_step.Run_start [of "?b\<lparr>jobs := ex_jobs\<rparr>" ex_nif "tl ex_jobs" "Some 1" octet_macros]
    by (simp add: dhcp_boot_def ex_jobs_def ex_start_any ex_life_def)
  ultimately show ?thesis by (rule dhcp_reach.Step)
qed

lemma ex_life_stopped:
  "dhcp_reach rfc_msg octet_macros (ex_life [] None [(1, ex_nif)] 1 [UdpRemove (Some 2)])"
proof -
  have "dhcp_step rfc_msg octet_macros (ex_life (tl ex_jobs) (Some 1) [(1, ex_nif)] 0 [])
      (ex_life [DhcpServerStopRaw ex_nif] (Some 2) [(1, ex_nif), (2, ex_nif)] 1 [])"
    using dhcp_step.Run_start [of "ex_life (tl ex_jobs) (Some 1) [(1, ex_nif)] 0 []" ex_nif
        "[DhcpServerStopRaw ex_nif]" "Some 2" octet_macros]
    by (simp add: ex_jobs_def ex_start_any ex_life_def ex_state_def)
  moreover have "dhcp_step rfc_msg octet_macros
      (ex_life [DhcpServerStopRaw ex_nif] (Some 2) [(1, ex_nif), (2, ex_nif)] 1 [])
      (ex_life [] None [(1, ex_nif)] 1 [UdpRemove (Some 2)])"
    using dhcp_step.Run_stop [of "ex_life [DhcpServerStopRaw ex_nif] (Some 2) [(1, ex_nif), (2, ex_nif)] 1 []"
        ex_nif "[]" octet_macros]
    by (simp add: dhcpServerStopRaw_def ex_life_def)
  ultimately show ?thesis by (blast intro: dhcp_reach.Step [OF ex_life_started] dhcp_reach.Step)
qed

lemma ex_recv_any_pcb:
  "dhcpRecv rfc_msg ex_nif (ex_request mac_a (IP4 192 168 1 11)) (Some ex_buffer)
     ((ex_state freeMac freeMac freeMac)\<lparr>dhcpPcb := q\<rparr>) =
   Inr ((ex_state mac_a freeMac freeMac)\<lparr>dhcpPcb := q\<rparr>,
     around (outcome_calls rfc_msg ex_nif q (ex_request mac_a (IP4 192 168 1 11)) (Some ex_buffer) mac_a
       (IP4 192 168 1 11) (IP4 192 168 1 11) 0 Ack))"
proof -
  note f = ex_request_facts [OF length_macs(1), of "IP4 192 168 1 11"]
  have "allocateAddr mac_a (leases ((ex_state freeMac freeMac freeMac)\<lparr>dhcpPcb := q\<rparr>)) =
      (Some (IP4 192 168 1 11), ex_table mac_a freeMac freeMac)"
    using ex_alloc(1) by (simp add: ex_state_def)
  from handleRequest_ack [OF rfc_msg_ok _ f(1) this f(3), of ex_buffer]
  show ?thesis by (simp add: dhcpRecv_request [OF f(2)] outcome_calls_def ex_state_def)
qed

theorem server_lifecycle_witness:
  "\<exists>s. dhcp_reach rfc_msg octet_macros s \<and> EtharpAddStatic (IP4 192 168 1 11) mac_a \<in> set (since_start s) \<and>
     length (live s) = 1 \<and> (\<exists>i<MAX_LEASES. IP4 192 168 1 11 = pool_addr (netif_ip4_addr ex_nif) i)"
proof -
  let ?s = "ex_life (tl ex_jobs) (Some 1) [(1, ex_nif)] 0 []"
  let ?s' = "?s\<lparr>srv := ex_state mac_a freeMac freeMac, since_start := ex_calls_a\<rparr>"
  have "srv ?s = ex_state freeMac freeMac freeMac" by (simp add: ex_life_def ex_state_def)
  with ex_recv_a have "dhcp_step rfc_msg octet_macros ?s (?s\<lparr>srv := ex_state mac_a freeMac freeMac,
      since_start := since_start ?s @ ex_calls_a\<rparr>)"
    by (intro dhcp_step.Receive [of 1 ex_nif]) (simp_all add: ex_life_def)
  then have "dhcp_step rfc_msg octet_macros ?s ?s'" by (simp add: ex_life_def)
  with ex_life_started have r: "dhcp_reach rfc_msg octet_macros ?s'" by (rule dhcp_reach.Step)
  have "pool_nif ?s' = Some ex_nif" "since_start ?s' = ex_calls_a" by (simp_all add: ex_life_def)
  with server_lifecycle [OF rfc_msg_ok octet_macros_ok r] ex_calls_ethar(1) clients(1)
  have "\<exists>i<MAX_LEASES. IP4 192 168 1 11 = pool_addr (netif_ip4_addr ex_nif) i" by metis
  with r ex_calls_ethar(1) show ?thesis
    by (intro exI [of _ ?s']) (simp add: ex_life_def)
qed

text \<open>C27: A server that is never started while it runs has no socket but its own: a message can only
  arrive on the socket in \<open>dhcpPcb\<close>, on the interface the leases are made for, and every reply
  goes out through that socket.\<close>

theorem own_socket_serves:
  assumes "dhcp_msg_ok L" and "ip4_macros_ok A" and "dhcp_reach L A s" and "restarts s = 0"
    and "(p, nif) \<in> set (live s)" and "dhcpRecv L nif m rpo (srv s) = Inr (t, calls)"
  shows "dhcpPcb (srv s) = Some p \<and> pool_nif s = Some nif \<and>
    (\<forall>q bs d pt. UdpSendToIf q bs d pt \<in> set calls \<longrightarrow> q = Some p)"
proof -
  note inv = life_inv_reach [OF assms(1-3)]
  from assms(5) have "live s \<noteq> []" by auto
  with life_invD(3) [OF inv] assms(4) obtain q where q: "dhcpPcb (srv s) = Some q" "length (live s) = 1"
    by (auto split: if_splits)
  from life_invD(2) [OF inv q(1)] obtain n where n: "pool_nif s = Some n" "(q, n) \<in> set (live s)" by blast
  from q(2) obtain x where "live s = [x]" by (auto simp: length_Suc_conv)
  with n(2) assms(5) have "(q, n) = (p, nif)" by simp
  with q n dhcpRecv_sends [OF assms(1,6)] show ?thesis by auto
qed

theorem own_socket_serves_witness:
  "\<exists>bs d pt. UdpSendToIf (Some 1) bs d pt \<in> set ex_calls_a \<and>
    pool_nif (ex_life (tl ex_jobs) (Some 1) [(1, ex_nif)] 0 []) = Some ex_nif"
proof -
  let ?s = "ex_life (tl ex_jobs) (Some 1) [(1, ex_nif)] 0 []"
  have h: "restarts ?s = 0" "(1, ex_nif) \<in> set (live ?s)" "srv ?s = ex_state freeMac freeMac freeMac"
    by (simp_all add: ex_life_def ex_state_def)
  note own = own_socket_serves [OF rfc_msg_ok octet_macros_ok ex_life_started h(1,2) ex_recv_a [folded h(3)]]
  have "\<exists>q bs d pt. UdpSendToIf q bs d pt \<in> set ex_calls_a"
    by (auto simp: ex_calls_a_def around_def outcome_calls_def)
  then obtain q bs d pt where "UdpSendToIf q bs d pt \<in> set ex_calls_a" by blast
  with own show ?thesis by blast
qed

text \<open>A start on a running server leaves the old socket behind, and the next stop does not
  remove it: messages still arrive on it, and every reply to them is sent through the null
  socket. The server has no socket and a live one only after such a restart.\<close>

theorem stopped_server_sends_null:
  assumes "dhcp_msg_ok L" and "ip4_macros_ok A" and "dhcp_reach L A s" and "dhcpPcb (srv s) = None"
    and "(p, nif) \<in> set (live s)" and "dhcpRecv L nif m rpo (srv s) = Inr (t, calls)"
  shows "0 < restarts s \<and> (\<forall>q bs d pt. UdpSendToIf q bs d pt \<in> set calls \<longrightarrow> q = None)"
proof -
  from assms(5) have "live s \<noteq> []" by auto
  with life_invD(3) [OF life_inv_reach [OF assms(1-3)]] assms(4) have "0 < restarts s" by (cases "live s") auto
  with dhcpRecv_sends [OF assms(1,6)] assms(4) show ?thesis by auto
qed

theorem stopped_server_sends_null_witness:
  "\<exists>s t calls bs d pt. dhcp_reach rfc_msg octet_macros s \<and> dhcpPcb (srv s) = None \<and>
     (1, ex_nif) \<in> set (live s) \<and>
     dhcpRecv rfc_msg ex_nif (ex_request mac_a (IP4 192 168 1 11)) (Some ex_buffer) (srv s) = Inr (t, calls) \<and>
     UdpSendToIf None bs d pt \<in> set calls"
proof -
  let ?s = "ex_life [] None [(1, ex_nif)] 1 [UdpRemove (Some 2)]"
  have h: "dhcpPcb (srv ?s) = None" "(1, ex_nif) \<in> set (live ?s)"
    "srv ?s = (ex_state freeMac freeMac freeMac)\<lparr>dhcpPcb := None\<rparr>"
    by (simp_all add: ex_life_def)
  note r = ex_recv_any_pcb [of None, folded h(3)]
  note own = stopped_server_sends_null [OF rfc_msg_ok octet_macros_ok ex_life_stopped h(1,2) r]
  have "\<exists>q bs d pt. UdpSendToIf q bs d pt \<in> set (around (outcome_calls rfc_msg ex_nif None
      (ex_request mac_a (IP4 192 168 1 11)) (Some ex_buffer) mac_a (IP4 192 168 1 11) (IP4 192 168 1 11) 0 Ack))"
    by (auto simp: around_def outcome_calls_def)
  then obtain q bs d pt where u: "UdpSendToIf q bs d pt \<in> set (around (outcome_calls rfc_msg ex_nif None
      (ex_request mac_a (IP4 192 168 1 11)) (Some ex_buffer) mac_a (IP4 192 168 1 11) (IP4 192 168 1 11) 0 Ack))"
    by blast
  with own have "q = None" by blast
  with u r ex_life_stopped h(1,2) show ?thesis by blast
qed

end
