(* ===== verification/Sys_Time.thy ===== *)
theory Sys_Time
  imports Prelude
begin

text \<open>
  The time arithmetic of \<open>sys_arch.c\<close>: the waited time the two blocking operations
  return, the system time and the random numbers. All of it is on 32-bit unsigned values;
  \<open>HZ\<close>, the number of jiffies per second, is a constant of pico]OS and a parameter here.
  The jiffy counter is 32 bits wide, as it is on the ports the build files name.
\<close>

section \<open>The waited time\<close>

text \<open>
  The computation \<open>sys_arch_sem_wait\<close> and \<open>sys_arch_mbox_fetch\<close> share, from the
  difference of two jiffy counts and the timeout. The constant divisions of the code are on
  non-negative integers, the others on words.
\<close>

definition waited_ms :: "nat \<Rightarrow> u32 \<Rightarrow> u32 \<Rightarrow> u32" where
  "waited_ms HZ diff timeout =
     (let w = diff * 1000;
          w = w div word_of_nat HZ;
          w = (if w < word_of_nat (1000 div HZ)
               then (if HZ < 500 then word_of_nat (500 div HZ) else 1) else w)
      in if w < timeout then w else timeout)"

lemma waited_ms_le: "waited_ms HZ diff timeout \<le> timeout"
  by (simp add: waited_ms_def Let_def order_less_imp_le)

lemma waited_ms_zero: "waited_ms HZ diff 0 = 0"
  by (simp add: waited_ms_def Let_def)

lemma unat_word_of_nat_small: "n < 2 ^ 32 \<Longrightarrow> unat (word_of_nat n :: u32) = n"
  by (simp add: unat_of_nat)

lemma waited_ms_pos:
  assumes "0 < HZ" and "HZ \<le> 1000" and "0 < timeout"
  shows "0 < waited_ms HZ diff timeout"
proof -
  have small: "k div HZ < 2 ^ 32" if "k < 2 ^ 32" for k
    using that by (rule le_less_trans [OF div_le_dividend])
  have c: "unat (word_of_nat (1000 div HZ) :: u32) = 1000 div HZ"
    "unat (word_of_nat (500 div HZ) :: u32) = 500 div HZ"
    by (rule unat_word_of_nat_small, rule small, simp)+
  have p: "0 < 1000 div HZ" using assms(1,2) by (simp add: div_greater_zero_iff)
  have q: "HZ < 500 \<Longrightarrow> 0 < 500 div HZ" using assms(1) by (simp add: div_greater_zero_iff)
  let ?w = "diff * 1000 div word_of_nat HZ :: u32"
  have "0 < unat (if ?w < word_of_nat (1000 div HZ)
      then (if HZ < 500 then word_of_nat (500 div HZ) else 1) else ?w)"
    using p q c by (auto simp: word_less_nat_alt)
  then show ?thesis
    using assms(3) by (simp add: waited_ms_def Let_def word_less_nat_alt)
qed

text \<open>Without overflow the result is the elapsed time in milliseconds, rounded down.\<close>

lemma unat_ms:
  assumes "unat diff * 1000 < 2 ^ 32" and "HZ < 2 ^ 32"
  shows "unat (diff * 1000 div word_of_nat HZ :: u32) = unat diff * 1000 div HZ"
  using assms by (simp add: unat_div unat_word_ariths unat_word_of_nat_small)

lemma waited_ms_exact:
  assumes "unat diff * 1000 < 2 ^ 32" and "HZ < 2 ^ 32" and "1000 div HZ \<le> unat diff * 1000 div HZ"
  shows "unat (waited_ms HZ diff timeout) = min (unat diff * 1000 div HZ) (unat timeout)"
proof -
  have "1000 div HZ < 2 ^ 32" by (rule le_less_trans [OF div_le_dividend]) simp
  then have "\<not> diff * 1000 div word_of_nat HZ < (word_of_nat (1000 div HZ) :: u32)"
    using assms by (simp add: word_less_nat_alt unat_ms unat_word_of_nat_small)
  with assms show ?thesis
    by (simp add: waited_ms_def Let_def word_less_nat_alt unat_ms min_def)
qed

section \<open>System time\<close>

definition sys_now :: "nat \<Rightarrow> u32 \<Rightarrow> u32" where
  "sys_now HZ jiffies = jiffies * 1000 div word_of_nat HZ"

definition sys_jiffies :: "u32 \<Rightarrow> u32" where
  "sys_jiffies jiffies = jiffies"

section \<open>Random numbers\<close>

text \<open>
  \<open>rand_r\<close> of the C library takes the seed and returns a value and the next seed. The
  cast to \<open>unsigned short\<close> keeps the low 16 bits.
\<close>

definition sys_random_init :: "u16 \<Rightarrow> u32" where
  "sys_random_init seed = ucast seed"

definition sys_random :: "(u32 \<Rightarrow> int \<times> u32) \<Rightarrow> u32 \<Rightarrow> int \<times> u32" where
  "sys_random rand_r seedValue =
     (let (r, seedValue) = rand_r seedValue in (uint (word_of_int r :: u16), seedValue))"

fun randoms :: "(u32 \<Rightarrow> int \<times> u32) \<Rightarrow> nat \<Rightarrow> u32 \<Rightarrow> int list" where
  "randoms rand_r 0 seed = []"
| "randoms rand_r (Suc n) seed =
     (let (r, seed) = sys_random rand_r seed in r # randoms rand_r n seed)"

end
