(* ===== verification/Sys_Arch.thy ===== *)
theory Sys_Arch
  imports Sys_Time
begin

text \<open>
  The operating-system layer of lwIP on pico]OS (\<open>sys_arch.c\<close>,
  \<open>include/arch/sys_arch.h\<close>, \<open>include/arch/cc.h\<close>): mutexes, semaphores, mailboxes,
  preemption protection and threads, as wrappers over the nano layer and the rings of
  pico]OS. Those are not part of the repository: the record \<open>pico\<close> holds the operations
  the code calls, as functions on a state \<open>'w\<close> of the rest of the system.
\<close>

section \<open>The operating system\<close>

text \<open>
  A handle is a non-null pointer; \<open>None\<close> is the null pointer. A blocking call returns the
  state at the time it returns. \<open>uosRingGet\<close> answers \<open>Some m\<close> where it stores \<open>m\<close>
  through its argument and returns true.
\<close>

type_synonym handle = "nat option"

record 'w pico =
  HZ :: nat
  MS :: "u32 \<Rightarrow> u32"
  INFINITE :: u32
  SYS_ARCH_TIMEOUT :: u32
  SYS_MBOX_EMPTY :: u32
  LWIP_DEBUG :: bool
  LWIP_NOASSERT :: bool
  jiffies :: "'w \<Rightarrow> u32"
  nosMutexCreate :: "nat \<Rightarrow> string \<Rightarrow> 'w \<Rightarrow> handle \<times> 'w"
  nosMutexLock :: "handle \<Rightarrow> 'w \<Rightarrow> 'w"
  nosMutexUnlock :: "handle \<Rightarrow> 'w \<Rightarrow> 'w"
  nosMutexDestroy :: "handle \<Rightarrow> 'w \<Rightarrow> 'w"
  nosSemaCreate :: "u8 \<Rightarrow> nat \<Rightarrow> string \<Rightarrow> 'w \<Rightarrow> handle \<times> 'w"
  nosSemaSignal :: "handle \<Rightarrow> 'w \<Rightarrow> 'w"
  nosSemaWait :: "handle \<Rightarrow> u32 \<Rightarrow> 'w \<Rightarrow> int \<times> 'w"
  nosSemaDestroy :: "handle \<Rightarrow> 'w \<Rightarrow> 'w"
  uosRingCreate :: "nat \<Rightarrow> int \<Rightarrow> 'w \<Rightarrow> handle \<times> 'w"
  uosRingPut :: "handle \<Rightarrow> nat \<Rightarrow> u32 \<Rightarrow> 'w \<Rightarrow> bool \<times> 'w"
  uosRingGet :: "handle \<Rightarrow> u32 \<Rightarrow> 'w \<Rightarrow> nat option \<times> 'w"
  uosRingDestroy :: "handle \<Rightarrow> 'w \<Rightarrow> 'w"
  SYS_STATS_INC_USED_mbox :: "'w \<Rightarrow> 'w"
  SYS_STATS_DEC_mbox_used :: "'w \<Rightarrow> 'w"
  POS_SCHED_LOCK :: "'w \<Rightarrow> u32 \<times> 'w"
  POS_SCHED_UNLOCK :: "u32 \<Rightarrow> 'w \<Rightarrow> 'w"
  nosTaskCreate :: "nat \<Rightarrow> nat \<Rightarrow> int \<Rightarrow> int \<Rightarrow> string \<Rightarrow> 'w \<Rightarrow> handle \<times> 'w"
  sizeof_ptr :: nat

section \<open>Assertions\<close>

text \<open>
  \<open>LWIP_PLATFORM_ASSERT\<close> prints for ever in a debug build and does nothing otherwise;
  \<open>LWIP_ASSERT\<close> of lwIP calls it on a false condition unless assertions are compiled
  out.
\<close>

definition LWIP_PLATFORM_ASSERT :: "'w pico \<Rightarrow> unit res" where
  "LWIP_PLATFORM_ASSERT P = (if LWIP_DEBUG P then Inl Hang else Inr ())"

definition LWIP_ASSERT :: "'w pico \<Rightarrow> bool \<Rightarrow> unit res" where
  "LWIP_ASSERT P c = (if c \<or> LWIP_NOASSERT P then Inr () else LWIP_PLATFORM_ASSERT P)"

text \<open>Reading \<open>*x\<close> through a pointer that may be null.\<close>

definition deref :: "'a option \<Rightarrow> 'a res" where
  "deref x = (case x of None \<Rightarrow> Inl NullDeref | Some v \<Rightarrow> Inr v)"

lemma deref_simps [simp]: "deref None = Inl NullDeref" "deref (Some v) = Inr v"
  by (simp_all add: deref_def)

section \<open>Validity of objects\<close>

text \<open>
  The macros of \<open>sys_arch.h\<close> take a pointer to the variable that holds the object; they
  are the same for semaphores, mutexes and mailboxes.
\<close>

definition sys_sem_valid :: "handle option \<Rightarrow> bool" where
  "sys_sem_valid sem \<longleftrightarrow> sem \<noteq> None \<and> the sem \<noteq> None"

definition sys_sem_set_invalid :: "handle option \<Rightarrow> handle option" where
  "sys_sem_set_invalid sem = (if sem \<noteq> None then Some None else sem)"

definition sys_mutex_valid :: "handle option \<Rightarrow> bool" where
  "sys_mutex_valid mutex \<longleftrightarrow> mutex \<noteq> None \<and> the mutex \<noteq> None"

definition sys_mutex_set_invalid :: "handle option \<Rightarrow> handle option" where
  "sys_mutex_set_invalid mutex = (if mutex \<noteq> None then Some None else mutex)"

definition sys_mbox_valid :: "handle option \<Rightarrow> bool" where
  "sys_mbox_valid mbox \<longleftrightarrow> mbox \<noteq> None \<and> the mbox \<noteq> None"

definition sys_mbox_set_invalid :: "handle option \<Rightarrow> handle option" where
  "sys_mbox_set_invalid mbox = (if mbox \<noteq> None then Some None else mbox)"

section \<open>Mutexes\<close>

text \<open>
  A creating operation returns the error code, the value it stored in the caller's variable
  and the new state; the others take the value of the variable.
\<close>

definition sys_mutex_new :: "'w pico \<Rightarrow> 'w \<Rightarrow> err_t \<times> handle \<times> 'w" where
  "sys_mutex_new P w =
     (let (mutex, w) = nosMutexCreate P 0 ''lwip_m*'' w
      in if mutex = None then (ERR_MEM, mutex, w) else (ERR_OK, mutex, w))"

definition sys_mutex_lock :: "'w pico \<Rightarrow> handle \<Rightarrow> 'w \<Rightarrow> 'w" where
  "sys_mutex_lock P mutex w = nosMutexLock P mutex w"

definition sys_mutex_unlock :: "'w pico \<Rightarrow> handle \<Rightarrow> 'w \<Rightarrow> 'w" where
  "sys_mutex_unlock P mutex w = nosMutexUnlock P mutex w"

definition sys_mutex_free :: "'w pico \<Rightarrow> handle \<Rightarrow> 'w \<Rightarrow> 'w" where
  "sys_mutex_free P mutex w = nosMutexDestroy P mutex w"

section \<open>Semaphores\<close>

definition sys_sem_new :: "'w pico \<Rightarrow> u8 \<Rightarrow> 'w \<Rightarrow> err_t \<times> handle \<times> 'w" where
  "sys_sem_new P count w =
     (let (sem, w) = nosSemaCreate P count 0 ''lwip_s*'' w
      in if sem = None then (ERR_MEM, sem, w) else (ERR_OK, sem, w))"

definition sys_sem_signal :: "'w pico \<Rightarrow> handle \<Rightarrow> 'w \<Rightarrow> 'w" where
  "sys_sem_signal P sem w = nosSemaSignal P sem w"

definition sys_arch_sem_wait :: "'w pico \<Rightarrow> handle \<Rightarrow> u32 \<Rightarrow> 'w \<Rightarrow> u32 \<times> 'w" where
  "sys_arch_sem_wait P sem timeout w =
     (let start = jiffies P w;
          (r, w) = nosSemaWait P sem (if timeout = 0 then INFINITE P else MS P timeout) w
      in if r > 0 then (SYS_ARCH_TIMEOUT P, w)
         else (waited_ms (HZ P) (jiffies P w - start) timeout, w))"

definition sys_sem_free :: "'w pico \<Rightarrow> handle \<Rightarrow> 'w \<Rightarrow> 'w" where
  "sys_sem_free P sem w = nosSemaDestroy P sem w"

section \<open>Mailboxes\<close>

definition DEFAULT_MBOX_SIZE :: int where
  "DEFAULT_MBOX_SIZE = 10"

definition sys_mbox_new :: "'w pico \<Rightarrow> int \<Rightarrow> 'w \<Rightarrow> err_t \<times> handle \<times> 'w" where
  "sys_mbox_new P sz w =
     (let sz = (if sz = 0 then DEFAULT_MBOX_SIZE else sz);
          (mb, w) = uosRingCreate P (sizeof_ptr P) sz w
      in if mb = None then (ERR_MEM, mb, w) else (ERR_OK, mb, SYS_STATS_INC_USED_mbox P w))"

text \<open>
  The operations below take the pointer \<open>mb\<close> itself, which the assertion checks; after it
  the code dereferences the pointer.
\<close>

definition sys_mbox_post :: "'w pico \<Rightarrow> handle option \<Rightarrow> nat \<Rightarrow> 'w \<Rightarrow> 'w res" where
  "sys_mbox_post P mb msg w =
     rbind (LWIP_ASSERT P (mb \<noteq> None \<and> the mb \<noteq> None)) (\<lambda>_.
     rbind (deref mb) (\<lambda>h.
     let (_, w) = uosRingPut P h msg (INFINITE P) w in Inr w))"

definition sys_mbox_trypost :: "'w pico \<Rightarrow> handle option \<Rightarrow> nat \<Rightarrow> 'w \<Rightarrow> (err_t \<times> 'w) res" where
  "sys_mbox_trypost P mb msg w =
     rbind (LWIP_ASSERT P (mb \<noteq> None \<and> the mb \<noteq> None)) (\<lambda>_.
     rbind (deref mb) (\<lambda>h.
     let (ok, w) = uosRingPut P h msg 0 w
     in if \<not> ok then Inr (ERR_MEM, w) else Inr (ERR_OK, w)))"

definition sys_arch_mbox_fetch ::
    "'w pico \<Rightarrow> handle option \<Rightarrow> u32 \<Rightarrow> 'w \<Rightarrow> (u32 \<times> nat option \<times> 'w) res" where
  "sys_arch_mbox_fetch P mb timeout w =
     rbind (LWIP_ASSERT P (mb \<noteq> None \<and> the mb \<noteq> None)) (\<lambda>_.
     rbind (deref mb) (\<lambda>h.
     let start = jiffies P w;
         (msg, w) = uosRingGet P h (if timeout = 0 then INFINITE P else MS P timeout) w
     in if msg = None then Inr (SYS_ARCH_TIMEOUT P, None, w)
        else Inr (waited_ms (HZ P) (jiffies P w - start) timeout, msg, w)))"

definition sys_arch_mbox_tryfetch ::
    "'w pico \<Rightarrow> handle option \<Rightarrow> 'w \<Rightarrow> (u32 \<times> nat option \<times> 'w) res" where
  "sys_arch_mbox_tryfetch P mb w =
     rbind (LWIP_ASSERT P (mb \<noteq> None \<and> the mb \<noteq> None)) (\<lambda>_.
     rbind (deref mb) (\<lambda>h.
     let (msg, w) = uosRingGet P h 0 w
     in if msg = None then Inr (SYS_MBOX_EMPTY P, None, w) else Inr (0, msg, w)))"

definition sys_mbox_free :: "'w pico \<Rightarrow> handle option \<Rightarrow> 'w \<Rightarrow> 'w" where
  "sys_mbox_free P mb w =
     (if mb \<noteq> None \<and> the mb \<noteq> None
      then SYS_STATS_DEC_mbox_used P (uosRingDestroy P (the mb) w) else w)"

section \<open>Protection, threads, initialisation\<close>

definition sys_arch_protect :: "'w pico \<Rightarrow> 'w \<Rightarrow> u32 \<times> 'w" where
  "sys_arch_protect P w = POS_SCHED_LOCK P w"

definition sys_arch_unprotect :: "'w pico \<Rightarrow> u32 \<Rightarrow> 'w \<Rightarrow> 'w" where
  "sys_arch_unprotect P flags w = POS_SCHED_UNLOCK P flags w"

text \<open>The function, its argument, the priority and the stack size, in the order pico]OS wants.\<close>

definition sys_thread_new ::
    "'w pico \<Rightarrow> string \<Rightarrow> nat \<Rightarrow> nat \<Rightarrow> int \<Rightarrow> int \<Rightarrow> 'w \<Rightarrow> handle \<times> 'w" where
  "sys_thread_new P name thread arg stacksize prio w =
     nosTaskCreate P thread arg prio stacksize name w"

definition sys_init :: "'w \<Rightarrow> 'w" where
  "sys_init w = w"

section \<open>What creating operations share\<close>

text \<open>
  The contract lwIP relies on for semaphores, mutexes and mailboxes alike: the stored object
  is valid exactly when the operation reports success, and an invalidated variable is not.
\<close>

locale os_object =
  fixes new :: "'w \<Rightarrow> err_t \<times> handle \<times> 'w"
    and valid :: "handle option \<Rightarrow> bool"
    and set_invalid :: "handle option \<Rightarrow> handle option"
  assumes new_codes: "new w = (e, h, w') \<Longrightarrow> e = (if h = None then ERR_MEM else ERR_OK)"
    and valid_iff: "valid x \<longleftrightarrow> (\<exists>n. x = Some (Some n))"
    and invalidated: "set_invalid x = (if x = None then None else Some None)"
begin

lemma valid_iff_ok: "new w = (e, h, w') \<Longrightarrow> valid (Some h) \<longleftrightarrow> e = ERR_OK"
  using new_codes [of w e h w'] by (auto simp: valid_iff)

lemma new_error: "new w = (e, h, w') \<Longrightarrow> e \<in> {ERR_OK, ERR_MEM}"
  using new_codes [of w e h w'] by auto

lemma not_valid_after_set_invalid: "\<not> valid (set_invalid x)"
  by (auto simp: valid_iff invalidated)

lemma set_invalid_idem: "set_invalid (set_invalid x) = set_invalid x"
  by (simp add: invalidated)

end

interpretation sem: os_object "sys_sem_new P count" sys_sem_valid sys_sem_set_invalid
  for P :: "'w pico" and count
  by unfold_locales
    (auto simp: sys_sem_new_def sys_sem_valid_def sys_sem_set_invalid_def split: prod.splits if_splits)

interpretation mutex: os_object "sys_mutex_new P" sys_mutex_valid sys_mutex_set_invalid
  for P :: "'w pico"
  by unfold_locales
    (auto simp: sys_mutex_new_def sys_mutex_valid_def sys_mutex_set_invalid_def
      split: prod.splits if_splits)

interpretation mbox: os_object "sys_mbox_new P sz" sys_mbox_valid sys_mbox_set_invalid
  for P :: "'w pico" and sz
  by unfold_locales
    (auto simp: sys_mbox_new_def sys_mbox_valid_def sys_mbox_set_invalid_def Let_def
      split: prod.splits if_splits)

section \<open>What waiting operations share\<close>

text \<open>
  A waiting operation, seen as a function of timeout and state to the returned time: it
  either reports the timeout or the elapsed time computed from the jiffy counter.
\<close>

locale timed_wait =
  fixes wait :: "u32 \<Rightarrow> 'w \<Rightarrow> u32"
    and timed_out :: "u32 \<Rightarrow> 'w \<Rightarrow> bool"
    and elapsed :: "u32 \<Rightarrow> 'w \<Rightarrow> u32"
    and hz :: nat
    and timeout_code :: u32
  assumes wait_timeout: "timed_out t w \<Longrightarrow> wait t w = timeout_code"
    and wait_served: "\<not> timed_out t w \<Longrightarrow> wait t w = waited_ms hz (elapsed t w) t"
begin

lemma wait_at_most: "\<not> timed_out t w \<Longrightarrow> wait t w \<le> t"
  by (simp add: wait_served waited_ms_le)

lemma wait_not_zero:
  "0 < hz \<Longrightarrow> hz \<le> 1000 \<Longrightarrow> 0 < t \<Longrightarrow> \<not> timed_out t w \<Longrightarrow> 0 < wait t w"
  by (simp add: wait_served waited_ms_pos)

lemma wait_forever_zero: "\<not> timed_out 0 w \<Longrightarrow> wait 0 w = 0"
  by (simp add: wait_served waited_ms_zero)

lemma wait_exact_ms:
  assumes "\<not> timed_out t w" and "unat (elapsed t w) * 1000 < 2 ^ 32" and "hz < 2 ^ 32"
    and "1000 div hz \<le> unat (elapsed t w) * 1000 div hz"
  shows "unat (wait t w) = min (unat (elapsed t w) * 1000 div hz) (unat t)"
  using assms by (simp add: wait_served waited_ms_exact)

text \<open>
  A served wait with a finite timeout is told apart from an expired one: its result is at
  most the timeout, so it is not the code as long as the timeout is below the code.
\<close>

lemma wait_distinct:
  "t < timeout_code \<Longrightarrow> wait t w = timeout_code \<longleftrightarrow> timed_out t w"
  using wait_at_most [of t w] wait_timeout [of t w] by fastforce

end

text \<open>The real arguments of the two blocking operations.\<close>

definition wait_arg :: "'w pico \<Rightarrow> u32 \<Rightarrow> u32" where
  "wait_arg P timeout = (if timeout = 0 then INFINITE P else MS P timeout)"

definition sem_timed_out :: "'w pico \<Rightarrow> handle \<Rightarrow> u32 \<Rightarrow> 'w \<Rightarrow> bool" where
  "sem_timed_out P sem t w \<longleftrightarrow> fst (nosSemaWait P sem (wait_arg P t) w) > 0"

definition sem_elapsed :: "'w pico \<Rightarrow> handle \<Rightarrow> u32 \<Rightarrow> 'w \<Rightarrow> u32" where
  "sem_elapsed P sem t w = jiffies P (snd (nosSemaWait P sem (wait_arg P t) w)) - jiffies P w"

definition mbox_timed_out :: "'w pico \<Rightarrow> handle \<Rightarrow> u32 \<Rightarrow> 'w \<Rightarrow> bool" where
  "mbox_timed_out P h t w \<longleftrightarrow> fst (uosRingGet P h (wait_arg P t) w) = None"

definition mbox_elapsed :: "'w pico \<Rightarrow> handle \<Rightarrow> u32 \<Rightarrow> 'w \<Rightarrow> u32" where
  "mbox_elapsed P h t w = jiffies P (snd (uosRingGet P h (wait_arg P t) w)) - jiffies P w"

definition mbox_wait :: "'w pico \<Rightarrow> nat \<Rightarrow> u32 \<Rightarrow> 'w \<Rightarrow> u32" where
  "mbox_wait P h t w =
     (case sys_arch_mbox_fetch P (Some (Some h)) t w of Inr (r, _, _) \<Rightarrow> r | Inl _ \<Rightarrow> 0)"

interpretation semwait: timed_wait "\<lambda>t w. fst (sys_arch_sem_wait P sem t w)" "sem_timed_out P sem"
  "sem_elapsed P sem" "HZ P" "SYS_ARCH_TIMEOUT P"
  for P :: "'w pico" and sem
  by unfold_locales
    (simp_all add: sys_arch_sem_wait_def sem_timed_out_def sem_elapsed_def wait_arg_def Let_def
      split_beta)

interpretation fetchwait: timed_wait "mbox_wait P h" "mbox_timed_out P (Some h)"
  "mbox_elapsed P (Some h)" "HZ P" "SYS_ARCH_TIMEOUT P"
  for P :: "'w pico" and h
  by unfold_locales
    (auto simp: mbox_wait_def sys_arch_mbox_fetch_def mbox_timed_out_def mbox_elapsed_def
      wait_arg_def Let_def split_beta LWIP_ASSERT_def)

end
