(* ===== verification/Sys_Mbox.thy ===== *)
theory Sys_Mbox
  imports Sys_Arch
begin

text \<open>
  Mailboxes as bounded queues (\<open>sys_arch.c\<close>). The ring of picoos-micro is a parameter;
  \<open>ring_ok\<close> states what its non-blocking operations document: a put fails exactly on a
  full ring and appends otherwise, a get takes the oldest element, and other rings are not
  touched. The contract \<open>bounded_fifo\<close> is what lwIP expects of a mailbox; its
  interpretation shows that \<open>sys_mbox_trypost\<close> and \<open>sys_arch_mbox_tryfetch\<close> keep it.
\<close>

section \<open>The ring\<close>

text \<open>\<open>ring w h\<close>: capacity and contents of the ring with handle \<open>h\<close>, if it exists.\<close>

type_synonym 'w ring_view = "'w \<Rightarrow> nat \<Rightarrow> (nat \<times> nat list) option"

definition ring_put_ok :: "'w pico \<Rightarrow> 'w ring_view \<Rightarrow> bool" where
  "ring_put_ok P ring \<longleftrightarrow>
     (\<forall>w h c q m. ring w h = Some (c, q) \<longrightarrow>
        fst (uosRingPut P (Some h) m 0 w) = (length q < c) \<and>
        ring (snd (uosRingPut P (Some h) m 0 w)) =
          (ring w)(h \<mapsto> (c, if length q < c then q @ [m] else q)))"

definition ring_get_ok :: "'w pico \<Rightarrow> 'w ring_view \<Rightarrow> bool" where
  "ring_get_ok P ring \<longleftrightarrow>
     (\<forall>w h c q. ring w h = Some (c, q) \<longrightarrow>
        fst (uosRingGet P (Some h) 0 w) = (case q of [] \<Rightarrow> None | m # _ \<Rightarrow> Some m) \<and>
        ring (snd (uosRingGet P (Some h) 0 w)) = (ring w)(h \<mapsto> (c, tl q)))"

definition ring_ok :: "'w pico \<Rightarrow> 'w ring_view \<Rightarrow> bool" where
  "ring_ok P ring \<longleftrightarrow> ring_put_ok P ring \<and> ring_get_ok P ring"

section \<open>The contract of a bounded queue\<close>

datatype 'm fifo_op = Post 'm | Fetch

text \<open>The messages a sequence of operations had accepted and fetched, and the state after it.\<close>

fun fifo_run ::
    "('m \<Rightarrow> 's \<Rightarrow> bool \<times> 's) \<Rightarrow> ('s \<Rightarrow> 'm option \<times> 's) \<Rightarrow> 'm fifo_op list \<Rightarrow> 's \<Rightarrow>
     'm list \<times> 'm list \<times> 's" where
  "fifo_run post fetch [] s = ([], [], s)"
| "fifo_run post fetch (Post m # ops) s =
     (let (ok, s) = post m s; (acc, got, s) = fifo_run post fetch ops s
      in (if ok then m # acc else acc, got, s))"
| "fifo_run post fetch (Fetch # ops) s =
     (let (r, s) = fetch s; (acc, got, s) = fifo_run post fetch ops s
      in (acc, case r of None \<Rightarrow> got | Some m \<Rightarrow> m # got, s))"

locale bounded_fifo =
  fixes post :: "'m \<Rightarrow> 's \<Rightarrow> bool \<times> 's"
    and fetch :: "'s \<Rightarrow> 'm option \<times> 's"
    and contents :: "'s \<Rightarrow> 'm list"
    and capacity :: "'s \<Rightarrow> nat"
    and invar :: "'s \<Rightarrow> bool"
  assumes post_law: "invar s \<Longrightarrow> post m s = (ok, s') \<Longrightarrow>
      ok = (length (contents s) < capacity s) \<and>
      contents s' = (if ok then contents s @ [m] else contents s) \<and>
      capacity s' = capacity s \<and> invar s'"
    and fetch_law: "invar s \<Longrightarrow> fetch s = (r, s') \<Longrightarrow>
      r = (case contents s of [] \<Rightarrow> None | m # _ \<Rightarrow> Some m) \<and>
      contents s' = tl (contents s) \<and> capacity s' = capacity s \<and> invar s'"
begin

text \<open>
  What was in the queue and what was accepted comes out in order; what has not come out yet
  is in the queue.
\<close>

lemma run_fifo:
  "invar s \<Longrightarrow> fifo_run post fetch ops s = (acc, got, s') \<Longrightarrow>
   invar s' \<and> capacity s' = capacity s \<and> contents s @ acc = got @ contents s'"
proof (induction ops arbitrary: s acc got s')
  case Nil
  then show ?case by simp
next
  case (Cons x ops)
  show ?case
  proof (cases x)
    case (Post m)
    obtain ok s1 where p: "post m s = (ok, s1)" by fastforce
    obtain acc1 got1 s2 where r: "fifo_run post fetch ops s1 = (acc1, got1, s2)"
      by (metis prod_cases3)
    note l = post_law [OF Cons.prems(1) p]
    from Cons.IH [OF _ r] l Cons.prems(2) Post p r show ?thesis by (auto split: if_splits)
  next
    case Fetch
    obtain m s1 where p: "fetch s = (m, s1)" by fastforce
    obtain acc1 got1 s2 where r: "fifo_run post fetch ops s1 = (acc1, got1, s2)"
      by (metis prod_cases3)
    note l = fetch_law [OF Cons.prems(1) p]
    from Cons.IH [OF _ r] l Cons.prems(2) Fetch p r show ?thesis
      by (cases "contents s") auto
  qed
qed

lemma run_bounded:
  "invar s \<Longrightarrow> length (contents s) \<le> capacity s \<Longrightarrow> fifo_run post fetch ops s = (acc, got, s') \<Longrightarrow>
   length (contents s') \<le> capacity s"
proof (induction ops arbitrary: s acc got s')
  case Nil
  then show ?case by simp
next
  case (Cons x ops)
  show ?case
  proof (cases x)
    case (Post m)
    obtain ok s1 where p: "post m s = (ok, s1)" by fastforce
    obtain acc1 got1 s2 where r: "fifo_run post fetch ops s1 = (acc1, got1, s2)"
      by (metis prod_cases3)
    note l = post_law [OF Cons.prems(1) p]
    from Cons.IH [OF _ _ r] l Cons.prems(2,3) Post p r show ?thesis by (auto split: if_splits)
  next
    case Fetch
    obtain m s1 where p: "fetch s = (m, s1)" by fastforce
    obtain acc1 got1 s2 where r: "fifo_run post fetch ops s1 = (acc1, got1, s2)"
      by (metis prod_cases3)
    note l = fetch_law [OF Cons.prems(1) p]
    from Cons.IH [OF _ _ r] l Cons.prems(2,3) Fetch p r show ?thesis
      by (cases "contents s") auto
  qed
qed

end

section \<open>A mailbox is a bounded queue\<close>

definition mbox_post :: "'w pico \<Rightarrow> nat \<Rightarrow> nat \<Rightarrow> 'w \<Rightarrow> bool \<times> 'w" where
  "mbox_post P h m w =
     (case sys_mbox_trypost P (Some (Some h)) m w of
        Inr (e, w') \<Rightarrow> (e = ERR_OK, w') | Inl _ \<Rightarrow> (False, w))"

definition mbox_get :: "'w pico \<Rightarrow> nat \<Rightarrow> 'w \<Rightarrow> nat option \<times> 'w" where
  "mbox_get P h w =
     (case sys_arch_mbox_tryfetch P (Some (Some h)) w of
        Inr (r, m, w') \<Rightarrow> (if r = 0 then m else None, w') | Inl _ \<Rightarrow> (None, w))"

lemma trypost_eq:
  "sys_mbox_trypost P (Some (Some h)) m w =
   Inr (if fst (uosRingPut P (Some h) m 0 w) then ERR_OK else ERR_MEM, snd (uosRingPut P (Some h) m 0 w))"
  by (simp add: sys_mbox_trypost_def LWIP_ASSERT_def split_beta Let_def)

lemma tryfetch_eq:
  "sys_arch_mbox_tryfetch P (Some (Some h)) w =
   Inr (if fst (uosRingGet P (Some h) 0 w) = None then SYS_MBOX_EMPTY P else 0,
     fst (uosRingGet P (Some h) 0 w), snd (uosRingGet P (Some h) 0 w))"
  by (cases "uosRingGet P (Some h) 0 w") (simp add: sys_arch_mbox_tryfetch_def LWIP_ASSERT_def)

lemma mbox_post_eq: "mbox_post P h m w = uosRingPut P (Some h) m 0 w"
  by (simp add: mbox_post_def trypost_eq prod_eq_iff)

text \<open>\<open>SYS_MBOX_EMPTY\<close> of lwIP is not 0, so the result tells whether there was a message.\<close>

lemma mbox_get_eq: "SYS_MBOX_EMPTY P \<noteq> 0 \<Longrightarrow> mbox_get P h w = uosRingGet P (Some h) 0 w"
  by (cases "uosRingGet P (Some h) 0 w") (auto simp: mbox_get_def tryfetch_eq)

definition mbox_contents :: "'w ring_view \<Rightarrow> nat \<Rightarrow> 'w \<Rightarrow> nat list" where
  "mbox_contents ring h w = (case ring w h of None \<Rightarrow> [] | Some (_, q) \<Rightarrow> q)"

definition mbox_capacity :: "'w ring_view \<Rightarrow> nat \<Rightarrow> 'w \<Rightarrow> nat" where
  "mbox_capacity ring h w = (case ring w h of None \<Rightarrow> 0 | Some (c, _) \<Rightarrow> c)"

definition mbox_live :: "'w pico \<Rightarrow> 'w ring_view \<Rightarrow> nat \<Rightarrow> 'w \<Rightarrow> bool" where
  "mbox_live P ring h w \<longleftrightarrow>
     ring_ok P ring \<and> SYS_MBOX_EMPTY P \<noteq> 0 \<and> ring w h \<noteq> None"

interpretation mboxq: bounded_fifo "mbox_post P h" "mbox_get P h" "mbox_contents ring h"
  "mbox_capacity ring h" "mbox_live P ring h"
  for P :: "'w pico" and ring h
proof
  fix w m ok w'
  assume live: "mbox_live P ring h w" and p: "mbox_post P h m w = (ok, w')"
  from live obtain c q where q: "ring w h = Some (c, q)" and ok: "ring_ok P ring"
    and e: "SYS_MBOX_EMPTY P \<noteq> 0"
    by (auto simp: mbox_live_def)
  then have "fst (uosRingPut P (Some h) m 0 w) = (length q < c) \<and>
      ring (snd (uosRingPut P (Some h) m 0 w)) =
        (ring w)(h \<mapsto> (c, if length q < c then q @ [m] else q))"
    unfolding ring_ok_def ring_put_ok_def by blast
  with p q ok e show "ok = (length (mbox_contents ring h w) < mbox_capacity ring h w) \<and>
      mbox_contents ring h w' =
        (if ok then mbox_contents ring h w @ [m] else mbox_contents ring h w) \<and>
      mbox_capacity ring h w' = mbox_capacity ring h w \<and> mbox_live P ring h w'"
    by (auto simp: mbox_post_eq mbox_contents_def mbox_capacity_def mbox_live_def)
next
  fix w r w'
  assume live: "mbox_live P ring h w" and g: "mbox_get P h w = (r, w')"
  from live obtain c q where q: "ring w h = Some (c, q)" and ok: "ring_ok P ring"
    and e: "SYS_MBOX_EMPTY P \<noteq> 0"
    by (auto simp: mbox_live_def)
  then have "fst (uosRingGet P (Some h) 0 w) = (case q of [] \<Rightarrow> None | m # _ \<Rightarrow> Some m) \<and>
      ring (snd (uosRingGet P (Some h) 0 w)) = (ring w)(h \<mapsto> (c, tl q))"
    unfolding ring_ok_def ring_get_ok_def by blast
  with g q ok e show "r = (case mbox_contents ring h w of [] \<Rightarrow> None | m # _ \<Rightarrow> Some m) \<and>
      mbox_contents ring h w' = tl (mbox_contents ring h w) \<and>
      mbox_capacity ring h w' = mbox_capacity ring h w \<and> mbox_live P ring h w'"
    by (auto simp: mbox_get_eq mbox_contents_def mbox_capacity_def mbox_live_def)
qed

end
