(* ===== verification/Sys_Tasks.thy ===== *)
theory Sys_Tasks
  imports Sys_Mbox "HOL-Library.Sublist"
begin

text \<open>
  A mailbox between several tasks (\<open>sys_arch.c\<close>): any number of tasks post, waiting for room
  (\<open>sys_mbox_post\<close>) or not (\<open>sys_mbox_trypost\<close>), and any number fetch, waiting for a message
  (\<open>sys_arch_mbox_fetch\<close>) or not (\<open>sys_arch_mbox_tryfetch\<close>), in any interleaving. The contract
  of the queue is extended by the waiting operations (\<open>blocking_fifo\<close>).
\<close>

section \<open>The ring, waiting\<close>

text \<open>
  With room a put succeeds and with an element a get does, whatever the timeout; a get with a
  finite timeout gives up on a ring that stays empty. A call that would wait without a limit
  does not return, so nothing is said of it.
\<close>

definition ring_wait_ok :: "'w pico \<Rightarrow> 'w ring_view \<Rightarrow> bool" where
  "ring_wait_ok P ring \<longleftrightarrow>
     (\<forall>w h c q m t. ring w h = Some (c, q) \<longrightarrow> length q < c \<longrightarrow>
        ring (snd (uosRingPut P (Some h) m t w)) = (ring w)(h \<mapsto> (c, q @ [m]))) \<and>
     (\<forall>w h c m q t. ring w h = Some (c, m # q) \<longrightarrow>
        fst (uosRingGet P (Some h) t w) = Some m \<and>
        ring (snd (uosRingGet P (Some h) t w)) = (ring w)(h \<mapsto> (c, q))) \<and>
     (\<forall>w h c t. ring w h = Some (c, []) \<longrightarrow> t \<noteq> INFINITE P \<longrightarrow>
        fst (uosRingGet P (Some h) t w) = None \<and> ring (snd (uosRingGet P (Some h) t w)) = ring w)"

lemma ring_wait_put:
  "ring_wait_ok P ring \<Longrightarrow> ring w h = Some (c, q) \<Longrightarrow> length q < c \<Longrightarrow>
   ring (snd (uosRingPut P (Some h) m t w)) = (ring w)(h \<mapsto> (c, q @ [m]))"
  unfolding ring_wait_ok_def by blast

lemma ring_wait_get:
  "ring_wait_ok P ring \<Longrightarrow> ring w h = Some (c, m # q) \<Longrightarrow>
   fst (uosRingGet P (Some h) t w) = Some m \<and>
   ring (snd (uosRingGet P (Some h) t w)) = (ring w)(h \<mapsto> (c, q))"
  unfolding ring_wait_ok_def by blast

lemma ring_wait_expired:
  "ring_wait_ok P ring \<Longrightarrow> ring w h = Some (c, []) \<Longrightarrow> t \<noteq> INFINITE P \<Longrightarrow>
   fst (uosRingGet P (Some h) t w) = None \<and> ring (snd (uosRingGet P (Some h) t w)) = ring w"
  unfolding ring_wait_ok_def by blast

section \<open>The contract with waiting operations\<close>

locale blocking_fifo = bounded_fifo post fetch contents capacity invar
  for post :: "'m \<Rightarrow> 's \<Rightarrow> bool \<times> 's"
    and fetch :: "'s \<Rightarrow> 'm option \<times> 's"
    and contents :: "'s \<Rightarrow> 'm list"
    and capacity :: "'s \<Rightarrow> nat"
    and invar :: "'s \<Rightarrow> bool" +
  fixes post_wait :: "'m \<Rightarrow> 's \<Rightarrow> 's res"
    and fetch_wait :: "'t \<Rightarrow> 's \<Rightarrow> 'm option \<times> 's"
    and expires :: "'t \<Rightarrow> bool"
  assumes post_wait_law: "invar s \<Longrightarrow> length (contents s) < capacity s \<Longrightarrow>
      \<exists>s'. post_wait m s = Inr s' \<and> contents s' = contents s @ [m] \<and> capacity s' = capacity s \<and> invar s'"
    and fetch_wait_law: "invar s \<Longrightarrow> fetch_wait t s = (r, s') \<Longrightarrow> contents s \<noteq> [] \<or> expires t \<Longrightarrow>
      r = (case contents s of [] \<Rightarrow> None | m # _ \<Rightarrow> Some m) \<and>
      contents s' = tl (contents s) \<and> capacity s' = capacity s \<and> invar s'"
begin

text \<open>A waiting operation that need not wait does what the other one does.\<close>

lemma post_wait_post:
  assumes "invar s" and "length (contents s) < capacity s"
  shows "\<exists>s1 s2. post_wait m s = Inr s1 \<and> post m s = (True, s2) \<and> contents s1 = contents s2"
proof -
  from post_wait_law [OF assms] obtain s1 where s1: "post_wait m s = Inr s1"
    "contents s1 = contents s @ [m]" by blast
  obtain ok s2 where s2: "post m s = (ok, s2)" by fastforce
  from post_law [OF assms(1) s2] assms(2) have "ok" "contents s2 = contents s @ [m]" by simp_all
  with s1 s2 show ?thesis by simp
qed

lemma fetch_wait_fetch:
  assumes "invar s" and "contents s \<noteq> [] \<or> expires t"
  shows "fst (fetch_wait t s) = fst (fetch s) \<and>
    contents (snd (fetch_wait t s)) = contents (snd (fetch s))"
  using fetch_wait_law [OF assms(1) prod.collapse [symmetric] assms(2)]
    fetch_law [OF assms(1) prod.collapse [symmetric]] by simp

end

definition mbox_post_wait :: "'w pico \<Rightarrow> nat \<Rightarrow> nat \<Rightarrow> 'w \<Rightarrow> 'w res" where
  "mbox_post_wait P h m w = sys_mbox_post P (Some (Some h)) m w"

definition mbox_get_wait :: "'w pico \<Rightarrow> nat \<Rightarrow> u32 \<Rightarrow> 'w \<Rightarrow> nat option \<times> 'w" where
  "mbox_get_wait P h t w =
     (case sys_arch_mbox_fetch P (Some (Some h)) t w of Inr (_, m, w') \<Rightarrow> (m, w') | Inl _ \<Rightarrow> (None, w))"

text \<open>
  How long a call waits at the ring is its own choice, the timeout it passes. \<open>ring_log P\<close> is
  \<open>P\<close> with a ring that only records the timeouts: run on it, a call gives the list of its
  waits. The call returns, whatever the ring holds, when each of them is limited.
\<close>

definition ring_log :: "'w pico \<Rightarrow> u32 list pico" where
  "ring_log P =
     \<lparr> HZ = HZ P, MS = MS P, INFINITE = INFINITE P, SYS_ARCH_TIMEOUT = SYS_ARCH_TIMEOUT P,
       SYS_MBOX_EMPTY = SYS_MBOX_EMPTY P, LWIP_DEBUG = LWIP_DEBUG P, LWIP_NOASSERT = LWIP_NOASSERT P,
       jiffies = (\<lambda>_. 0),
       nosMutexCreate = (\<lambda>_ _ ts. (None, ts)), nosMutexLock = (\<lambda>_ ts. ts),
       nosMutexUnlock = (\<lambda>_ ts. ts), nosMutexDestroy = (\<lambda>_ ts. ts),
       nosSemaCreate = (\<lambda>_ _ _ ts. (None, ts)), nosSemaSignal = (\<lambda>_ ts. ts),
       nosSemaWait = (\<lambda>_ _ ts. (0, ts)), nosSemaDestroy = (\<lambda>_ ts. ts),
       uosRingCreate = (\<lambda>_ _ ts. (None, ts)), uosRingPut = (\<lambda>_ _ t ts. (True, ts @ [t])),
       uosRingGet = (\<lambda>_ t ts. (None, ts @ [t])), uosRingDestroy = (\<lambda>_ ts. ts),
       SYS_STATS_INC_USED_mbox = (\<lambda>ts. ts), SYS_STATS_DEC_mbox_used = (\<lambda>ts. ts),
       POS_SCHED_LOCK = (\<lambda>ts. (0, ts)), POS_SCHED_UNLOCK = (\<lambda>_ ts. ts),
       nosTaskCreate = (\<lambda>_ _ _ _ _ ts. (None, ts)), sizeof_ptr = sizeof_ptr P \<rparr>"

definition limited :: "'w pico \<Rightarrow> u32 list \<Rightarrow> bool" where
  "limited P ts \<longleftrightarrow> (\<forall>t \<in> set ts. t \<noteq> INFINITE P)"

definition mbox_gives_up :: "'w pico \<Rightarrow> nat \<Rightarrow> nat \<Rightarrow> bool" where
  "mbox_gives_up P h m \<longleftrightarrow>
     (case sys_mbox_post (ring_log P) (Some (Some h)) m [] of Inr ts \<Rightarrow> limited P ts | Inl _ \<Rightarrow> False)"

definition mbox_expires :: "'w pico \<Rightarrow> nat \<Rightarrow> u32 \<Rightarrow> bool" where
  "mbox_expires P h t \<longleftrightarrow>
     (case sys_arch_mbox_fetch (ring_log P) (Some (Some h)) t [] of
        Inr (_, _, ts) \<Rightarrow> limited P ts | Inl _ \<Rightarrow> False)"

definition mbox_live_wait :: "'w pico \<Rightarrow> 'w ring_view \<Rightarrow> nat \<Rightarrow> 'w \<Rightarrow> bool" where
  "mbox_live_wait P ring h w \<longleftrightarrow> ring_wait_ok P ring \<and> mbox_live P ring h w"

lemma post_eq: "sys_mbox_post P (Some (Some h)) m w = Inr (snd (uosRingPut P (Some h) m (INFINITE P) w))"
  by (simp add: sys_mbox_post_def LWIP_ASSERT_def split_beta Let_def)

lemma mbox_get_wait_eq: "mbox_get_wait P h t w = uosRingGet P (Some h) (wait_arg P t) w"
  by (cases "uosRingGet P (Some h) (wait_arg P t) w")
    (auto simp: mbox_get_wait_def sys_arch_mbox_fetch_def LWIP_ASSERT_def wait_arg_def Let_def)

text \<open>A post waits without a limit, a fetch as its caller says.\<close>

lemma post_never_gives_up: "\<not> mbox_gives_up P h m"
  by (simp add: mbox_gives_up_def post_eq limited_def) (simp add: ring_log_def)

lemma mbox_expires_iff: "mbox_expires P h t \<longleftrightarrow> wait_arg P t \<noteq> INFINITE P"
  by (simp add: mbox_expires_def sys_arch_mbox_fetch_def LWIP_ASSERT_def limited_def)
    (simp add: ring_log_def wait_arg_def limited_def)

interpretation mboxb: blocking_fifo "mbox_post P h" "mbox_get P h" "mbox_contents ring h"
  "mbox_capacity ring h" "mbox_live_wait P ring h" "mbox_post_wait P h" "mbox_get_wait P h" "mbox_expires P h"
  for P :: "'w pico" and ring h
proof
  fix w m ok w'
  assume "mbox_live_wait P ring h w" and "mbox_post P h m w = (ok, w')"
  then show "ok = (length (mbox_contents ring h w) < mbox_capacity ring h w) \<and>
      mbox_contents ring h w' = (if ok then mbox_contents ring h w @ [m] else mbox_contents ring h w) \<and>
      mbox_capacity ring h w' = mbox_capacity ring h w \<and> mbox_live_wait P ring h w'"
    using mboxq.post_law [of P ring h w m ok w'] by (simp add: mbox_live_wait_def)
next
  fix w r w'
  assume "mbox_live_wait P ring h w" and "mbox_get P h w = (r, w')"
  then show "r = (case mbox_contents ring h w of [] \<Rightarrow> None | m # _ \<Rightarrow> Some m) \<and>
      mbox_contents ring h w' = tl (mbox_contents ring h w) \<and>
      mbox_capacity ring h w' = mbox_capacity ring h w \<and> mbox_live_wait P ring h w'"
    using mboxq.fetch_law [of P ring h w r w'] by (simp add: mbox_live_wait_def)
next
  fix w m
  assume live: "mbox_live_wait P ring h w" and room: "length (mbox_contents ring h w) < mbox_capacity ring h w"
  then obtain c q where q: "ring w h = Some (c, q)" by (auto simp: mbox_live_wait_def mbox_live_def)
  with live room ring_wait_put [of P ring w h c q m "INFINITE P"]
  have "ring (snd (uosRingPut P (Some h) m (INFINITE P) w)) = (ring w)(h \<mapsto> (c, q @ [m]))"
    by (simp add: mbox_live_wait_def mbox_contents_def mbox_capacity_def)
  with live q show "\<exists>w'. mbox_post_wait P h m w = Inr w' \<and>
      mbox_contents ring h w' = mbox_contents ring h w @ [m] \<and>
      mbox_capacity ring h w' = mbox_capacity ring h w \<and> mbox_live_wait P ring h w'"
    by (simp add: mbox_post_wait_def post_eq mbox_live_wait_def mbox_live_def mbox_contents_def mbox_capacity_def)
next
  fix w t r w'
  assume live: "mbox_live_wait P ring h w" and get: "mbox_get_wait P h t w = (r, w')"
    and wait: "mbox_contents ring h w \<noteq> [] \<or> mbox_expires P h t"
  from live obtain c q where q: "ring w h = Some (c, q)" by (auto simp: mbox_live_wait_def mbox_live_def)
  have e: "r = fst (uosRingGet P (Some h) (wait_arg P t) w)" "w' = snd (uosRingGet P (Some h) (wait_arg P t) w)"
    using get by (simp_all add: mbox_get_wait_eq)
  show "r = (case mbox_contents ring h w of [] \<Rightarrow> None | m # _ \<Rightarrow> Some m) \<and>
      mbox_contents ring h w' = tl (mbox_contents ring h w) \<and>
      mbox_capacity ring h w' = mbox_capacity ring h w \<and> mbox_live_wait P ring h w'"
  proof (cases q)
    case Nil
    with live q wait ring_wait_expired [of P ring w h c "wait_arg P t"] show ?thesis
      by (simp add: e mbox_live_wait_def mbox_live_def mbox_contents_def mbox_capacity_def mbox_expires_iff)
  next
    case (Cons m q')
    with live q ring_wait_get [of P ring w h c m q' "wait_arg P t"] show ?thesis
      by (simp add: e mbox_live_wait_def mbox_live_def mbox_contents_def mbox_capacity_def)
  qed
qed

section \<open>Interleavings\<close>

text \<open>
  What each task still wants to post, the messages the mailbox accepted (with the task that
  posted them) and the messages fetched, in order.
\<close>

datatype posting = Post_wait nat | Post_try nat

fun posted_msg :: "posting \<Rightarrow> nat" where
  "posted_msg (Post_wait m) = m"
| "posted_msg (Post_try m) = m"

record 'w mbox_sys =
  mb_state :: 'w
  todo :: "nat \<Rightarrow> posting list"
  posted :: "(nat \<times> nat) list"
  fetched :: "nat list"

text \<open>
  A step is one operation that returns. \<open>sys_mbox_post\<close> returns once there is room, and at any
  time when the timeout it passes to the ring is limited; its task then takes the message for
  posted, since the function reports nothing. \<open>sys_arch_mbox_fetch\<close> returns once there is a
  message, and on an empty mailbox when the timeout it passes to the ring is limited.
\<close>

inductive mbox_step :: "'w pico \<Rightarrow> 'w ring_view \<Rightarrow> nat \<Rightarrow> 'w mbox_sys \<Rightarrow> 'w mbox_sys \<Rightarrow> bool"
  for P ring h where
    Posted: "todo s i = Post_wait m # ps \<Longrightarrow>
      length (mbox_contents ring h (mb_state s)) < mbox_capacity ring h (mb_state s) \<or>
        mbox_gives_up P h m \<Longrightarrow>
      sys_mbox_post P (Some (Some h)) m (mb_state s) = Inr w \<Longrightarrow>
      mbox_step P ring h s (s\<lparr>mb_state := w, todo := (todo s)(i := ps), posted := posted s @ [(i, m)]\<rparr>)"
  | Tried: "todo s i = Post_try m # ps \<Longrightarrow>
      sys_mbox_trypost P (Some (Some h)) m (mb_state s) = Inr (e, w) \<Longrightarrow>
      mbox_step P ring h s (s\<lparr>mb_state := w, todo := (todo s)(i := ps),
        posted := (if e = ERR_OK then posted s @ [(i, m)] else posted s)\<rparr>)"
  | Fetched: "mbox_contents ring h (mb_state s) \<noteq> [] \<or> mbox_expires P h t \<Longrightarrow>
      sys_arch_mbox_fetch P (Some (Some h)) t (mb_state s) = Inr (r, mo, w) \<Longrightarrow>
      mbox_step P ring h s (s\<lparr>mb_state := w, fetched := fetched s @ (case mo of None \<Rightarrow> [] | Some m \<Rightarrow> [m])\<rparr>)"
  | Fetch_tried: "sys_arch_mbox_tryfetch P (Some (Some h)) (mb_state s) = Inr (r, mo, w) \<Longrightarrow>
      mbox_step P ring h s (s\<lparr>mb_state := w, fetched := fetched s @ (case mo of None \<Rightarrow> [] | Some m \<Rightarrow> [m])\<rparr>)"

inductive_cases mbox_stepE: "mbox_step P ring h s s'"

text \<open>What a step does to the contents of the mailbox, in each of the four cases.\<close>

lemma mbox_step_cases:
  assumes "mbox_live_wait P ring h (mb_state s)" and "mbox_step P ring h s s'"
  obtains (accepted) i p ps where "todo s i = p # ps" "todo s' = (todo s)(i := ps)"
      "posted s' = posted s @ [(i, posted_msg p)]" "fetched s' = fetched s"
      "mbox_contents ring h (mb_state s') = mbox_contents ring h (mb_state s) @ [posted_msg p]"
      "length (mbox_contents ring h (mb_state s)) < mbox_capacity ring h (mb_state s)"
      "mbox_capacity ring h (mb_state s') = mbox_capacity ring h (mb_state s)"
      "mbox_live_wait P ring h (mb_state s')"
  | (refused) i m ps where "todo s i = Post_try m # ps" "todo s' = (todo s)(i := ps)"
      "posted s' = posted s" "fetched s' = fetched s"
      "mbox_contents ring h (mb_state s') = mbox_contents ring h (mb_state s)"
      "mbox_capacity ring h (mb_state s') = mbox_capacity ring h (mb_state s)"
      "mbox_live_wait P ring h (mb_state s')"
  | (taken) m where "mbox_contents ring h (mb_state s) = m # mbox_contents ring h (mb_state s')"
      "todo s' = todo s" "posted s' = posted s" "fetched s' = fetched s @ [m]"
      "mbox_capacity ring h (mb_state s') = mbox_capacity ring h (mb_state s)"
      "mbox_live_wait P ring h (mb_state s')"
  | (empty) "mbox_contents ring h (mb_state s) = []" "mbox_contents ring h (mb_state s') = []"
      "todo s' = todo s" "posted s' = posted s" "fetched s' = fetched s"
      "mbox_capacity ring h (mb_state s') = mbox_capacity ring h (mb_state s)"
      "mbox_live_wait P ring h (mb_state s')"
  using assms(2)
proof (cases rule: mbox_step.cases)
  case (Posted i m ps w)
  then have w: "mbox_post_wait P h m (mb_state s) = Inr w" by (simp add: mbox_post_wait_def)
  have room: "length (mbox_contents ring h (mb_state s)) < mbox_capacity ring h (mb_state s)"
    using Posted(3) post_never_gives_up by blast
  with w mboxb.post_wait_law [OF assms(1) room, of m] Posted show thesis
    by (intro accepted [of i "Post_wait m" ps]) auto
next
  case (Tried i m ps e w)
  then have p: "mbox_post P h m (mb_state s) = (e = ERR_OK, w)" by (simp add: mbox_post_def)
  from mboxb.post_law [OF assms(1) p] Tried show thesis
    by (cases "e = ERR_OK") (auto intro: accepted [of i "Post_try m" ps] refused [of i m ps])
next
  case (Fetched t r mo w)
  then have "mbox_get_wait P h t (mb_state s) = (mo, w)" by (simp add: mbox_get_wait_def)
  from mboxb.fetch_wait_law [OF assms(1) this Fetched(2)] Fetched show thesis
    by (cases "mbox_contents ring h (mb_state s)") (auto intro: taken empty)
next
  case (Fetch_tried r mo w)
  have "SYS_MBOX_EMPTY P \<noteq> 0" using assms(1) by (simp add: mbox_live_wait_def mbox_live_def)
  with Fetch_tried have "mbox_get P h (mb_state s) = (mo, w)"
    by (auto simp: mbox_get_def tryfetch_eq split: if_splits)
  from mboxb.fetch_law [OF assms(1) this] Fetch_tried show thesis
    by (cases "mbox_contents ring h (mb_state s)") (auto intro: taken empty)
qed

text \<open>
  A step is of use when it posts or fetches, not when a fetch finds the mailbox empty. A run
  with the number of its useful steps.
\<close>

definition useful :: "'w mbox_sys \<Rightarrow> 'w mbox_sys \<Rightarrow> bool" where
  "useful s s' \<longleftrightarrow> todo s' \<noteq> todo s \<or> fetched s' \<noteq> fetched s"

inductive mbox_run :: "'w pico \<Rightarrow> 'w ring_view \<Rightarrow> nat \<Rightarrow> 'w mbox_sys \<Rightarrow> nat \<Rightarrow> 'w mbox_sys \<Rightarrow> bool"
  for P ring h s where
    Begin: "mbox_run P ring h s 0 s"
  | Next: "mbox_run P ring h s n s' \<Longrightarrow> mbox_step P ring h s' s'' \<Longrightarrow>
      mbox_run P ring h s (if useful s' s'' then Suc n else n) s''"

section \<open>Nothing lost, nothing reordered\<close>

definition sent_by :: "nat \<Rightarrow> 'w mbox_sys \<Rightarrow> nat list" where
  "sent_by i s = map snd (filter (\<lambda>x. fst x = i) (posted s))"

fun must_post :: "posting list \<Rightarrow> nat list" where
  "must_post [] = []"
| "must_post (Post_wait m # ps) = m # must_post ps"
| "must_post (Post_try m # ps) = must_post ps"

lemma must_post_append [simp]: "must_post (ps @ ps') = must_post ps @ must_post ps'"
  by (induction ps rule: must_post.induct) simp_all

text \<open>
  From a state in which nothing has been posted or fetched yet: the messages come out in the
  order they went in; of what a task has posted, in its own order, the mailbox accepted at
  least everything it waited with.
\<close>

definition tasks_inv :: "'w ring_view \<Rightarrow> nat \<Rightarrow> 'w mbox_sys \<Rightarrow> 'w mbox_sys \<Rightarrow> bool" where
  "tasks_inv ring h s0 s \<longleftrightarrow>
     mbox_contents ring h (mb_state s0) @ map snd (posted s) = fetched s @ mbox_contents ring h (mb_state s) \<and>
     length (mbox_contents ring h (mb_state s)) \<le> mbox_capacity ring h (mb_state s) \<and>
     mbox_capacity ring h (mb_state s) = mbox_capacity ring h (mb_state s0) \<and>
     (\<forall>i. \<exists>ps. todo s0 i = ps @ todo s i \<and> subseq (sent_by i s) (map posted_msg ps) \<and>
        subseq (must_post ps) (sent_by i s))"

lemma must_post_subseq: "subseq (must_post [p]) [posted_msg p]"
  by (cases p) simp_all

lemma tasks_inv_step:
  assumes "mbox_live_wait P ring h (mb_state s)" and "tasks_inv ring h s0 s" and "mbox_step P ring h s s'"
  shows "tasks_inv ring h s0 s'"
  using assms(1,3)
proof (cases rule: mbox_step_cases)
  case (accepted i p ps)
  have "\<exists>ps. todo s0 j = ps @ todo s' j \<and> subseq (sent_by j s') (map posted_msg ps) \<and>
      subseq (must_post ps) (sent_by j s')" for j
  proof -
    from assms(2) obtain ds where ds: "todo s0 j = ds @ todo s j" "subseq (sent_by j s) (map posted_msg ds)"
      "subseq (must_post ds) (sent_by j s)" unfolding tasks_inv_def by blast
    show ?thesis
    proof (cases "j = i")
      case True
      have "sent_by j s' = sent_by j s @ [posted_msg p]" using accepted True by (simp add: sent_by_def)
      with ds accepted True must_post_subseq [of p] show ?thesis
        by (intro exI [of _ "ds @ [p]"]) (auto intro: list_emb_append_mono)
    next
      case False
      with ds accepted show ?thesis by (intro exI [of _ ds]) (simp add: sent_by_def)
    qed
  qed
  with assms(2) accepted show ?thesis by (simp add: tasks_inv_def)
next
  case (refused i m ps)
  have "\<exists>ps. todo s0 j = ps @ todo s' j \<and> subseq (sent_by j s') (map posted_msg ps) \<and>
      subseq (must_post ps) (sent_by j s')" for j
  proof -
    from assms(2) obtain ds where ds: "todo s0 j = ds @ todo s j" "subseq (sent_by j s) (map posted_msg ds)"
      "subseq (must_post ds) (sent_by j s)" unfolding tasks_inv_def by blast
    show ?thesis
    proof (cases "j = i")
      case True
      with ds refused show ?thesis
        by (intro exI [of _ "ds @ [Post_try m]"]) (auto simp: sent_by_def intro: list_emb_append2 subseq_rev_drop_many)
    next
      case False
      with ds refused show ?thesis by (intro exI [of _ ds]) (simp add: sent_by_def)
    qed
  qed
  with assms(2) refused show ?thesis by (simp add: tasks_inv_def)
next
  case (taken m)
  with assms(2) show ?thesis by (auto simp: tasks_inv_def sent_by_def)
next
  case empty
  with assms(2) show ?thesis by (simp add: tasks_inv_def sent_by_def)
qed

definition tasks_start :: "'w pico \<Rightarrow> 'w ring_view \<Rightarrow> nat \<Rightarrow> 'w mbox_sys \<Rightarrow> bool" where
  "tasks_start P ring h s \<longleftrightarrow> mbox_live_wait P ring h (mb_state s) \<and> posted s = [] \<and> fetched s = [] \<and>
     length (mbox_contents ring h (mb_state s)) \<le> mbox_capacity ring h (mb_state s)"

lemma mbox_step_live:
  assumes "mbox_live_wait P ring h (mb_state s)" and "mbox_step P ring h s s'"
  shows "mbox_live_wait P ring h (mb_state s')"
  by (rule mbox_step_cases [OF assms])

lemma tasks_inv_run:
  assumes "tasks_start P ring h s0" and "mbox_run P ring h s0 n s"
  shows "mbox_live_wait P ring h (mb_state s) \<and> tasks_inv ring h s0 s"
  using assms(2)
proof induction
  case Begin
  with assms(1) show ?case by (simp add: tasks_start_def tasks_inv_def sent_by_def)
next
  case (Next n s s')
  then show ?case using tasks_inv_step [of P ring h s s0 s'] mbox_step_live by blast
qed

section \<open>Everything is delivered\<close>

text \<open>Each message to post costs a step to post and one to fetch.\<close>

definition work :: "'w ring_view \<Rightarrow> nat \<Rightarrow> nat \<Rightarrow> 'w mbox_sys \<Rightarrow> nat" where
  "work ring h n s = 2 * (\<Sum>i<n. length (todo s i)) + length (mbox_contents ring h (mb_state s))"

lemma sum_todo_update:
  fixes f :: "nat \<Rightarrow> 'a list"
  assumes "i < n" and "f i = p # ps"
  shows "(\<Sum>j<n. length (f j)) = Suc (\<Sum>j<n. length ((f(i := ps)) j))"
proof -
  have "(\<Sum>j<n. length (f j)) = length (f i) + (\<Sum>j\<in>{..<n} - {i}. length (f j))"
    using assms(1) by (intro sum.remove) simp_all
  moreover have "(\<Sum>j<n. length ((f(i := ps)) j)) =
      length ps + (\<Sum>j\<in>{..<n} - {i}. length ((f(i := ps)) j))"
    using assms(1) sum.remove [of "{..<n}" i "\<lambda>j. length ((f(i := ps)) j)"] by simp
  ultimately show ?thesis using assms(2) by simp
qed

lemma work_step:
  assumes "mbox_live_wait P ring h (mb_state s)" and "mbox_step P ring h s s'"
    and "\<And>i. n \<le> i \<Longrightarrow> todo s i = []"
  shows "(if useful s s' then Suc (work ring h n s') else work ring h n s') \<le> work ring h n s \<and>
    (\<forall>i\<ge>n. todo s' i = [])"
  using assms(1,2)
proof (cases rule: mbox_step_cases)
  case (accepted i p ps)
  then have "i < n" using assms(3) [of i] by (cases "i < n") auto
  with accepted sum_todo_update [where f = "todo s", OF this accepted(1)] assms(3) show ?thesis by (simp add: work_def)
next
  case (refused i m ps)
  then have "i < n" using assms(3) [of i] by (cases "i < n") auto
  with refused sum_todo_update [where f = "todo s", OF this refused(1)] assms(3) show ?thesis by (simp add: work_def)
next
  case (taken m)
  with assms(3) show ?thesis by (simp add: work_def)
next
  case empty
  with assms(3) show ?thesis by (simp add: work_def useful_def)
qed

lemma work_run:
  assumes "tasks_start P ring h s0" and "\<And>i. n \<le> i \<Longrightarrow> todo s0 i = []" and "mbox_run P ring h s0 k s"
  shows "k + work ring h n s \<le> work ring h n s0 \<and> (\<forall>i\<ge>n. todo s i = [])"
  using assms(3)
proof induction
  case Begin
  with assms(2) show ?case by simp
next
  case (Next k s s')
  then have "mbox_live_wait P ring h (mb_state s)" using tasks_inv_run [OF assms(1)] by blast
  moreover have z: "\<And>i. n \<le> i \<Longrightarrow> todo s i = []" and le: "k + work ring h n s \<le> work ring h n s0"
    using Next.IH by simp_all
  ultimately show ?case using work_step [OF _ Next.hyps(2), of n] by (auto split: if_splits)
qed

text \<open>As long as there is something to post or to fetch, a useful step is possible.\<close>

lemma useful_step_exists:
  assumes "mbox_live_wait P ring h (mb_state s)" and "0 < mbox_capacity ring h (mb_state s)"
    and "todo s i \<noteq> [] \<or> mbox_contents ring h (mb_state s) \<noteq> []"
  shows "\<exists>s'. mbox_step P ring h s s' \<and> useful s s'"
proof (cases "mbox_contents ring h (mb_state s)")
  case (Cons m q)
  obtain mo w where g: "mbox_get_wait P h 0 (mb_state s) = (mo, w)" by fastforce
  from mboxb.fetch_wait_law [OF assms(1) g] Cons have mo: "mo = Some m" by simp
  obtain r where f: "sys_arch_mbox_fetch P (Some (Some h)) 0 (mb_state s) = Inr (r, Some m, w)"
  proof (cases "sys_arch_mbox_fetch P (Some (Some h)) 0 (mb_state s)")
    case (Inl e)
    with g mo show ?thesis by (simp add: mbox_get_wait_def)
  next
    case (Inr x)
    with g mo show ?thesis by (cases x) (auto simp: mbox_get_wait_def intro: that)
  qed
  have "mbox_step P ring h s
      (s\<lparr>mb_state := w, fetched := fetched s @ (case Some m of None \<Rightarrow> [] | Some m \<Rightarrow> [m])\<rparr>)"
    by (rule mbox_step.Fetched [OF disjI1 f]) (simp add: Cons)
  moreover have "useful s (s\<lparr>mb_state := w, fetched := fetched s @ (case Some m of None \<Rightarrow> [] | Some m \<Rightarrow> [m])\<rparr>)"
    by (simp add: useful_def)
  ultimately show ?thesis by blast
next
  case Nil
  with assms(2) have room: "length (mbox_contents ring h (mb_state s)) < mbox_capacity ring h (mb_state s)" by simp
  from Nil assms(3) obtain p ps where p: "todo s i = p # ps" by (auto simp: neq_Nil_conv)
  then have c: "(todo s)(i := ps) \<noteq> todo s" by (auto dest!: fun_cong [of _ _ i])
  show ?thesis
  proof (cases p)
    case (Post_wait m)
    from mboxb.post_wait_law [OF assms(1) room, of m] obtain w
      where w: "sys_mbox_post P (Some (Some h)) m (mb_state s) = Inr w" by (auto simp: mbox_post_wait_def)
    note st = mbox_step.Posted [OF p [unfolded Post_wait] disjI1 [OF room] w]
    have "useful s (s\<lparr>mb_state := w, todo := (todo s)(i := ps), posted := posted s @ [(i, m)]\<rparr>)"
      by (simp add: useful_def c)
    with st show ?thesis by blast
  next
    case (Post_try m)
    obtain e w where w: "sys_mbox_trypost P (Some (Some h)) m (mb_state s) = Inr (e, w)"
      by (rule that [OF trypost_eq])
    note st = mbox_step.Tried [where P = P and h = h and ring = ring, OF p [unfolded Post_try] w]
    have "useful s (s\<lparr>mb_state := w, todo := (todo s)(i := ps),
        posted := (if e = ERR_OK then posted s @ [(i, m)] else posted s)\<rparr>)"
      by (simp add: useful_def c)
    with st show ?thesis by blast
  qed
qed

end
