(* ===== verification/Sys_Properties.thy ===== *)
theory Sys_Properties
  imports Sys_Tasks
begin

text \<open>
  What the operating-system layer promises to lwIP: mailboxes are bounded FIFO queues, also
  between any number of tasks, and deliver every message; the blocking operations report their waiting time within the bounds lwIP's timers need,
  created objects are valid exactly when creation succeeded, and the system time is exact
  until the product with 1000 overflows. The small system \<open>ex_pico\<close> (a clock and a
  table of rings) is the instance the witnesses compute with.
\<close>

section \<open>A small system\<close>

type_synonym ex_world = "u32 \<times> (nat \<Rightarrow> (nat \<times> nat list) option)"

fun ex_put :: "handle \<Rightarrow> nat \<Rightarrow> u32 \<Rightarrow> ex_world \<Rightarrow> bool \<times> ex_world" where
  "ex_put None m t w = (False, w)"
| "ex_put (Some h) m t (j, R) =
     (case R h of None \<Rightarrow> (False, (j, R))
      | Some (c, q) \<Rightarrow> (length q < c, (j, R(h \<mapsto> (c, if length q < c then q @ [m] else q)))))"

fun ex_get :: "handle \<Rightarrow> u32 \<Rightarrow> ex_world \<Rightarrow> nat option \<times> ex_world" where
  "ex_get None t w = (None, w)"
| "ex_get (Some h) t (j, R) =
     (case R h of None \<Rightarrow> (None, (j, R))
      | Some (c, q) \<Rightarrow> (case q of [] \<Rightarrow> None | m # _ \<Rightarrow> Some m, (j + 3, R(h \<mapsto> (c, tl q)))))"

fun ex_create :: "nat \<Rightarrow> int \<Rightarrow> ex_world \<Rightarrow> handle \<times> ex_world" where
  "ex_create e n (j, R) = (if R 0 = None then (Some 0, (j, R(0 \<mapsto> (nat n, [])))) else (None, (j, R)))"

definition ex_pico :: "ex_world pico" where
  "ex_pico =
     \<lparr> HZ = 100, MS = (\<lambda>t. t div 10), INFINITE = 0xFFFFFFFF, SYS_ARCH_TIMEOUT = 0xFFFFFFFF,
       SYS_MBOX_EMPTY = 0xFFFFFFFF, LWIP_DEBUG = True, LWIP_NOASSERT = False, jiffies = fst,
       nosMutexCreate = (\<lambda>_ _ w. (Some 1, w)), nosMutexLock = (\<lambda>_ w. w),
       nosMutexUnlock = (\<lambda>_ w. w), nosMutexDestroy = (\<lambda>_ w. w),
       nosSemaCreate = (\<lambda>_ _ _ w. (None, w)), nosSemaSignal = (\<lambda>_ w. w),
       nosSemaWait = (\<lambda>_ _ w. (0, (fst w + 3, snd w))), nosSemaDestroy = (\<lambda>_ w. w),
       uosRingCreate = ex_create, uosRingPut = ex_put, uosRingGet = ex_get,
       uosRingDestroy = (\<lambda>_ w. w), SYS_STATS_INC_USED_mbox = (\<lambda>w. w),
       SYS_STATS_DEC_mbox_used = (\<lambda>w. w), POS_SCHED_LOCK = (\<lambda>w. (0, w)),
       POS_SCHED_UNLOCK = (\<lambda>_ w. w), nosTaskCreate = (\<lambda>_ _ _ _ _ w. (Some 2, w)),
       sizeof_ptr = 4 \<rparr>"

definition ex_world0 :: ex_world where
  "ex_world0 = (0, [0 \<mapsto> (1, [])])"

lemma ex_ring_ok: "ring_ok ex_pico snd"
  by (auto simp: ring_ok_def ring_put_ok_def ring_get_ok_def ex_pico_def)

lemma ex_live: "mbox_live ex_pico snd 0 ex_world0"
  by (simp add: mbox_live_def ex_ring_ok) (simp add: ex_world0_def ex_pico_def)

section \<open>Mailboxes\<close>

text \<open>C24: Over every sequence of non-blocking posts and fetches on a live mailbox, what was in
  it followed by the accepted messages equals the fetched messages followed by what is in it
  at the end: nothing is lost, repeated or reordered, and it never holds more than its size.\<close>

theorem mbox_fifo:
  assumes "mbox_live P ring h w"
    and "length (mbox_contents ring h w) \<le> mbox_capacity ring h w"
    and "fifo_run (mbox_post P h) (mbox_get P h) ops w = (acc, got, w')"
  shows "mbox_contents ring h w @ acc = got @ mbox_contents ring h w' \<and>
    length (mbox_contents ring h w') \<le> mbox_capacity ring h w"
  using mboxq.run_fifo [OF assms(1,3)] mboxq.run_bounded [OF assms] by blast

theorem mbox_fifo_witness:
  "\<exists>w'. fifo_run (mbox_post ex_pico 0) (mbox_get ex_pico 0) [Post 7, Post 8, Fetch, Post 9, Fetch] ex_world0
      = ([7, 9], [7, 9], w') \<and>
    mbox_contents snd 0 ex_world0 @ [7, 9] = [7, 9] @ mbox_contents snd 0 w'"
proof -
  obtain w' where r: "fifo_run (mbox_post ex_pico 0) (mbox_get ex_pico 0)
      [Post 7, Post 8, Fetch, Post 9, Fetch] ex_world0 = ([7, 9], [7, 9], w')"
    by (simp add: mbox_post_eq mbox_get_eq ex_pico_def ex_world0_def)
  have "length (mbox_contents snd 0 ex_world0) \<le> mbox_capacity snd 0 ex_world0"
    by (simp add: mbox_contents_def mbox_capacity_def ex_world0_def)
  from mbox_fifo [OF ex_live this r] r show ?thesis by blast
qed

section \<open>A mailbox between tasks\<close>

text \<open>C18: In every interleaving of tasks that post to a live mailbox and tasks that fetch from it,
  waiting or not, the messages come out in the order they were accepted and the mailbox never
  holds more than its size; what the mailbox accepted of one task are messages the task has
  posted, in the task's order, and every message it gave to \<open>sys_mbox_post\<close> is among them: the
  function waits for room as long as it takes, so a full mailbox drops none.\<close>

theorem mbox_tasks_order:
  assumes "tasks_start P ring h s0" and "mbox_run P ring h s0 k s"
  shows "mbox_contents ring h (mb_state s0) @ map snd (posted s) = fetched s @ mbox_contents ring h (mb_state s) \<and>
    length (mbox_contents ring h (mb_state s)) \<le> mbox_capacity ring h (mb_state s0) \<and>
    (\<forall>i. \<exists>ps. todo s0 i = ps @ todo s i \<and> subseq (sent_by i s) (map posted_msg ps) \<and>
      subseq (must_post ps) (sent_by i s))"
  using tasks_inv_run [OF assms] by (simp add: tasks_inv_def)

text \<open>Task 0 posts 7 and 8, task 1 posts 9 if there is room; the mailbox has room for one.\<close>

definition ex_tasks :: "nat \<Rightarrow> posting list" where
  "ex_tasks i = (if i = 0 then [Post_wait 7, Post_wait 8] else if i = 1 then [Post_try 9] else [])"

definition ex_mbox0 :: "ex_world mbox_sys" where
  "ex_mbox0 = \<lparr>mb_state = ex_world0, todo = ex_tasks, posted = [], fetched = []\<rparr>"

definition ex_mbox1 :: "ex_world mbox_sys" where
  "ex_mbox1 = \<lparr>mb_state = (0, [0 \<mapsto> (1, [7])]), todo = ex_tasks(0 := [Post_wait 8]), posted = [(0, 7)], fetched = []\<rparr>"

definition ex_mbox2 :: "ex_world mbox_sys" where
  "ex_mbox2 = ex_mbox1\<lparr>todo := ex_tasks(0 := [Post_wait 8], 1 := [])\<rparr>"

definition ex_mbox3 :: "ex_world mbox_sys" where
  "ex_mbox3 = ex_mbox2\<lparr>mb_state := (3, [0 \<mapsto> (1, [])]), fetched := [7]\<rparr>"

lemma ex_tasks_start: "tasks_start ex_pico snd 0 ex_mbox0"
proof -
  have "ring_wait_ok ex_pico snd" by (auto simp: ring_wait_ok_def ex_pico_def)
  with ex_live show ?thesis
    by (simp add: tasks_start_def mbox_live_wait_def ex_mbox0_def mbox_contents_def mbox_capacity_def ex_world0_def)
qed

lemma ex_mbox_steps:
  "mbox_step ex_pico snd 0 ex_mbox0 ex_mbox1"
  "mbox_step ex_pico snd 0 ex_mbox1 ex_mbox2"
  "mbox_step ex_pico snd 0 ex_mbox2 ex_mbox3"
proof -
  have "sys_mbox_post ex_pico (Some (Some 0)) 7 ex_world0 = Inr (0, [0 \<mapsto> (1, [7])])"
    by (simp add: post_eq ex_pico_def ex_world0_def)
  then show "mbox_step ex_pico snd 0 ex_mbox0 ex_mbox1"
    using mbox_step.Posted [of ex_mbox0 0 7 "[Post_wait 8]" snd 0 ex_pico "(0, [0 \<mapsto> (1, [7])])"]
    by (simp add: ex_mbox0_def ex_mbox1_def ex_tasks_def mbox_contents_def mbox_capacity_def ex_world0_def)
  have "sys_mbox_trypost ex_pico (Some (Some 0)) 9 (0, [0 \<mapsto> (1, [7])]) = Inr (ERR_MEM, (0, [0 \<mapsto> (1, [7])]))"
    by (simp add: trypost_eq ex_pico_def)
  then show "mbox_step ex_pico snd 0 ex_mbox1 ex_mbox2"
    using mbox_step.Tried [of ex_mbox1 1 9 "[]" ex_pico 0 ERR_MEM "(0, [0 \<mapsto> (1, [7])])" snd]
    by (simp add: ex_mbox1_def ex_mbox2_def ex_tasks_def)
  have "sys_arch_mbox_tryfetch ex_pico (Some (Some 0)) (0, [0 \<mapsto> (1, [7])]) =
      Inr (0, Some 7, (3, [0 \<mapsto> (1, [])]))"
    by (simp add: tryfetch_eq ex_pico_def)
  then show "mbox_step ex_pico snd 0 ex_mbox2 ex_mbox3"
    using mbox_step.Fetch_tried [of ex_pico 0 ex_mbox2 0 "Some 7" "(3, [0 \<mapsto> (1, [])])" snd]
    by (simp add: ex_mbox1_def ex_mbox2_def ex_mbox3_def)
qed

lemma ex_mbox_run: "\<exists>k. mbox_run ex_pico snd 0 ex_mbox0 k ex_mbox3"
  using mbox_run.Begin [of ex_pico snd 0 ex_mbox0] ex_mbox_steps by (blast intro: mbox_run.Next)

theorem mbox_tasks_order_witness:
  "posted ex_mbox3 = [(0, 7)] \<and> fetched ex_mbox3 = [7] \<and>
   (\<exists>ps. ex_tasks 0 = ps @ [Post_wait 8] \<and> subseq (must_post ps) [7])"
proof -
  obtain k where "mbox_run ex_pico snd 0 ex_mbox0 k ex_mbox3" using ex_mbox_run by blast
  from mbox_tasks_order [OF ex_tasks_start this] show ?thesis
    by (auto simp: ex_mbox0_def ex_mbox1_def ex_mbox2_def ex_mbox3_def sent_by_def dest!: spec [of _ 0])
qed

text \<open>C10: No message a task waits with is stuck: as long as some task has something to post or the
  mailbox holds a message, a step that posts or fetches is possible; there are at most twice as
  many such steps as messages; and when none is left, everything accepted has been fetched
  and every message that was posted waiting is among it.\<close>

theorem mbox_all_delivered:
  assumes "tasks_start P ring h s0" and "0 < mbox_capacity ring h (mb_state s0)"
    and "\<And>i. n \<le> i \<Longrightarrow> todo s0 i = []" and "mbox_run P ring h s0 k s"
  shows "k \<le> work ring h n s0 \<and>
    ((\<exists>s'. mbox_step P ring h s s' \<and> useful s s') \<or>
     (fetched s = mbox_contents ring h (mb_state s0) @ map snd (posted s) \<and>
      (\<forall>i. todo s i = [] \<and> subseq (must_post (todo s0 i)) (sent_by i s))))"
proof -
  from tasks_inv_run [OF assms(1,4)] have live: "mbox_live_wait P ring h (mb_state s)"
    and inv: "tasks_inv ring h s0 s" by simp_all
  from inv assms(2) have cap: "0 < mbox_capacity ring h (mb_state s)" by (simp add: tasks_inv_def)
  have k: "k \<le> work ring h n s0" using work_run [OF assms(1) _ assms(4), of n] assms(3) by simp
  show ?thesis
  proof (cases "(\<forall>i. todo s i = []) \<and> mbox_contents ring h (mb_state s) = []")
    case True
    moreover from inv have "\<exists>ps. todo s0 i = ps @ todo s i \<and> subseq (must_post ps) (sent_by i s)" for i
      unfolding tasks_inv_def by blast
    ultimately have "subseq (must_post (todo s0 i)) (sent_by i s)" for i by (metis append_Nil2)
    with True inv k show ?thesis by (simp add: tasks_inv_def)
  next
    case False
    then obtain i where "todo s i \<noteq> [] \<or> mbox_contents ring h (mb_state s) \<noteq> []" by blast
    from useful_step_exists [OF live cap this] k show ?thesis by blast
  qed
qed

theorem mbox_all_delivered_witness:
  "\<exists>k s'. mbox_run ex_pico snd 0 ex_mbox0 k ex_mbox3 \<and> k \<le> 6 \<and> mbox_step ex_pico snd 0 ex_mbox3 s' \<and> useful ex_mbox3 s'"
proof -
  obtain k where r: "mbox_run ex_pico snd 0 ex_mbox0 k ex_mbox3" using ex_mbox_run by blast
  have c: "0 < mbox_capacity snd 0 (mb_state ex_mbox0)"
    by (simp add: ex_mbox0_def ex_world0_def mbox_capacity_def)
  have t: "todo ex_mbox0 i = []" if "2 \<le> i" for i
    using that by (simp add: ex_mbox0_def ex_tasks_def)
  have "work snd 0 2 ex_mbox0 = 6"
    by (simp add: work_def ex_mbox0_def ex_tasks_def ex_world0_def mbox_contents_def lessThan_Suc eval_nat_numeral)
  moreover have "todo ex_mbox3 0 \<noteq> []" by (simp add: ex_mbox3_def ex_mbox2_def)
  ultimately show ?thesis using mbox_all_delivered [OF ex_tasks_start c t r] r by (metis (no_types))
qed

section \<open>Results\<close>

text \<open>The non-blocking mailbox operations report the state of the ring: a post returns
  \<open>ERR_MEM\<close> and changes nothing exactly when the mailbox is full, a fetch returns
  \<open>SYS_MBOX_EMPTY\<close> and changes nothing exactly when it is empty, otherwise it returns 0
  with the oldest message; no other mailbox changes.\<close>

theorem mbox_try_results:
  assumes "ring_ok P ring" and "SYS_MBOX_EMPTY P \<noteq> 0" and "ring w h = Some (c, q)"
    and "sys_mbox_trypost P (Some (Some h)) m w = Inr (e, wp)"
    and "sys_arch_mbox_tryfetch P (Some (Some h)) w = Inr (r, msg, wg)"
  shows "(if length q < c then e = ERR_OK \<and> ring wp = (ring w)(h \<mapsto> (c, q @ [m]))
      else e = ERR_MEM \<and> ring wp = ring w) \<and>
    (case q of [] \<Rightarrow> r = SYS_MBOX_EMPTY P \<and> msg = None \<and> ring wg = ring w
      | m1 # q1 \<Rightarrow> r = 0 \<and> msg = Some m1 \<and> ring wg = (ring w)(h \<mapsto> (c, q1)))"
proof -
  from assms(1,3) have "fst (uosRingPut P (Some h) m 0 w) = (length q < c)"
    and "ring (snd (uosRingPut P (Some h) m 0 w)) =
        (ring w)(h \<mapsto> (c, if length q < c then q @ [m] else q))"
    and "fst (uosRingGet P (Some h) 0 w) = (case q of [] \<Rightarrow> None | m # _ \<Rightarrow> Some m)"
    and "ring (snd (uosRingGet P (Some h) 0 w)) = (ring w)(h \<mapsto> (c, tl q))"
    unfolding ring_ok_def ring_put_ok_def ring_get_ok_def by blast+
  with assms(2-) show ?thesis
    by (auto simp: trypost_eq tryfetch_eq map_upd_triv split: list.splits if_splits)
qed

theorem mbox_try_results_witness:
  "\<exists>wp wg. sys_mbox_trypost ex_pico (Some (Some 0)) 7 ex_world0 = Inr (ERR_OK, wp) \<and>
    snd wp = [0 \<mapsto> (1, [7])] \<and>
    sys_arch_mbox_tryfetch ex_pico (Some (Some 0)) ex_world0 = Inr (0xFFFFFFFF, None, wg)"
proof -
  obtain wp wg where p: "sys_mbox_trypost ex_pico (Some (Some 0)) 7 ex_world0 = Inr (ERR_OK, wp)"
    and f: "sys_arch_mbox_tryfetch ex_pico (Some (Some 0)) ex_world0 = Inr (0xFFFFFFFF, None, wg)"
    by (simp add: trypost_eq tryfetch_eq) (simp add: ex_pico_def ex_world0_def)
  have "SYS_MBOX_EMPTY ex_pico \<noteq> 0" "snd ex_world0 0 = Some (1, [])"
    by (simp_all add: ex_pico_def ex_world0_def)
  from mbox_try_results [OF ex_ring_ok this p f] p f show ?thesis
    by (auto simp: ex_world0_def)
qed

text \<open>On an invalid mailbox (a null pointer, or a variable holding the null handle) every
  mailbox operation stops in the endless assertion loop of a debug build before it changes
  anything, except \<open>sys_mbox_free\<close>, which does nothing at all.\<close>

theorem mbox_invalid_stops:
  assumes "\<not> sys_mbox_valid mb" and "LWIP_DEBUG P" and "\<not> LWIP_NOASSERT P"
  shows "sys_mbox_post P mb m w = Inl Hang \<and> sys_mbox_trypost P mb m w = Inl Hang \<and>
    sys_arch_mbox_fetch P mb t w = Inl Hang \<and> sys_arch_mbox_tryfetch P mb w = Inl Hang \<and>
    sys_mbox_free P mb w = w"
  using assms
  by (auto simp: sys_mbox_valid_def sys_mbox_post_def sys_mbox_trypost_def sys_mbox_free_def
      sys_arch_mbox_fetch_def sys_arch_mbox_tryfetch_def LWIP_ASSERT_def LWIP_PLATFORM_ASSERT_def)

theorem mbox_invalid_stops_witness:
  "sys_mbox_post ex_pico (Some None) 7 ex_world0 = Inl Hang \<and>
   sys_mbox_free ex_pico (Some None) ex_world0 = ex_world0"
proof -
  have "\<not> sys_mbox_valid (Some None)" "LWIP_DEBUG ex_pico" "\<not> LWIP_NOASSERT ex_pico"
    by (simp_all add: sys_mbox_valid_def ex_pico_def)
  from mbox_invalid_stops [OF this] show ?thesis by blast
qed

section \<open>Objects\<close>

text \<open>A new semaphore, mutex or mailbox is valid, by the macros of the port, exactly when
  the operation returned \<open>ERR_OK\<close> (it returns \<open>ERR_MEM\<close> otherwise); and a mailbox
  of size 0 is created like one of the default size 10.\<close>

theorem sys_new_valid:
  "(case sys_sem_new P count w of (e, h, _) \<Rightarrow> (sys_sem_valid (Some h) = (e = ERR_OK)) \<and> e \<noteq> ERR_IF) \<and>
   (case sys_mutex_new P w of (e, h, _) \<Rightarrow> (sys_mutex_valid (Some h) = (e = ERR_OK)) \<and> e \<noteq> ERR_IF) \<and>
   (case sys_mbox_new P sz w of (e, h, _) \<Rightarrow> (sys_mbox_valid (Some h) = (e = ERR_OK)) \<and> e \<noteq> ERR_IF) \<and>
   sys_mbox_new P 0 w = sys_mbox_new P 10 w"
proof -
  have "sys_mbox_new P 0 w = sys_mbox_new P 10 w"
    by (simp add: sys_mbox_new_def DEFAULT_MBOX_SIZE_def)
  moreover have "case sys_sem_new P count w of (e, h, _) \<Rightarrow> (sys_sem_valid (Some h) = (e = ERR_OK)) \<and> e \<noteq> ERR_IF"
    by (auto split: prod.splits dest: sem.valid_iff_ok sem.new_error)
  moreover have "case sys_mutex_new P w of (e, h, _) \<Rightarrow> (sys_mutex_valid (Some h) = (e = ERR_OK)) \<and> e \<noteq> ERR_IF"
    by (auto split: prod.splits dest: mutex.valid_iff_ok mutex.new_error)
  moreover have "case sys_mbox_new P sz w of (e, h, _) \<Rightarrow> (sys_mbox_valid (Some h) = (e = ERR_OK)) \<and> e \<noteq> ERR_IF"
    by (auto split: prod.splits dest: mbox.valid_iff_ok mbox.new_error)
  ultimately show ?thesis by blast
qed

section \<open>Waiting times\<close>

text \<open>C34: With a finite timeout and at most 1000 jiffies per second, both blocking operations
  return the timeout code when the object was not obtained and otherwise a time that is at
  least one millisecond and at most the timeout, so lwIP's timers always advance.\<close>

theorem wait_bounds:
  assumes "0 < HZ P" and "HZ P \<le> 1000" and "0 < t" and "t < SYS_ARCH_TIMEOUT P"
    and "sys_arch_sem_wait P sem t w = (r, w')"
    and "sys_arch_mbox_fetch P (Some (Some h)) t w = Inr (r', msg, w'')"
  shows "(if sem_timed_out P sem t w then r = SYS_ARCH_TIMEOUT P else 0 < r \<and> r \<le> t) \<and>
    (if msg = None then r' = SYS_ARCH_TIMEOUT P else 0 < r' \<and> r' \<le> t)"
proof -
  have r: "r = fst (sys_arch_sem_wait P sem t w)" and r': "r' = mbox_wait P h t w"
    using assms(5,6) by (simp_all add: mbox_wait_def)
  have m: "mbox_timed_out P (Some h) t w = (msg = None)"
    using assms(6) by (auto simp: sys_arch_mbox_fetch_def mbox_timed_out_def wait_arg_def Let_def
      LWIP_ASSERT_def split: prod.splits if_splits)
  show ?thesis
    unfolding r r' m [symmetric]
    using semwait.wait_timeout semwait.wait_at_most semwait.wait_not_zero [OF assms(1-3)]
      fetchwait.wait_timeout fetchwait.wait_at_most fetchwait.wait_not_zero [OF assms(1-3)]
    by auto
qed

theorem wait_bounds_witness:
  "\<exists>w' w''. sys_arch_sem_wait ex_pico (Some 5) 1000 ex_world0 = (30, w') \<and> (0::u32) < 30 \<and>
    sys_arch_mbox_fetch ex_pico (Some (Some 0)) 1000 ex_world0 = Inr (SYS_ARCH_TIMEOUT ex_pico, None, w'')"
proof -
  obtain w' w'' where s: "sys_arch_sem_wait ex_pico (Some 5) 1000 ex_world0 = (30, w')"
    and f: "sys_arch_mbox_fetch ex_pico (Some (Some 0)) 1000 ex_world0 = Inr (0xFFFFFFFF, None, w'')"
    by (simp add: sys_arch_sem_wait_def sys_arch_mbox_fetch_def LWIP_ASSERT_def ex_pico_def ex_world0_def)
      (simp add: waited_ms_def)
  have "\<not> sem_timed_out ex_pico (Some 5) 1000 ex_world0"
    by (simp add: sem_timed_out_def ex_pico_def)
  with wait_bounds [OF _ _ _ _ s f] s f show ?thesis
    by (auto simp: ex_pico_def)
qed

text \<open>Without a timeout (0, wait for ever) both blocking operations return 0 when they are
  served, however long they waited, although the comment in them says that the calculated
  time is never zero.\<close>

theorem wait_forever_returns_zero:
  assumes "\<not> sem_timed_out P sem 0 w" and "\<not> mbox_timed_out P (Some h) 0 w"
  shows "fst (sys_arch_sem_wait P sem 0 w) = 0 \<and>
    (\<exists>m w'. sys_arch_mbox_fetch P (Some (Some h)) 0 w = Inr (0, Some m, w'))"
  using semwait.wait_forever_zero [OF assms(1)] assms(2)
  by (auto simp: sys_arch_mbox_fetch_def mbox_timed_out_def LWIP_ASSERT_def wait_arg_def waited_ms_zero
      Let_def split: prod.splits)

theorem wait_forever_returns_zero_witness:
  "fst (sys_arch_sem_wait ex_pico (Some 5) 0 (0, [0 \<mapsto> (1, [7])])) = 0"
proof -
  have "\<not> sem_timed_out ex_pico (Some 5) 0 (0, [0 \<mapsto> (1, [7])])"
    "\<not> mbox_timed_out ex_pico (Some 0) 0 (0, [0 \<mapsto> (1, [7])])"
    by (simp_all add: sem_timed_out_def mbox_timed_out_def ex_pico_def)
  from wait_forever_returns_zero [OF this] show ?thesis by blast
qed

text \<open>As long as the elapsed jiffies times 1000 fit in 32 bits and at least one jiffy's worth
  of milliseconds has passed, a served wait returns the elapsed milliseconds, rounded down
  and cut off at the timeout.\<close>

theorem wait_exact:
  assumes "\<not> sem_timed_out P sem t w" and "HZ P < 2 ^ 32"
    and "unat (sem_elapsed P sem t w) * 1000 < 2 ^ 32"
    and "1000 div HZ P \<le> unat (sem_elapsed P sem t w) * 1000 div HZ P"
  shows "unat (fst (sys_arch_sem_wait P sem t w)) =
    min (unat (sem_elapsed P sem t w) * 1000 div HZ P) (unat t)"
  using semwait.wait_exact_ms [OF assms(1,3,2,4)] .

theorem wait_exact_witness:
  "unat (fst (sys_arch_sem_wait ex_pico (Some 5) 25 ex_world0)) = 25 \<and>
   unat (fst (sys_arch_sem_wait ex_pico (Some 5) 40 ex_world0)) = 30"
proof -
  have e: "\<not> sem_timed_out ex_pico (Some 5) t ex_world0" "HZ ex_pico = 100"
    "unat (sem_elapsed ex_pico (Some 5) t ex_world0) = 3" for t
    by (simp_all add: sem_timed_out_def sem_elapsed_def ex_pico_def ex_world0_def)
  from wait_exact [OF e(1), of 25] wait_exact [OF e(1), of 40] show ?thesis
    by (simp add: e)
qed

section \<open>System time and random numbers\<close>

text \<open>C35: \<open>sys_now\<close> is the time in milliseconds since the start, and does not decrease, as
  long as the jiffy count times 1000 fits in 32 bits; at the first jiffy where it does not,
  the reported time falls back, for every rate up to 1000 jiffies per second.\<close>

theorem sys_now_exact_until_overflow:
  assumes "0 < hz" and "hz \<le> 1000"
  shows "(unat j * 1000 < 2 ^ 32 \<longrightarrow> unat (sys_now hz j) = unat j * 1000 div hz) \<and>
    sys_now hz 4294968 < sys_now hz 4294967"
proof -
  have s: "unat (word_of_nat hz :: u32) = hz"
    by (rule unat_word_of_nat_small) (use assms(2) in simp)
  have "(704::nat) div hz < 4294967000 div hz"
  proof -
    have "704 div hz + 1 = (704 + hz) div hz" using assms(1) by (simp add: div_add_self2)
    also have "\<dots> \<le> 4294967000 div hz" by (rule div_le_mono) (use assms(2) in simp)
    finally show ?thesis by simp
  qed
  then have "sys_now hz 4294968 < sys_now hz 4294967"
    by (simp add: sys_now_def word_less_nat_alt unat_div s)
  moreover have "unat j * 1000 < 2 ^ 32 \<Longrightarrow> unat (sys_now hz j) = unat j * 1000 div hz"
    using assms(2) by (simp add: sys_now_def unat_ms)
  ultimately show ?thesis by simp
qed

theorem sys_now_exact_until_overflow_witness:
  "unat (sys_now 100 250) = 2500 \<and> sys_now 100 4294968 < sys_now 100 4294967"
  using sys_now_exact_until_overflow [of 100 250] by simp

text \<open>Every random number of a run is in the range of an \<open>unsigned short\<close>, even where the
  C library's generator returns a negative or a larger value.\<close>

theorem sys_random_range:
  "(\<forall>r \<in> set (randoms rand_r n seedValue). 0 \<le> r \<and> r < 65536) \<and>
   length (randoms rand_r n seedValue) = n"
proof (induction n arbitrary: seedValue)
  case (Suc n)
  have "uint (word_of_int i :: u16) < 65536" for i
    using unsigned_less [of "word_of_int i :: u16", where 'a = int] by simp
  with Suc show ?case by (auto simp: sys_random_def Let_def split: prod.splits)
qed simp

theorem sys_random_range_witness:
  "(\<forall>r \<in> set (randoms (\<lambda>s. (- uint s, s + 1)) 3 (sys_random_init 5)). r < 65536) \<and>
   randoms (\<lambda>s. (- uint s, s + 1)) 3 (sys_random_init 5) = [65531, 65530, 65529]"
proof -
  have "randoms (\<lambda>s. (- uint s, s + 1)) 3 (sys_random_init 5) = [65531, 65530, 65529]"
    by (simp add: numeral_3_eq_3 sys_random_def sys_random_init_def)
  with sys_random_range [of "\<lambda>s. (- uint s, s + 1)" 3 "sys_random_init 5"] show ?thesis by blast
qed

end
