(* ===== verification/Sockets.thy ===== *)
theory Sockets
  imports Prelude
begin

text \<open>
  The socket API as files of picoos-micro (\<open>sockets.c\<close>, \<open>include/picoos-lwip.h\<close>). A
  slot of the open-file table stands for a socket; the file behind it carries lwIP's
  descriptor in \<open>fsPrivFd\<close>. The table itself (allocation, slot numbers) and lwIP are not
  part of the repository: the record \<open>uos\<close> holds the operations the code calls. The
  abstract view is a finite map from slots to lwIP descriptors; the contract
  \<open>slot_table\<close> states what opening and closing do to it.
\<close>

section \<open>Files and file systems\<close>

datatype fs_conf = SockFSConf | OtherFSConf nat

datatype file_conf = SockConf | OtherConf nat

text \<open>A \<open>UosFS\<close>, and pointers to one: the static \<open>sockFS.base\<close> or another file system.\<close>

record UosFS =
  mountPoint :: "string option"
  fs_cf :: "fs_conf option"

datatype fs_ptr = SockFS | OtherFS nat

record UosFile =
  file_fs :: "fs_ptr option"
  file_cf :: "file_conf option"
  fsPrivFd :: int

record UosFileInfo =
  isDir :: bool
  isSocket :: bool
  st_size :: int

text \<open>
  The static \<open>sockFS\<close>, the memory of the file structures and the rest of the system
  (allocation table, lwIP, user memory).
\<close>

record 'w ustate =
  sockFS :: UosFS
  files :: "nat \<Rightarrow> UosFile"
  ext :: 'w

record 'w uos =
  P_ASSERT_enabled :: bool
  other_fs_cf :: "nat \<Rightarrow> fs_conf option"
  uosMount :: "'w ustate \<Rightarrow> 'w ustate"
  uosFileAlloc :: "'w ustate \<Rightarrow> nat option \<times> 'w ustate"
  uosFileFree :: "nat \<Rightarrow> 'w ustate \<Rightarrow> 'w ustate"
  uosFile2Slot :: "nat \<Rightarrow> int"
  uosSlot2File :: "int \<Rightarrow> 'w \<Rightarrow> nat option"
  lwip_socket :: "int \<Rightarrow> int \<Rightarrow> int \<Rightarrow> 'w \<Rightarrow> int \<times> 'w"
  lwip_accept :: "int \<Rightarrow> nat \<Rightarrow> nat \<Rightarrow> 'w \<Rightarrow> int \<times> 'w"
  lwip_close :: "int \<Rightarrow> 'w \<Rightarrow> int \<times> 'w"
  lwip_read :: "int \<Rightarrow> nat \<Rightarrow> int \<Rightarrow> 'w \<Rightarrow> int \<times> 'w"
  lwip_write :: "int \<Rightarrow> nat \<Rightarrow> int \<Rightarrow> 'w \<Rightarrow> int \<times> 'w"
  lwip_bind :: "int \<Rightarrow> nat \<Rightarrow> nat \<Rightarrow> 'w \<Rightarrow> int \<times> 'w"
  lwip_shutdown :: "int \<Rightarrow> int \<Rightarrow> 'w \<Rightarrow> int \<times> 'w"
  lwip_getpeername :: "int \<Rightarrow> nat \<Rightarrow> nat \<Rightarrow> 'w \<Rightarrow> int \<times> 'w"
  lwip_getsockname :: "int \<Rightarrow> nat \<Rightarrow> nat \<Rightarrow> 'w \<Rightarrow> int \<times> 'w"
  lwip_setsockopt :: "int \<Rightarrow> int \<Rightarrow> int \<Rightarrow> nat \<Rightarrow> nat \<Rightarrow> 'w \<Rightarrow> int \<times> 'w"
  lwip_connect :: "int \<Rightarrow> nat \<Rightarrow> nat \<Rightarrow> 'w \<Rightarrow> int \<times> 'w"
  lwip_listen :: "int \<Rightarrow> int \<Rightarrow> 'w \<Rightarrow> int \<times> 'w"
  lwip_recv :: "int \<Rightarrow> nat \<Rightarrow> nat \<Rightarrow> int \<Rightarrow> 'w \<Rightarrow> int \<times> 'w"
  lwip_recvfrom :: "int \<Rightarrow> nat \<Rightarrow> nat \<Rightarrow> int \<Rightarrow> nat \<Rightarrow> nat \<Rightarrow> 'w \<Rightarrow> int \<times> 'w"
  lwip_send :: "int \<Rightarrow> nat \<Rightarrow> nat \<Rightarrow> int \<Rightarrow> 'w \<Rightarrow> int \<times> 'w"
  lwip_sendmsg :: "int \<Rightarrow> nat \<Rightarrow> int \<Rightarrow> 'w \<Rightarrow> int \<times> 'w"
  lwip_sendto :: "int \<Rightarrow> nat \<Rightarrow> nat \<Rightarrow> int \<Rightarrow> nat \<Rightarrow> nat \<Rightarrow> 'w \<Rightarrow> int \<times> 'w"
  lwip_writev :: "int \<Rightarrow> nat \<Rightarrow> int \<Rightarrow> 'w \<Rightarrow> int \<times> 'w"

section \<open>The operations\<close>

text \<open>The condition \<open>file->fs->cf == &sockFSConf\<close>; it reads through \<open>file->fs\<close>.\<close>

definition fs_is_sock :: "'w uos \<Rightarrow> nat \<Rightarrow> 'w ustate \<Rightarrow> bool res" where
  "fs_is_sock A f st =
     (case file_fs (files st f) of
        None \<Rightarrow> Inl NullDeref
      | Some SockFS \<Rightarrow> Inr (fs_cf (sockFS st) = Some SockFSConf)
      | Some (OtherFS n) \<Rightarrow> Inr (other_fs_cf A n = Some SockFSConf))"

text \<open>\<open>P_ASSERT\<close> of pico]OS evaluates its condition only where assertions are compiled in.\<close>

definition P_ASSERT :: "'w uos \<Rightarrow> bool res \<Rightarrow> unit res" where
  "P_ASSERT A c =
     (if P_ASSERT_enabled A then rbind c (\<lambda>b. if b then Inr () else Inl AssertFail) else Inr ())"

definition netInit :: "'w uos \<Rightarrow> 'w ustate \<Rightarrow> 'w ustate" where
  "netInit A st =
     uosMount A (st\<lparr>sockFS := \<lparr>mountPoint = Some ''/socket'', fs_cf = Some SockFSConf\<rparr>\<rparr>)"

definition sockInit :: "'w ustate \<Rightarrow> int \<times> 'w ustate" where
  "sockInit st = (0, st)"

definition netLwIP_FD :: "'w uos \<Rightarrow> int \<Rightarrow> 'w ustate \<Rightarrow> int res" where
  "netLwIP_FD A s st =
     (case uosSlot2File A s (ext st) of
        None \<Rightarrow> Inr (- 1)
      | Some file \<Rightarrow>
          rbind (P_ASSERT A (fs_is_sock A file st)) (\<lambda>_. Inr (fsPrivFd (files st file))))"

text \<open>The three assignments that make an allocated file a socket.\<close>

definition set_file :: "nat \<Rightarrow> int \<Rightarrow> 'w ustate \<Rightarrow> 'w ustate" where
  "set_file file sock st =
     st\<lparr>files := (files st)(file :=
       (files st file)\<lparr>file_fs := Some SockFS, file_cf := Some SockConf, fsPrivFd := sock\<rparr>)\<rparr>"

definition socket :: "'w uos \<Rightarrow> int \<Rightarrow> int \<Rightarrow> int \<Rightarrow> 'w ustate \<Rightarrow> int \<times> 'w ustate" where
  "socket A domain type protocol st =
     (case uosFileAlloc A st of
        (None, st) \<Rightarrow> (- 1, st)
      | (Some file, st) \<Rightarrow>
          (let (sock, e) = lwip_socket A domain type protocol (ext st); st = st\<lparr>ext := e\<rparr>
           in if sock = - 1 then (- 1, uosFileFree A file st)
              else (uosFile2Slot A file, set_file file sock st)))"

definition accept ::
    "'w uos \<Rightarrow> int \<Rightarrow> nat \<Rightarrow> nat \<Rightarrow> 'w ustate \<Rightarrow> (int \<times> 'w ustate) res" where
  "accept A s addr addrlen st =
     (case uosFileAlloc A st of
        (None, st) \<Rightarrow> Inr (- 1, st)
      | (Some file, st) \<Rightarrow>
          rbind (netLwIP_FD A s st) (\<lambda>fd.
          let (sock, e) = lwip_accept A fd addr addrlen (ext st); st = st\<lparr>ext := e\<rparr>
          in if sock = - 1 then Inr (- 1, uosFileFree A file st)
             else Inr (uosFile2Slot A file, set_file file sock st)))"

definition sockClose :: "'w uos \<Rightarrow> nat \<Rightarrow> 'w ustate \<Rightarrow> (int \<times> 'w ustate) res" where
  "sockClose A file st =
     rbind (P_ASSERT A (fs_is_sock A file st)) (\<lambda>_.
     let sock = fsPrivFd (files st file);
         (_, e) = lwip_close A sock (ext st)
     in Inr (0, uosFileFree A file (st\<lparr>ext := e\<rparr>)))"

definition sockRead :: "'w uos \<Rightarrow> nat \<Rightarrow> nat \<Rightarrow> int \<Rightarrow> 'w ustate \<Rightarrow> (int \<times> 'w ustate) res" where
  "sockRead A file buf len st =
     rbind (P_ASSERT A (fs_is_sock A file st)) (\<lambda>_.
     let sock = fsPrivFd (files st file);
         (r, e) = lwip_read A sock buf len (ext st)
     in Inr (r, st\<lparr>ext := e\<rparr>))"

definition sockWrite :: "'w uos \<Rightarrow> nat \<Rightarrow> nat \<Rightarrow> int \<Rightarrow> 'w ustate \<Rightarrow> (int \<times> 'w ustate) res" where
  "sockWrite A file buf len st =
     rbind (P_ASSERT A (fs_is_sock A file st)) (\<lambda>_.
     let sock = fsPrivFd (files st file);
         (r, e) = lwip_write A sock buf len (ext st)
     in Inr (r, st\<lparr>ext := e\<rparr>))"

definition sockFStat :: "UosFileInfo \<Rightarrow> int \<times> UosFileInfo" where
  "sockFStat st = (0, st\<lparr>isDir := False, isSocket := True, st_size := 0\<rparr>)"

section \<open>The macros of the socket API\<close>

text \<open>Every macro passes \<open>netLwIP_FD(s)\<close> and its other arguments to an lwIP function.\<close>

definition with_fd ::
    "'w uos \<Rightarrow> int \<Rightarrow> (int \<Rightarrow> 'w \<Rightarrow> int \<times> 'w) \<Rightarrow> 'w ustate \<Rightarrow> (int \<times> 'w ustate) res" where
  "with_fd A s f st =
     rbind (netLwIP_FD A s st) (\<lambda>fd. let (r, e) = f fd (ext st) in Inr (r, st\<lparr>ext := e\<rparr>))"

definition bind_sock where
  "bind_sock A s name namelen = with_fd A s (\<lambda>fd. lwip_bind A fd name namelen)"

definition shutdown where
  "shutdown A s how = with_fd A s (\<lambda>fd. lwip_shutdown A fd how)"

definition getpeername where
  "getpeername A s name namelen = with_fd A s (\<lambda>fd. lwip_getpeername A fd name namelen)"

definition getsockname where
  "getsockname A s name namelen = with_fd A s (\<lambda>fd. lwip_getsockname A fd name namelen)"

definition setsockopt where
  "setsockopt A s level optname optval optlen =
     with_fd A s (\<lambda>fd. lwip_setsockopt A fd level optname optval optlen)"

definition connect where
  "connect A s name namelen = with_fd A s (\<lambda>fd. lwip_connect A fd name namelen)"

definition listen where
  "listen A s backlog = with_fd A s (\<lambda>fd. lwip_listen A fd backlog)"

definition recv where
  "recv A s mem len flags = with_fd A s (\<lambda>fd. lwip_recv A fd mem len flags)"

definition recvfrom where
  "recvfrom A s mem len flags frm fromlen =
     with_fd A s (\<lambda>fd. lwip_recvfrom A fd mem len flags frm fromlen)"

definition send where
  "send A s dataptr sz flags = with_fd A s (\<lambda>fd. lwip_send A fd dataptr sz flags)"

definition sendmsg where
  "sendmsg A s message flags = with_fd A s (\<lambda>fd. lwip_sendmsg A fd message flags)"

definition sendto where
  "sendto A s dataptr sz flags dst tolen =
     with_fd A s (\<lambda>fd. lwip_sendto A fd dataptr sz flags dst tolen)"

definition writev where
  "writev A s iov iovcnt = with_fd A s (\<lambda>fd. lwip_writev A fd iov iovcnt)"

definition closesocket where
  "closesocket A s = with_fd A s (lwip_close A)"

text \<open>
  The macros of the name service only rename functions of lwIP, which are arguments here.
  Their arguments are kept together; they involve no slot, so no file is touched.
\<close>

definition on_ext :: "('w \<Rightarrow> 'r \<times> 'w) \<Rightarrow> 'w ustate \<Rightarrow> 'r \<times> 'w ustate" where
  "on_ext f st = (let (r, e) = f (ext st) in (r, st\<lparr>ext := e\<rparr>))"

definition gethostbyname where
  "gethostbyname lwip_gethostbyname name = on_ext (lwip_gethostbyname name)"

definition gethostbyname_r where
  "gethostbyname_r lwip_gethostbyname_r name ret buf buflen result h_errnop =
     on_ext (lwip_gethostbyname_r name ret buf buflen result h_errnop)"

definition freeaddrinfo where
  "freeaddrinfo lwip_freeaddrinfo addrinfo = on_ext (lwip_freeaddrinfo addrinfo)"

definition getaddrinfo where
  "getaddrinfo lwip_getaddrinfo nodname servname hints res =
     on_ext (lwip_getaddrinfo nodname servname hints res)"

lemma on_ext_files:
  "files (snd (on_ext f st)) = files st" "sockFS (snd (on_ext f st)) = sockFS st"
  by (simp_all add: on_ext_def split_beta)

section \<open>What the code relies on\<close>

text \<open>
  \<open>live e\<close> is the set of allocated files. Allocation returns a file that is not allocated
  and leaves the memory of the others alone; a failing allocation changes nothing; freeing
  takes one file out. Slot numbers are not negative and name exactly the allocated files.
  lwIP knows nothing of the table.
\<close>

definition alloc_ok :: "'w uos \<Rightarrow> ('w \<Rightarrow> nat set) \<Rightarrow> bool" where
  "alloc_ok A live \<longleftrightarrow>
     (\<forall>st st'. uosFileAlloc A st = (None, st') \<longrightarrow> st' = st) \<and>
     (\<forall>st st' f. uosFileAlloc A st = (Some f, st') \<longrightarrow>
        f \<notin> live (ext st) \<and> live (ext st') = insert f (live (ext st)) \<and>
        sockFS st' = sockFS st \<and> (\<forall>g \<in> live (ext st). files st' g = files st g))"

definition free_ok :: "'w uos \<Rightarrow> ('w \<Rightarrow> nat set) \<Rightarrow> bool" where
  "free_ok A live \<longleftrightarrow>
     (\<forall>st f. f \<in> live (ext st) \<longrightarrow>
        live (ext (uosFileFree A f st)) = live (ext st) - {f} \<and>
        sockFS (uosFileFree A f st) = sockFS st \<and>
        (\<forall>g \<in> live (ext st) - {f}. files (uosFileFree A f st) g = files st g))"

definition slots_ok :: "'w uos \<Rightarrow> ('w \<Rightarrow> nat set) \<Rightarrow> bool" where
  "slots_ok A live \<longleftrightarrow>
     inj (uosFile2Slot A) \<and> (\<forall>f. 0 \<le> uosFile2Slot A f) \<and>
     (\<forall>e s f. uosSlot2File A s e = Some f \<longleftrightarrow> f \<in> live e \<and> uosFile2Slot A f = s)"

definition lwip_frame :: "'w uos \<Rightarrow> ('w \<Rightarrow> nat set) \<Rightarrow> bool" where
  "lwip_frame A live \<longleftrightarrow>
     (\<forall>d t p e. live (snd (lwip_socket A d t p e)) = live e) \<and>
     (\<forall>fd a l e. live (snd (lwip_accept A fd a l e)) = live e) \<and>
     (\<forall>fd e. live (snd (lwip_close A fd e)) = live e)"

definition uos_ok :: "'w uos \<Rightarrow> ('w \<Rightarrow> nat set) \<Rightarrow> bool" where
  "uos_ok A live \<longleftrightarrow>
     P_ASSERT_enabled A \<and> (\<forall>n. other_fs_cf A n \<noteq> Some SockFSConf) \<and>
     alloc_ok A live \<and> free_ok A live \<and> slots_ok A live \<and> lwip_frame A live"

section \<open>The abstract table\<close>

text \<open>The invariant: \<open>netInit\<close> ran and every allocated file belongs to a file system.\<close>

definition uos_inv :: "('w \<Rightarrow> nat set) \<Rightarrow> 'w ustate \<Rightarrow> bool" where
  "uos_inv live st \<longleftrightarrow>
     fs_cf (sockFS st) = Some SockFSConf \<and> (\<forall>f \<in> live (ext st). file_fs (files st f) \<noteq> None)"

text \<open>The open sockets: slots to lwIP descriptors.\<close>

definition socks :: "'w uos \<Rightarrow> 'w ustate \<Rightarrow> int \<Rightarrow> int option" where
  "socks A st s =
     (case uosSlot2File A s (ext st) of
        None \<Rightarrow> None
      | Some f \<Rightarrow> if file_fs (files st f) = Some SockFS then Some (fsPrivFd (files st f)) else None)"

lemma slot_iff:
  "uos_ok A live \<Longrightarrow> uosSlot2File A s e = Some f \<longleftrightarrow> f \<in> live e \<and> uosFile2Slot A f = s"
  unfolding uos_ok_def slots_ok_def by blast

lemma slot_inj: "uos_ok A live \<Longrightarrow> uosFile2Slot A f = uosFile2Slot A g \<longleftrightarrow> f = g"
  unfolding uos_ok_def slots_ok_def by (blast dest: injD)

lemma slot_nonneg: "uos_ok A live \<Longrightarrow> uosFile2Slot A f \<noteq> - 1"
  unfolding uos_ok_def slots_ok_def by (metis neg_0_le_iff_le not_one_le_zero)

lemma alloc_SomeD:
  "uos_ok A live \<Longrightarrow> uosFileAlloc A st = (Some f, st') \<Longrightarrow>
   f \<notin> live (ext st) \<and> live (ext st') = insert f (live (ext st)) \<and> sockFS st' = sockFS st \<and>
   (\<forall>g \<in> live (ext st). files st' g = files st g)"
  unfolding uos_ok_def alloc_ok_def by blast

lemma alloc_NoneD: "uos_ok A live \<Longrightarrow> uosFileAlloc A st = (None, st') \<Longrightarrow> st' = st"
  unfolding uos_ok_def alloc_ok_def by blast

lemma freeD:
  "uos_ok A live \<Longrightarrow> f \<in> live (ext st) \<Longrightarrow>
   live (ext (uosFileFree A f st)) = live (ext st) - {f} \<and>
   sockFS (uosFileFree A f st) = sockFS st \<and>
   (\<forall>g \<in> live (ext st) - {f}. files (uosFileFree A f st) g = files st g)"
  unfolding uos_ok_def free_ok_def by blast

lemma lwip_frameD:
  assumes "uos_ok A live"
  shows "live (snd (lwip_socket A d t p e)) = live e" "live (snd (lwip_accept A fd a l e)) = live e"
    "live (snd (lwip_close A fd e)) = live e"
  using assms unfolding uos_ok_def lwip_frame_def by blast+

text \<open>The table by files: \<open>s\<close> is open on \<open>fd\<close> iff an allocated socket file says so.\<close>

lemma socks_iff:
  assumes "uos_ok A live"
  shows "socks A st s = Some fd \<longleftrightarrow>
    (\<exists>f \<in> live (ext st). uosFile2Slot A f = s \<and> file_fs (files st f) = Some SockFS \<and>
      fsPrivFd (files st f) = fd)"
proof (cases "uosSlot2File A s (ext st)")
  case None
  then have "\<not> (f \<in> live (ext st) \<and> uosFile2Slot A f = s)" for f
    using slot_iff [OF assms, of s "ext st" f] by simp
  with None show ?thesis by (auto simp: socks_def)
next
  case (Some f)
  then have "f \<in> live (ext st) \<and> uosFile2Slot A f = s" using slot_iff [OF assms] by blast
  with Some show ?thesis using slot_inj [OF assms] by (auto simp: socks_def)
qed

text \<open>Two states with the same allocated files and the same contents of them agree.\<close>

lemma socks_frame:
  assumes "uos_ok A live" and "live (ext st') = live (ext st)"
    and "\<And>f. f \<in> live (ext st) \<Longrightarrow> files st' f = files st f"
  shows "socks A st' = socks A st"
  by (rule ext, rule option_eqI) (auto simp: socks_iff [OF assms(1)] assms(2,3))

lemma socks_add:
  assumes ok: "uos_ok A live" and "f \<notin> live (ext st)" and "live (ext st') = insert f (live (ext st))"
    and "\<And>g. g \<in> live (ext st) \<Longrightarrow> files st' g = files st g"
    and "file_fs (files st' f) = Some SockFS" and "fsPrivFd (files st' f) = fd"
  shows "socks A st' = (socks A st)(uosFile2Slot A f \<mapsto> fd) \<and> socks A st (uosFile2Slot A f) = None"
proof
  show none: "socks A st (uosFile2Slot A f) = None"
    using assms(2) slot_inj [OF ok] socks_iff [OF ok, of st "uosFile2Slot A f"]
    by (cases "socks A st (uosFile2Slot A f)") auto
  show "socks A st' = (socks A st)(uosFile2Slot A f \<mapsto> fd)"
  proof (rule HOL.ext, rule option_eqI)
    fix s y
    have "g \<in> live (ext st) \<Longrightarrow> g \<noteq> f" for g using assms(2) by blast
    then show "socks A st' s = Some y \<longleftrightarrow> ((socks A st)(uosFile2Slot A f \<mapsto> fd)) s = Some y"
      unfolding socks_iff [OF ok, of st'] assms(3) fun_upd_apply using assms(4-6)
      by (auto simp: socks_iff [OF ok, of st] slot_inj [OF ok])
  qed
qed

lemma socks_remove:
  assumes ok: "uos_ok A live" and "live (ext st') = live (ext st) - {f}"
    and "\<And>g. g \<in> live (ext st) - {f} \<Longrightarrow> files st' g = files st g"
  shows "socks A st' = (socks A st)(uosFile2Slot A f := None)"
proof (rule HOL.ext, rule option_eqI)
  fix s y
  show "socks A st' s = Some y \<longleftrightarrow> ((socks A st)(uosFile2Slot A f := None)) s = Some y"
    unfolding socks_iff [OF ok, of st'] assms(2) fun_upd_apply using assms(3)
    by (auto simp: socks_iff [OF ok, of st] slot_inj [OF ok])
qed

end
