(* ===== verification/Sockets_Table.thy ===== *)
theory Sockets_Table
  imports Sockets
begin

text \<open>
  What each operation of \<open>sockets.c\<close> does to the table of open sockets, branch by branch,
  and the contract \<open>slot_table\<close> with its interpretation on the model: over any run of
  opening and closing operations no slot is leaked.
\<close>

section \<open>Opening\<close>

lemma set_file_simps [simp]:
  "sockFS (set_file f fd st) = sockFS st" "ext (set_file f fd st) = ext st"
  "files (set_file f fd st) g = (if g = f then
     (files st f)\<lparr>file_fs := Some SockFS, file_cf := Some SockConf, fsPrivFd := fd\<rparr> else files st g)"
  by (simp_all add: set_file_def)

text \<open>
  What an opening operation leaves behind, where the call to lwIP returned \<open>r\<close>: on -1 the
  allocated file is released again and the table is as it was.
\<close>

definition opened :: "'w uos \<Rightarrow> ('w \<Rightarrow> nat set) \<Rightarrow> 'w ustate \<Rightarrow> int \<Rightarrow> int \<Rightarrow> 'w ustate \<Rightarrow> bool" where
  "opened A live st fd s st' \<longleftrightarrow>
     uos_inv live st' \<and>
     (if fd = - 1 then s = - 1 \<and> socks A st' = socks A st \<and> live (ext st') = live (ext st)
      else s \<noteq> - 1 \<and> socks A st s = None \<and> socks A st' = (socks A st)(s \<mapsto> fd) \<and>
        (\<exists>f. f \<notin> live (ext st) \<and> live (ext st') = insert f (live (ext st)) \<and> uosFile2Slot A f = s))"

lemma opened_by:
  assumes ok: "uos_ok A live" and inv: "uos_inv live st"
    and al: "uosFileAlloc A st = (Some f, st1)"
    and e: "live e = live (ext st1)"
    and r: "(s, st') = (if fd = - 1 then (- 1, uosFileFree A f (st1\<lparr>ext := e\<rparr>))
      else (uosFile2Slot A f, set_file f fd (st1\<lparr>ext := e\<rparr>)))"
  shows "opened A live st fd s st'"
proof -
  note a = alloc_SomeD [OF ok al]
  show ?thesis
  proof (cases "fd = - 1")
    case True
    let ?st2 = "st1\<lparr>ext := e\<rparr>"
    have "f \<in> live (ext ?st2)" using a e by simp
    note fr = freeD [OF ok this]
    have st': "st' = uosFileFree A f ?st2" "s = - 1" using r True by simp_all
    have l: "live (ext st') = live (ext st)" using fr a e by (simp add: st')
    have fl: "files st' g = files st g" if g: "g \<in> live (ext st)" for g
    proof -
      have "g \<in> live (ext ?st2) - {f}" using g a e by auto
      with fr have "files st' g = files ?st2 g" by (simp add: st')
      with a g show ?thesis by simp
    qed
    have "socks A st' = socks A st" by (rule socks_frame [OF ok l fl])
    moreover have "fs_cf (sockFS st') = Some SockFSConf"
      using fr a inv by (simp add: uos_inv_def st')
    then have "uos_inv live st'" using inv fl by (simp add: uos_inv_def l)
    ultimately show ?thesis using True l st' by (simp add: opened_def)
  next
    case False
    then have st': "st' = set_file f fd (st1\<lparr>ext := e\<rparr>)" "s = uosFile2Slot A f"
      using r by simp_all
    have l: "live (ext st') = insert f (live (ext st))" using a e by (simp add: st')
    have ne: "g \<in> live (ext st) \<Longrightarrow> g \<noteq> f" for g using a by blast
    have fl: "files st' g = files st g" if "g \<in> live (ext st)" for g
      using a ne [OF that] that by (simp add: st')
    have sf: "file_fs (files st' f) = Some SockFS" "fsPrivFd (files st' f) = fd"
      by (simp_all add: st')
    have "f \<notin> live (ext st)" using a by blast
    note ad = socks_add [OF ok this l fl sf]
    have "fs_cf (sockFS st') = Some SockFSConf"
      using a inv by (simp add: uos_inv_def st')
    then have "uos_inv live st'" using inv fl sf by (simp add: uos_inv_def l)
    moreover have "f \<notin> live (ext st)" using a by blast
    moreover have "s \<noteq> - 1" using slot_nonneg [OF ok] st' by simp
    ultimately show ?thesis using ad l False unfolding opened_def st'(2) by auto
  qed
qed

lemma socket_cases:
  assumes "uos_ok A live" and "uos_inv live st" and "socket A d t p st = (s, st')"
  shows "(s = - 1 \<and> st' = st) \<or>
    (\<exists>f st1 fd e. uosFileAlloc A st = (Some f, st1) \<and> lwip_socket A d t p (ext st1) = (fd, e) \<and>
      opened A live st fd s st')"
proof (cases "uosFileAlloc A st")
  case (Pair fo st1)
  show ?thesis
  proof (cases fo)
    case None
    with Pair assms(3) alloc_NoneD [OF assms(1)] show ?thesis by (simp add: socket_def)
  next
    case (Some f)
    obtain fd e where l: "lwip_socket A d t p (ext st1) = (fd, e)" by fastforce
    have al: "uosFileAlloc A st = (Some f, st1)" using Pair Some by simp
    have "live e = live (ext st1)" using lwip_frameD(1) [OF assms(1), of d t p "ext st1"] l by simp
    moreover have "(s, st') = (if fd = - 1 then (- 1, uosFileFree A f (st1\<lparr>ext := e\<rparr>))
      else (uosFile2Slot A f, set_file f fd (st1\<lparr>ext := e\<rparr>)))"
      using assms(3) al l by (simp add: socket_def Let_def split: if_splits)
    ultimately have "opened A live st fd s st'" by (rule opened_by [OF assms(1,2) al])
    with al l show ?thesis by blast
  qed
qed

lemma accept_cases:
  assumes "uos_ok A live" and "uos_inv live st" and "accept A ls a al st = Inr (s, st')"
  shows "(s = - 1 \<and> st' = st) \<or>
    (\<exists>f st1 lfd fd e. uosFileAlloc A st = (Some f, st1) \<and> netLwIP_FD A ls st1 = Inr lfd \<and>
      lwip_accept A lfd a al (ext st1) = (fd, e) \<and> opened A live st fd s st')"
proof (cases "uosFileAlloc A st")
  case (Pair fo st1)
  show ?thesis
  proof (cases fo)
    case None
    with Pair assms(3) alloc_NoneD [OF assms(1)] show ?thesis by (simp add: accept_def)
  next
    case (Some f)
    have alc: "uosFileAlloc A st = (Some f, st1)" using Pair Some by simp
    with assms(3) obtain lfd where n: "netLwIP_FD A ls st1 = Inr lfd"
      by (auto simp: accept_def rbind_eq_Inr_iff)
    obtain fd e where l: "lwip_accept A lfd a al (ext st1) = (fd, e)" by fastforce
    have "live e = live (ext st1)" using lwip_frameD(2) [OF assms(1), of lfd a al "ext st1"] l by simp
    moreover have "(s, st') = (if fd = - 1 then (- 1, uosFileFree A f (st1\<lparr>ext := e\<rparr>))
      else (uosFile2Slot A f, set_file f fd (st1\<lparr>ext := e\<rparr>)))"
      using assms(3) alc n l by (simp add: accept_def Let_def split: if_splits)
    ultimately have "opened A live st fd s st'" by (rule opened_by [OF assms(1,2) alc])
    with alc n l show ?thesis by blast
  qed
qed

section \<open>The descriptor of a slot\<close>

lemma fs_is_sock_live:
  assumes "uos_ok A live" and "uos_inv live st" and "f \<in> live (ext st)"
  shows "fs_is_sock A f st = Inr (file_fs (files st f) = Some SockFS)"
  using assms
  by (auto simp: fs_is_sock_def uos_inv_def uos_ok_def split: option.splits fs_ptr.splits)

text \<open>An unused slot gives -1, an open socket its descriptor, another file a failed assertion.\<close>

lemma netLwIP_FD_eq:
  assumes "uos_ok A live" and "uos_inv live st"
  shows "netLwIP_FD A s st =
    (case uosSlot2File A s (ext st) of None \<Rightarrow> Inr (- 1)
     | Some _ \<Rightarrow> (case socks A st s of None \<Rightarrow> Inl AssertFail | Some fd \<Rightarrow> Inr fd))"
proof (cases "uosSlot2File A s (ext st)")
  case None
  then show ?thesis by (simp add: netLwIP_FD_def)
next
  case (Some f)
  then have "f \<in> live (ext st)" using slot_iff [OF assms(1)] by blast
  with Some assms(1) show ?thesis
    by (simp add: netLwIP_FD_def P_ASSERT_def fs_is_sock_live [OF assms] socks_def uos_ok_def)
qed

section \<open>Reading, writing, closing\<close>

lemma P_ASSERT_sock:
  assumes "uos_ok A live" and "uos_inv live st" and "f \<in> live (ext st)"
  shows "P_ASSERT A (fs_is_sock A f st) =
    (if file_fs (files st f) = Some SockFS then Inr () else Inl AssertFail)"
  using assms(1) by (simp add: P_ASSERT_def fs_is_sock_live [OF assms] uos_ok_def)

text \<open>\<open>close\<close> on a socket file: the descriptor is closed, the slot leaves the table.\<close>

lemma sockClose_cases:
  assumes ok: "uos_ok A live" and inv: "uos_inv live st" and f: "f \<in> live (ext st)"
  shows "case socks A st (uosFile2Slot A f) of
      None \<Rightarrow> sockClose A f st = Inl AssertFail
    | Some fd \<Rightarrow> \<exists>st'. sockClose A f st = Inr (0, st') \<and>
        st' = uosFileFree A f (st\<lparr>ext := snd (lwip_close A fd (ext st))\<rparr>) \<and> uos_inv live st' \<and>
        socks A st' = (socks A st)(uosFile2Slot A f := None) \<and> live (ext st') = live (ext st) - {f}"
proof -
  have g: "uosSlot2File A (uosFile2Slot A f) (ext st) = Some f" using slot_iff [OF ok] f by blast
  note p = P_ASSERT_sock [OF ok inv f]
  show ?thesis
  proof (cases "file_fs (files st f) = Some SockFS")
    case False
    with g p show ?thesis by (simp add: socks_def sockClose_def)
  next
    case True
    define st1 where "st1 = st\<lparr>ext := snd (lwip_close A (fsPrivFd (files st f)) (ext st))\<rparr>"
    have l1: "live (ext st1) = live (ext st)" "files st1 = files st" "sockFS st1 = sockFS st"
      using lwip_frameD(3) [OF ok] by (simp_all add: st1_def)
    have "f \<in> live (ext st1)" using f l1 by simp
    note fr = freeD [OF ok this, unfolded l1]
    have "socks A (uosFileFree A f st1) = (socks A st)(uosFile2Slot A f := None)"
      using socks_remove [OF ok, of "uosFileFree A f st1" st f] fr by auto
    moreover have "uos_inv live (uosFileFree A f st1)" using inv fr by (auto simp: uos_inv_def)
    ultimately show ?thesis
      using True g p fr by (simp add: socks_def sockClose_def split_beta flip: st1_def)
  qed
qed

section \<open>The contract of the table\<close>

datatype 'a table_op = Open 'a | Close nat

text \<open>
  A run with the ledger of the caller: a slot that a call returned is in use from then on, the
  slot of a file that was closed is free. Only files in use are closed.
\<close>

fun table_run ::
    "('a \<Rightarrow> 's \<Rightarrow> (int \<times> 's) res) \<Rightarrow> (nat \<Rightarrow> 's \<Rightarrow> (int \<times> 's) res) \<Rightarrow> (nat \<Rightarrow> int) \<Rightarrow>
     'a table_op list \<Rightarrow> int set \<times> 's \<Rightarrow> (int set \<times> 's) res" where
  "table_run opn cls slot [] (u, st) = Inr (u, st)"
| "table_run opn cls slot (Open x # ops) (u, st) =
     rbind (opn x st) (\<lambda>(s, st). table_run opn cls slot ops (if s = - 1 then u else insert s u, st))"
| "table_run opn cls slot (Close f # ops) (u, st) =
     (if slot f \<in> u then rbind (cls f st) (\<lambda>(_, st). table_run opn cls slot ops (u - {slot f}, st))
      else table_run opn cls slot ops (u, st))"

text \<open>
  \<open>table\<close> are the open sockets, \<open>slots\<close> all slots in use. Opening takes a free slot or
  changes nothing; closing works on open sockets only, and gives back the slot.
\<close>

locale slot_table =
  fixes opn :: "'a \<Rightarrow> 's \<Rightarrow> (int \<times> 's) res"
    and cls :: "nat \<Rightarrow> 's \<Rightarrow> (int \<times> 's) res"
    and slot :: "nat \<Rightarrow> int"
    and table :: "'s \<Rightarrow> int \<Rightarrow> int option"
    and slots :: "'s \<Rightarrow> int set"
    and invar :: "'s \<Rightarrow> bool"
  assumes open_law: "invar st \<Longrightarrow> opn x st = Inr (s, st') \<Longrightarrow> invar st' \<and>
      (if s = - 1 then table st' = table st \<and> slots st' = slots st
       else s \<notin> slots st \<and> slots st' = insert s (slots st) \<and> (\<exists>fd. table st' = (table st)(s \<mapsto> fd)))"
    and close_law: "invar st \<Longrightarrow> slot f \<in> slots st \<Longrightarrow> cls f st = Inr (r, st') \<Longrightarrow> invar st' \<and>
      slot f \<in> dom (table st) \<and> table st' = (table st)(slot f := None) \<and> slots st' = slots st - {slot f}"
    and table_slots: "invar st \<Longrightarrow> dom (table st) \<subseteq> slots st"
begin

text \<open>The ledger is right, and the slots that are no sockets stay as they are.\<close>

theorem run_ledger:
  "invar st \<Longrightarrow> table_run opn cls slot ops (slots st, st) = Inr (u, st') \<Longrightarrow>
   invar st' \<and> slots st' = u \<and> u - dom (table st') = slots st - dom (table st)"
proof (induction ops arbitrary: st)
  case Nil
  then show ?case by auto
next
  case (Cons x ops)
  note t = table_slots [OF Cons.prems(1)]
  show ?case
  proof (cases x)
    case (Open a)
    with Cons.prems(2) obtain s st1 where s: "opn a st = Inr (s, st1)"
      and r: "table_run opn cls slot ops (if s = - 1 then slots st else insert s (slots st), st1) = Inr (u, st')"
      by (auto simp: rbind_eq_Inr_iff)
    note l = open_law [OF Cons.prems(1) s]
    have "table_run opn cls slot ops (slots st1, st1) = Inr (u, st')" using r l by (auto split: if_splits)
    note IH = Cons.IH [OF conjunct1 [OF l] this]
    have "slots st1 - dom (table st1) = slots st - dom (table st)" using l t by (auto split: if_splits)
    with IH show ?thesis by simp
  next
    case (Close f)
    show ?thesis
    proof (cases "slot f \<in> slots st")
      case True
      with Close Cons.prems(2) obtain s st1 where s: "cls f st = Inr (s, st1)"
        and r: "table_run opn cls slot ops (slots st - {slot f}, st1) = Inr (u, st')"
        by (auto simp: rbind_eq_Inr_iff)
      note l = close_law [OF Cons.prems(1) True s]
      with r have "table_run opn cls slot ops (slots st1, st1) = Inr (u, st')" by simp
      note IH = Cons.IH [OF conjunct1 [OF l] this]
      have "slots st1 - dom (table st1) = slots st - dom (table st)" using l by auto
      with IH show ?thesis by simp
    next
      case False
      with Close Cons show ?thesis by simp
    qed
  qed
qed

lemma run_sockets:
  assumes "invar st" and "table_run opn cls slot ops (slots st, st) = Inr (u, st')"
  shows "dom (table st') = u - (slots st - dom (table st))"
  using run_ledger [OF assms] table_slots [of st'] by auto

end

section \<open>The socket table keeps the contract\<close>

datatype sock_open = Socket int int int | Accept int nat nat

fun open_slot :: "'w uos \<Rightarrow> sock_open \<Rightarrow> 'w ustate \<Rightarrow> (int \<times> 'w ustate) res" where
  "open_slot A (Socket d t p) st = Inr (socket A d t p st)"
| "open_slot A (Accept s a al) st = accept A s a al st"

definition used_slots :: "'w uos \<Rightarrow> ('w \<Rightarrow> nat set) \<Rightarrow> 'w ustate \<Rightarrow> int set" where
  "used_slots A live st = uosFile2Slot A ` live (ext st)"

definition table_inv :: "'w uos \<Rightarrow> ('w \<Rightarrow> nat set) \<Rightarrow> 'w ustate \<Rightarrow> bool" where
  "table_inv A live st \<longleftrightarrow> uos_ok A live \<and> uos_inv live st"

lemma opened_law:
  assumes "uos_ok A live" and "opened A live st fd s st'"
  shows "table_inv A live st' \<and>
    (if s = - 1 then socks A st' = socks A st \<and> used_slots A live st' = used_slots A live st
     else s \<notin> used_slots A live st \<and> used_slots A live st' = insert s (used_slots A live st) \<and>
       (\<exists>fd. socks A st' = (socks A st)(s \<mapsto> fd)))"
  using assms slot_inj [OF assms(1)]
  by (auto simp: opened_def table_inv_def used_slots_def split: if_splits)

interpretation sockt: slot_table "open_slot A" "sockClose A" "uosFile2Slot A" "socks A" "used_slots A live"
  "table_inv A live"
  for A :: "'w uos" and live
proof
  fix st x s st'
  assume i: "table_inv A live st" and r: "open_slot A x st = Inr (s, st')"
  from i have ok: "uos_ok A live" and inv: "uos_inv live st" by (simp_all add: table_inv_def)
  have "(s = - 1 \<and> st' = st) \<or> (\<exists>fd. opened A live st fd s st')"
  proof (cases x)
    case (Socket d t p)
    with r have "socket A d t p st = (s, st')" by simp
    from socket_cases [OF ok inv this] show ?thesis by blast
  next
    case (Accept l a al)
    with r have "accept A l a al st = Inr (s, st')" by simp
    from accept_cases [OF ok inv this] show ?thesis by blast
  qed
  then show "table_inv A live st' \<and>
      (if s = - 1 then socks A st' = socks A st \<and> used_slots A live st' = used_slots A live st
       else s \<notin> used_slots A live st \<and> used_slots A live st' = insert s (used_slots A live st) \<and>
         (\<exists>fd. socks A st' = (socks A st)(s \<mapsto> fd)))"
    using opened_law [OF ok] i by auto
next
  fix st f r st'
  assume i: "table_inv A live st" and u: "uosFile2Slot A f \<in> used_slots A live st"
    and c: "sockClose A f st = Inr (r, st')"
  from i have ok: "uos_ok A live" and inv: "uos_inv live st" by (simp_all add: table_inv_def)
  from u have "f \<in> live (ext st)" using slot_inj [OF ok] by (auto simp: used_slots_def)
  from sockClose_cases [OF ok inv this] c
  show "table_inv A live st' \<and> uosFile2Slot A f \<in> dom (socks A st) \<and>
      socks A st' = (socks A st)(uosFile2Slot A f := None) \<and>
      used_slots A live st' = used_slots A live st - {uosFile2Slot A f}"
    using slot_inj [OF ok] ok by (auto simp: table_inv_def used_slots_def split: option.splits)
next
  fix st
  assume "table_inv A live st"
  then show "dom (socks A st) \<subseteq> used_slots A live st"
    using socks_iff [of A live st] by (fastforce simp: table_inv_def used_slots_def)
qed

end
