(* ===== verification/Sockets_Tasks.thy ===== *)
theory Sockets_Tasks
  imports Sockets_Table
begin

text \<open>
  The socket layer between several tasks (\<open>sockets.c\<close>): \<open>socket\<close>, \<open>accept\<close> and \<open>sockClose\<close>
  are sequences of calls of picoos-micro and lwIP, which serialise each call but not the
  sequence. A task is at a point of one of the functions (\<open>sock_pc\<close>), and the tasks take
  their steps in any order. Files and descriptors are resources with an owner, the
  application or a task on its way.
\<close>

section \<open>Resources and owners\<close>

text \<open>\<open>R\<close> are the resources in use: \<open>X\<close> are those of others, the rest has one owner each.\<close>

definition owned :: "('o \<Rightarrow> 'r option) \<Rightarrow> 'r set \<Rightarrow> 'r set \<Rightarrow> bool" where
  "owned own X R \<longleftrightarrow>
     R = X \<union> ran own \<and> X \<inter> ran own = {} \<and> (\<forall>p q r. own p = Some r \<longrightarrow> own q = Some r \<longrightarrow> p = q)"

lemma ownedD:
  assumes "owned own X R"
  shows "own p = Some r \<Longrightarrow> r \<in> R" "own p = Some r \<Longrightarrow> r \<notin> X" "own p = Some r \<Longrightarrow> own q = Some r \<Longrightarrow> p = q"
  using assms unfolding owned_def ran_def by blast+

lemma owned_gain:
  assumes "owned own X R" and "own p = None" and "r \<notin> R"
  shows "owned (own(p \<mapsto> r)) X (insert r R)"
proof -
  have "own q \<noteq> Some r" for q using assms(1,3) ownedD(1) by metis
  then show ?thesis using assms unfolding owned_def by auto
qed

lemma owned_lose:
  assumes "owned own X R" and "own p = Some r"
  shows "owned (own(p := None)) X (R - {r})"
proof -
  have p: "own q = Some r \<longleftrightarrow> q = p" for q using ownedD(3) [OF assms(1)] assms(2) by blast
  then have "ran (own(p := None)) = ran own - {r}"
    unfolding ran_def by (auto split: if_splits) (metis assms(2) option.inject)
  moreover have "R - {r} = X \<union> (ran own - {r})"
    using assms(1) ownedD(2) [OF assms] unfolding owned_def by blast
  moreover have "X \<inter> (ran own - {r}) = {}" using assms(1) by (auto simp: owned_def)
  moreover have "x = y" if "(own(p := None)) x = Some z" "(own(p := None)) y = Some z" for x y z
    using that ownedD(3) [OF assms(1), of x z y] by (auto split: if_splits)
  ultimately show ?thesis unfolding owned_def by metis
qed

lemma owned_move:
  assumes "owned own X R" and "own p = Some r" and "own q = None"
  shows "owned (own(p := None, q \<mapsto> r)) X R"
proof -
  have "r \<in> R" "p \<noteq> q" using ownedD(1) [OF assms(1,2)] assms(2,3) by auto
  with owned_gain [OF owned_lose [OF assms(1,2)], of q r] assms(3) show ?thesis by (simp add: insert_absorb)
qed

section \<open>The points of the functions\<close>

datatype sock_pc =
    Begin_socket int int int | Socket_file nat int int int
  | Begin_accept int nat nat | Accept_file nat int nat nat | Accept_wait nat int nat nat
  | Got nat int
  | Opened "nat option" int
  | Begin_close nat | Close_lwip nat int | Close_free nat | Closed int

text \<open>
  One step, up to and including the next call of picoos-micro or lwIP. \<open>Got\<close> is after the
  call to lwIP in \<open>socket\<close> and \<open>accept\<close>; \<open>Opened\<close> carries the file behind the slot beside the
  result. Done calls stay as they are.
\<close>

fun sock_pc_step :: "'w uos \<Rightarrow> sock_pc \<Rightarrow> 'w ustate \<Rightarrow> (sock_pc \<times> 'w ustate) res" where
  "sock_pc_step A (Begin_socket d t p) st =
     (case uosFileAlloc A st of
        (None, st) \<Rightarrow> Inr (Opened None (- 1), st)
      | (Some f, st) \<Rightarrow> Inr (Socket_file f d t p, st))"
| "sock_pc_step A (Socket_file f d t p) st =
     (let (fd, e) = lwip_socket A d t p (ext st) in Inr (Got f fd, st\<lparr>ext := e\<rparr>))"
| "sock_pc_step A (Begin_accept s a l) st =
     (case uosFileAlloc A st of
        (None, st) \<Rightarrow> Inr (Opened None (- 1), st)
      | (Some f, st) \<Rightarrow> Inr (Accept_file f s a l, st))"
| "sock_pc_step A (Accept_file f s a l) st =
     rbind (netLwIP_FD A s st) (\<lambda>fd. Inr (Accept_wait f fd a l, st))"
| "sock_pc_step A (Accept_wait f fd a l) st =
     (let (fd, e) = lwip_accept A fd a l (ext st) in Inr (Got f fd, st\<lparr>ext := e\<rparr>))"
| "sock_pc_step A (Got f fd) st =
     (if fd = - 1 then Inr (Opened None (- 1), uosFileFree A f st)
      else Inr (Opened (Some f) (uosFile2Slot A f), set_file f fd st))"
| "sock_pc_step A (Opened fo s) st = Inr (Opened fo s, st)"
| "sock_pc_step A (Begin_close f) st =
     rbind (P_ASSERT A (fs_is_sock A f st)) (\<lambda>_. Inr (Close_lwip f (fsPrivFd (files st f)), st))"
| "sock_pc_step A (Close_lwip f fd) st =
     (let (_, e) = lwip_close A fd (ext st) in Inr (Close_free f, st\<lparr>ext := e\<rparr>))"
| "sock_pc_step A (Close_free f) st = Inr (Closed 0, uosFileFree A f st)"
| "sock_pc_step A (Closed r) st = Inr (Closed r, st)"

fun pc_result :: "sock_pc \<Rightarrow> int" where
  "pc_result (Opened _ s) = s"
| "pc_result (Closed r) = r"
| "pc_result _ = 0"

text \<open>A call without interruption has at most four steps, and is the function.\<close>

fun run_pc :: "'w uos \<Rightarrow> nat \<Rightarrow> sock_pc \<Rightarrow> 'w ustate \<Rightarrow> (int \<times> 'w ustate) res" where
  "run_pc A 0 pc st = Inr (pc_result pc, st)"
| "run_pc A (Suc n) pc st = rbind (sock_pc_step A pc st) (\<lambda>(pc, st). run_pc A n pc st)"

lemma run_socket: "run_pc A 3 (Begin_socket d t p) st = Inr (socket A d t p st)"
  by (simp add: socket_def numeral_3_eq_3 Let_def split: prod.splits option.splits)

lemma run_accept: "run_pc A 4 (Begin_accept s a l) st = accept A s a l st"
proof (cases "uosFileAlloc A st")
  case (Pair fo st1)
  then show ?thesis
    by (cases fo; cases "netLwIP_FD A s st1") (simp_all add: accept_def eval_nat_numeral split_beta Let_def)
qed

lemma run_close: "run_pc A 3 (Begin_close f) st = sockClose A f st"
  by (simp add: sockClose_def numeral_3_eq_3 rbind_assoc split_beta Let_def)

section \<open>The tasks\<close>

text \<open>The call each task is in, and the files whose slots the application holds.\<close>

record 'w sock_sys =
  tab :: "'w ustate"
  doing :: "nat \<Rightarrow> sock_pc option"
  held :: "nat set"

text \<open>
  A slot is closed by one task, on a socket the application holds; picoos-micro looks the
  file up. \<open>Other\<close> is anything else that goes on in lwIP and in the files of others.
\<close>

inductive sock_step ::
    "'w uos \<Rightarrow> ('w \<Rightarrow> nat set) \<Rightarrow> ('w \<Rightarrow> int set) \<Rightarrow> 'w sock_sys \<Rightarrow> 'w sock_sys \<Rightarrow> bool" for A live fds where
    Call_socket: "doing s i = None \<Longrightarrow>
      sock_step A live fds s (s\<lparr>doing := (doing s)(i \<mapsto> Begin_socket d t p)\<rparr>)"
  | Call_accept: "doing s i = None \<Longrightarrow>
      sock_step A live fds s (s\<lparr>doing := (doing s)(i \<mapsto> Begin_accept l a al)\<rparr>)"
  | Call_close: "doing s i = None \<Longrightarrow> f \<in> held s \<Longrightarrow>
      sock_step A live fds s (s\<lparr>doing := (doing s)(i \<mapsto> Begin_close f), held := held s - {f}\<rparr>)"
  | Step: "doing s i = Some pc \<Longrightarrow> sock_pc_step A pc (tab s) = Inr (pc', t) \<Longrightarrow>
      sock_step A live fds s (s\<lparr>tab := t, doing := (doing s)(i \<mapsto> pc')\<rparr>)"
  | Return_open: "doing s i = Some (Opened fo r) \<Longrightarrow>
      sock_step A live fds s (s\<lparr>doing := (doing s)(i := None), held := held s \<union> set_option fo\<rparr>)"
  | Return_close: "doing s i = Some (Closed r) \<Longrightarrow>
      sock_step A live fds s (s\<lparr>doing := (doing s)(i := None)\<rparr>)"
  | Other: "live e = live (ext (tab s)) \<Longrightarrow> fds e = fds (ext (tab s)) \<Longrightarrow>
      sock_step A live fds s (s\<lparr>tab := (tab s)\<lparr>ext := e\<rparr>\<rparr>)"

text \<open>At the start the files \<open>X\<close> and the descriptors \<open>F\<close> are those of others.\<close>

inductive sock_reach ::
    "'w uos \<Rightarrow> ('w \<Rightarrow> nat set) \<Rightarrow> ('w \<Rightarrow> int set) \<Rightarrow> nat set \<Rightarrow> int set \<Rightarrow> 'w sock_sys \<Rightarrow> bool"
  for A live fds X F where
    Start: "fs_cf (sockFS (tab s)) = Some SockFSConf \<Longrightarrow> live (ext (tab s)) = X \<Longrightarrow> fds (ext (tab s)) = F \<Longrightarrow>
      (\<And>i. doing s i = None) \<Longrightarrow> held s = {} \<Longrightarrow> sock_reach A live fds X F s"
  | Next: "sock_reach A live fds X F s \<Longrightarrow> sock_step A live fds s s' \<Longrightarrow> sock_reach A live fds X F s'"

text \<open>
  The descriptors of lwIP: a new socket has a new one, closing one gives it back; the file
  table does not touch them.
\<close>

definition fds_ok :: "'w uos \<Rightarrow> ('w \<Rightarrow> int set) \<Rightarrow> bool" where
  "fds_ok A fds \<longleftrightarrow>
     (\<forall>d t p e. case lwip_socket A d t p e of (fd, e') \<Rightarrow>
        if fd = - 1 then fds e' = fds e else fd \<notin> fds e \<and> fds e' = insert fd (fds e)) \<and>
     (\<forall>l a al e. case lwip_accept A l a al e of (fd, e') \<Rightarrow>
        if fd = - 1 then fds e' = fds e else fd \<notin> fds e \<and> fds e' = insert fd (fds e)) \<and>
     (\<forall>fd e. fd \<in> fds e \<longrightarrow> fds (snd (lwip_close A fd e)) = fds e - {fd}) \<and>
     (\<forall>st. fds (ext (snd (uosFileAlloc A st))) = fds (ext st)) \<and>
     (\<forall>f st. fds (ext (uosFileFree A f st)) = fds (ext st))"

lemma fds_okD:
  assumes "fds_ok A fds"
  shows "lwip_socket A d t p e = (fd, e') \<Longrightarrow>
      if fd = - 1 then fds e' = fds e else fd \<notin> fds e \<and> fds e' = insert fd (fds e)"
    "lwip_accept A l a al e = (fd, e') \<Longrightarrow>
      if fd = - 1 then fds e' = fds e else fd \<notin> fds e \<and> fds e' = insert fd (fds e)"
    "lwip_close A fd e = (r, e') \<Longrightarrow> fd \<in> fds e \<Longrightarrow> fds e' = fds e - {fd}"
    "uosFileAlloc A st = (fo, st') \<Longrightarrow> fds (ext st') = fds (ext st)"
    "fds (ext (uosFileFree A f st)) = fds (ext st)"
proof -
  note f = assms [unfolded fds_ok_def]
  have d: "case lwip_socket A d t p e of (fd, e') \<Rightarrow>
        if fd = - 1 then fds e' = fds e else fd \<notin> fds e \<and> fds e' = insert fd (fds e)"
    "case lwip_accept A l a al e of (fd, e') \<Rightarrow>
        if fd = - 1 then fds e' = fds e else fd \<notin> fds e \<and> fds e' = insert fd (fds e)"
    "fd \<in> fds e \<longrightarrow> fds (snd (lwip_close A fd e)) = fds e - {fd}"
    "fds (ext (snd (uosFileAlloc A st))) = fds (ext st)"
    by (rule f [THEN conjunct1, rule_format] f [THEN conjunct2, THEN conjunct1, rule_format]
      f [THEN conjunct2, THEN conjunct2, THEN conjunct1, THEN spec, THEN spec]
      f [THEN conjunct2, THEN conjunct2, THEN conjunct2, THEN conjunct1, THEN spec])+
  show "lwip_socket A d t p e = (fd, e') \<Longrightarrow>
      if fd = - 1 then fds e' = fds e else fd \<notin> fds e \<and> fds e' = insert fd (fds e)"
    using d(1) by simp
  show "lwip_accept A l a al e = (fd, e') \<Longrightarrow>
      if fd = - 1 then fds e' = fds e else fd \<notin> fds e \<and> fds e' = insert fd (fds e)"
    using d(2) by simp
  show "lwip_close A fd e = (r, e') \<Longrightarrow> fd \<in> fds e \<Longrightarrow> fds e' = fds e - {fd}" using d(3) by simp
  show "uosFileAlloc A st = (fo, st') \<Longrightarrow> fds (ext st') = fds (ext st)" using d(4) by simp
  show "fds (ext (uosFileFree A f st)) = fds (ext st)" 
    by (rule f [THEN conjunct2, THEN conjunct2, THEN conjunct2, THEN conjunct2, THEN spec, THEN spec])
qed

section \<open>Who owns what\<close>

datatype owner = App nat | Tsk nat

fun pc_file :: "sock_pc \<Rightarrow> nat option" where
  "pc_file (Socket_file f _ _ _) = Some f"
| "pc_file (Accept_file f _ _ _) = Some f"
| "pc_file (Accept_wait f _ _ _) = Some f"
| "pc_file (Got f _) = Some f"
| "pc_file (Opened fo _) = fo"
| "pc_file (Begin_close f) = Some f"
| "pc_file (Close_lwip f _) = Some f"
| "pc_file (Close_free f) = Some f"
| "pc_file _ = None"

text \<open>The file, when it is a socket whose descriptor is the one it says.\<close>

fun pc_open :: "sock_pc \<Rightarrow> nat option" where
  "pc_open (Opened fo _) = fo"
| "pc_open (Begin_close f) = Some f"
| "pc_open _ = None"

fun pc_fd :: "'w ustate \<Rightarrow> sock_pc \<Rightarrow> int option" where
  "pc_fd st (Got f fd) = (if fd = - 1 then None else Some fd)"
| "pc_fd st (Close_lwip f fd) = Some fd"
| "pc_fd st pc = map_option (\<lambda>f. fsPrivFd (files st f)) (pc_open pc)"

fun file_of :: "'w sock_sys \<Rightarrow> owner \<Rightarrow> nat option" where
  "file_of s (App f) = (if f \<in> held s then Some f else None)"
| "file_of s (Tsk i) = Option.bind (doing s i) pc_file"

fun fd_of :: "'w sock_sys \<Rightarrow> owner \<Rightarrow> int option" where
  "fd_of s (App f) = (if f \<in> held s then Some (fsPrivFd (files (tab s) f)) else None)"
| "fd_of s (Tsk i) = Option.bind (doing s i) (pc_fd (tab s))"

fun open_of :: "'w sock_sys \<Rightarrow> owner \<Rightarrow> nat option" where
  "open_of s (App f) = (if f \<in> held s then Some f else None)"
| "open_of s (Tsk i) = Option.bind (doing s i) pc_open"

text \<open>
  Every file in use and every descriptor has one owner, and what the application holds, and
  what a task gives to it or takes from it, is a socket.
\<close>

definition sock_inv ::
    "('w \<Rightarrow> nat set) \<Rightarrow> ('w \<Rightarrow> int set) \<Rightarrow> nat set \<Rightarrow> int set \<Rightarrow> 'w sock_sys \<Rightarrow> bool" where
  "sock_inv live fds X F s \<longleftrightarrow>
     fs_cf (sockFS (tab s)) = Some SockFSConf \<and>
     owned (file_of s) X (live (ext (tab s))) \<and> owned (fd_of s) F (fds (ext (tab s))) \<and>
     (\<forall>p f. open_of s p = Some f \<longrightarrow> file_fs (files (tab s) f) = Some SockFS)"

lemma sock_invD:
  assumes "sock_inv live fds X F s"
  shows "fs_cf (sockFS (tab s)) = Some SockFSConf" "owned (file_of s) X (live (ext (tab s)))"
    "owned (fd_of s) F (fds (ext (tab s)))"
    "open_of s p = Some f \<Longrightarrow> file_fs (files (tab s) f) = Some SockFS"
  using assms unfolding sock_inv_def by blast+

lemma pc_open_file: "pc_open pc = Some f \<Longrightarrow> pc_file pc = Some f"
  by (cases pc) auto

lemma open_of_file: "open_of s p = Some f \<Longrightarrow> file_of s p = Some f"
  by (cases p) (auto simp: Option.bind_eq_Some_conv pc_open_file split: if_splits)

lemma pc_fd_cong: "(\<And>f. pc_open pc = Some f \<Longrightarrow> files st f = files st' f) \<Longrightarrow> pc_fd st pc = pc_fd st' pc"
  by (cases pc; cases "pc_open pc"; simp)

lemma file_of_step:
  "file_of (s\<lparr>tab := t, doing := (doing s)(i \<mapsto> pc)\<rparr>) = (file_of s)(Tsk i := pc_file pc)"
proof (rule ext)
  show "file_of (s\<lparr>tab := t, doing := (doing s)(i \<mapsto> pc)\<rparr>) p = ((file_of s)(Tsk i := pc_file pc)) p" for p
    by (cases p) auto
qed

text \<open>A step of a task: the files of all other owners stay as they are.\<close>

lemma sock_inv_step:
  assumes inv: "sock_inv live fds X F s" and pc: "doing s i = Some pc"
    and fs: "sockFS t = sockFS (tab s)"
    and fr: "\<And>g. g \<in> live (ext (tab s)) \<Longrightarrow> pc_file pc \<noteq> Some g \<Longrightarrow> files t g = files (tab s) g"
    and fl: "owned ((file_of s)(Tsk i := pc_file pc')) X (live (ext t))"
    and fd: "owned ((fd_of s)(Tsk i := pc_fd t pc')) F (fds (ext t))"
    and op: "\<And>f. pc_open pc' = Some f \<Longrightarrow> file_fs (files t f) = Some SockFS"
  shows "sock_inv live fds X F (s\<lparr>tab := t, doing := (doing s)(i \<mapsto> pc')\<rparr>)"
proof -
  let ?s = "s\<lparr>tab := t, doing := (doing s)(i \<mapsto> pc')\<rparr>"
  note I = sock_invD [OF inv]
  have keep: "files t f = files (tab s) f" if "open_of s p = Some f" "p \<noteq> Tsk i" for p f
  proof (rule fr)
    from that(1) have o: "file_of s p = Some f" by (rule open_of_file)
    then show "f \<in> live (ext (tab s))" by (rule ownedD(1) [OF I(2)])
    have "file_of s (Tsk i) = pc_file pc" using pc by simp
    then show "pc_file pc \<noteq> Some f" using ownedD(3) [OF I(2) o, of "Tsk i"] that(2) by auto
  qed
  have "fd_of ?s p = ((fd_of s)(Tsk i := pc_fd t pc')) p" for p
  proof (cases p)
    case (App f)
    then show ?thesis using keep [of p f] by auto
  next
    case (Tsk j)
    show ?thesis
    proof (cases "j = i \<or> doing s j = None")
      case False
      then obtain q where q: "doing s j = Some q" "j \<noteq> i" by auto
      have "pc_fd t q = pc_fd (tab s) q" by (rule pc_fd_cong) (use keep [of p] q Tsk in auto)
      with q Tsk show ?thesis by simp
    qed (use Tsk in auto)
  qed
  then have "fd_of ?s = (fd_of s)(Tsk i := pc_fd t pc')" by (rule ext)
  moreover have "file_fs (files t f) = Some SockFS" if "open_of ?s p = Some f" for p f
  proof (cases "p = Tsk i")
    case True
    with that op show ?thesis by simp
  next
    case False
    then have "open_of s p = Some f" using that by (cases p) (auto split: if_splits)
    with keep [OF this False] I(4) show ?thesis by simp
  qed
  ultimately show ?thesis using fs I(1) fl fd unfolding sock_inv_def file_of_step by simp
qed

section \<open>The steps keep the invariant\<close>

text \<open>What a task has before its step it still has after it, when the step says so.\<close>

lemma own_same:
  assumes "doing s i = Some pc" and "pc_file pc' = pc_file pc"
  shows "(file_of s)(Tsk i := pc_file pc') = file_of s"
  using assms by (intro fun_upd_idem) simp

lemma own_fd_same:
  assumes "doing s i = Some pc" and "pc_fd t pc' = pc_fd (tab s) pc"
  shows "(fd_of s)(Tsk i := pc_fd t pc') = fd_of s"
  using assms by (intro fun_upd_idem) simp

lemma inv_alloc:
  assumes ok: "uos_ok A live" "fds_ok A fds" and inv: "sock_inv live fds X F s"
    and pc: "doing s i = Some pc" "pc_file pc = None" "pc_fd (tab s) pc = None"
    and al: "uosFileAlloc A (tab s) = (fo, t)"
    and pc': "pc_file pc' = fo" "pc_open pc' = None" "pc_fd t pc' = None"
  shows "sock_inv live fds X F (s\<lparr>tab := t, doing := (doing s)(i \<mapsto> pc')\<rparr>)"
proof -
  note I = sock_invD [OF inv]
  have fd: "owned ((fd_of s)(Tsk i := pc_fd t pc')) F (fds (ext t))"
    using I(3) fds_okD(4) [OF ok(2) al] own_fd_same [OF pc(1), of t pc'] pc(3) pc'(3) by simp
  show ?thesis
  proof (cases fo)
    case None
    then have t: "t = tab s" using alloc_NoneD [OF ok(1)] al by simp
    have fl: "owned ((file_of s)(Tsk i := pc_file pc')) X (live (ext t))"
      using I(2) own_same [OF pc(1), of pc'] pc(2) pc'(1) None by (simp add: t)
    show ?thesis by (rule sock_inv_step [OF inv pc(1) _ _ fl fd]) (use t pc'(2) in simp_all)
  next
    case (Some f)
    note a = alloc_SomeD [OF ok(1) al [unfolded Some]]
    have "file_of s (Tsk i) = None" using pc by simp
    from owned_gain [OF I(2) this, of f] a have fl: "owned ((file_of s)(Tsk i := pc_file pc')) X (live (ext t))"
      using pc'(1) Some by simp
    show ?thesis by (rule sock_inv_step [OF inv pc(1) _ _ fl fd]) (use a pc'(2) in simp_all)
  qed
qed

lemma inv_lwip:
  assumes inv: "sock_inv live fds X F s" and pc: "doing s i = Some pc" "pc_fd (tab s) pc = None"
    and l: "live e = live (ext (tab s))"
    and d: "if fd = - 1 then fds e = fds (ext (tab s)) else fd \<notin> fds (ext (tab s)) \<and> fds e = insert fd (fds (ext (tab s)))"
    and f: "pc_file pc = Some f"
  shows "sock_inv live fds X F (s\<lparr>tab := (tab s)\<lparr>ext := e\<rparr>, doing := (doing s)(i \<mapsto> Got f fd)\<rparr>)"
proof -
  note I = sock_invD [OF inv]
  have fl: "owned ((file_of s)(Tsk i := pc_file (Got f fd))) X (live (ext ((tab s)\<lparr>ext := e\<rparr>)))"
    using I(2) own_same [OF pc(1), of "Got f fd"] f l by simp
  have n: "fd_of s (Tsk i) = None" using pc by simp
  have fd: "owned ((fd_of s)(Tsk i := pc_fd ((tab s)\<lparr>ext := e\<rparr>) (Got f fd))) F (fds (ext ((tab s)\<lparr>ext := e\<rparr>)))"
    using owned_gain [OF I(3) n] I(3) d fun_upd_idem [of "fd_of s" "Tsk i" None, OF n] by simp
  show ?thesis by (rule sock_inv_step [OF inv pc(1) _ _ fl fd]) simp_all
qed

lemma inv_free:
  assumes ok: "uos_ok A live" "fds_ok A fds" and inv: "sock_inv live fds X F s"
    and pc: "doing s i = Some pc" "pc_file pc = Some f" "pc_fd (tab s) pc = None"
    and pc': "pc_file pc' = None" "pc_open pc' = None" "pc_fd (uosFileFree A f (tab s)) pc' = None"
  shows "sock_inv live fds X F (s\<lparr>tab := uosFileFree A f (tab s), doing := (doing s)(i \<mapsto> pc')\<rparr>)"
proof -
  note I = sock_invD [OF inv]
  have o: "file_of s (Tsk i) = Some f" using pc by simp
  have "f \<in> live (ext (tab s))" by (rule ownedD(1) [OF I(2) o])
  note fr = freeD [OF ok(1) this]
  have fl: "owned ((file_of s)(Tsk i := pc_file pc')) X (live (ext (uosFileFree A f (tab s))))"
    using owned_lose [OF I(2) o] fr pc'(1) by simp
  have fd: "owned ((fd_of s)(Tsk i := pc_fd (uosFileFree A f (tab s)) pc')) F (fds (ext (uosFileFree A f (tab s))))"
    using I(3) fds_okD(5) [OF ok(2)] own_fd_same [OF pc(1), of "uosFileFree A f (tab s)" pc'] pc(3) pc'(3) by simp
  show ?thesis by (rule sock_inv_step [OF inv pc(1) _ _ fl fd]) (use fr pc pc'(2) in auto)
qed

lemma inv_still:
  assumes inv: "sock_inv live fds X F s" and pc: "doing s i = Some pc"
    and pc': "pc_file pc' = pc_file pc" "pc_fd (tab s) pc' = pc_fd (tab s) pc" "pc_open pc' = None \<or> pc_open pc' = pc_open pc"
  shows "sock_inv live fds X F (s\<lparr>tab := tab s, doing := (doing s)(i \<mapsto> pc')\<rparr>)"
proof -
  note I = sock_invD [OF inv]
  have "owned ((file_of s)(Tsk i := pc_file pc')) X (live (ext (tab s)))"
    "owned ((fd_of s)(Tsk i := pc_fd (tab s) pc')) F (fds (ext (tab s)))"
    unfolding own_same [of s i, OF pc pc'(1)] own_fd_same [of s i, OF pc pc'(2)] by (rule I(2) I(3))+
  moreover have "file_fs (files (tab s) f) = Some SockFS" if "pc_open pc' = Some f" for f
    using I(4) [of "Tsk i" f] pc pc'(3) that by auto
  ultimately show ?thesis by (intro sock_inv_step [OF inv pc]) simp_all
qed

lemma inv_set:
  assumes inv: "sock_inv live fds X F s" and pc: "doing s i = Some (Got f fd)" "fd \<noteq> - 1"
  shows "sock_inv live fds X F (s\<lparr>tab := set_file f fd (tab s), doing := (doing s)(i \<mapsto> Opened (Some f) r)\<rparr>)"
proof -
  note I = sock_invD [OF inv]
  have fl: "owned ((file_of s)(Tsk i := pc_file (Opened (Some f) r))) X (live (ext (set_file f fd (tab s))))"
    using I(2) own_same [OF pc(1), of "Opened (Some f) r"] by simp
  have fd: "owned ((fd_of s)(Tsk i := pc_fd (set_file f fd (tab s)) (Opened (Some f) r))) F
      (fds (ext (set_file f fd (tab s))))"
    using I(3) own_fd_same [OF pc(1), of "set_file f fd (tab s)" "Opened (Some f) r"] pc(2) by simp
  show ?thesis by (rule sock_inv_step [OF inv pc(1) _ _ fl fd]) auto
qed

lemma inv_close:
  assumes ok: "uos_ok A live" "fds_ok A fds" and inv: "sock_inv live fds X F s"
    and pc: "doing s i = Some (Close_lwip f fd)" and cl: "lwip_close A fd (ext (tab s)) = (r, e)"
  shows "sock_inv live fds X F (s\<lparr>tab := (tab s)\<lparr>ext := e\<rparr>, doing := (doing s)(i \<mapsto> Close_free f)\<rparr>)"
proof -
  note I = sock_invD [OF inv]
  have l: "live e = live (ext (tab s))" using lwip_frameD(3) [OF ok(1), of fd "ext (tab s)"] cl by simp
  have fl: "owned ((file_of s)(Tsk i := pc_file (Close_free f))) X (live (ext ((tab s)\<lparr>ext := e\<rparr>)))"
    using I(2) own_same [OF pc, of "Close_free f"] l by simp
  have o: "fd_of s (Tsk i) = Some fd" using pc by simp
  note fds_okD(3) [OF ok(2) cl ownedD(1) [OF I(3) o]]
  then have fd: "owned ((fd_of s)(Tsk i := pc_fd ((tab s)\<lparr>ext := e\<rparr>) (Close_free f))) F (fds (ext ((tab s)\<lparr>ext := e\<rparr>)))"
    using owned_lose [OF I(3) o] by simp
  show ?thesis by (rule sock_inv_step [OF inv pc _ _ fl fd]) simp_all
qed

lemma pc_step_inv:
  assumes ok: "uos_ok A live" "fds_ok A fds" and inv: "sock_inv live fds X F s"
    and pc: "doing s i = Some pc" and st: "sock_pc_step A pc (tab s) = Inr (pc', t)"
  shows "sock_inv live fds X F (s\<lparr>tab := t, doing := (doing s)(i \<mapsto> pc')\<rparr>)"
proof (cases pc)
  case (Begin_socket d ty p)
  obtain fo t1 where al: "uosFileAlloc A (tab s) = (fo, t1)" by fastforce
  with st Begin_socket have "t = t1" "pc' = (case fo of None \<Rightarrow> Opened None (- 1) | Some f \<Rightarrow> Socket_file f d ty p)"
    by (auto split: option.splits)
  with inv_alloc [OF ok inv pc _ _ al, of pc'] Begin_socket show ?thesis by (auto split: option.splits)
next
  case (Begin_accept l a al)
  obtain fo t1 where alc: "uosFileAlloc A (tab s) = (fo, t1)" by fastforce
  with st Begin_accept have "t = t1" "pc' = (case fo of None \<Rightarrow> Opened None (- 1) | Some f \<Rightarrow> Accept_file f l a al)"
    by (auto split: option.splits)
  with inv_alloc [OF ok inv pc _ _ alc, of pc'] Begin_accept show ?thesis by (auto split: option.splits)
next
  case (Socket_file f d ty p)
  obtain fd e where l: "lwip_socket A d ty p (ext (tab s)) = (fd, e)" by fastforce
  have "live e = live (ext (tab s))" using lwip_frameD(1) [OF ok(1), of d ty p "ext (tab s)"] l by simp
  from inv_lwip [OF inv pc _ this fds_okD(1) [OF ok(2) l], of f] st l Socket_file show ?thesis by auto
next
  case (Accept_wait f lfd a al)
  obtain fd e where l: "lwip_accept A lfd a al (ext (tab s)) = (fd, e)" by fastforce
  have "live e = live (ext (tab s))" using lwip_frameD(2) [OF ok(1), of lfd a al "ext (tab s)"] l by simp
  from inv_lwip [OF inv pc _ this fds_okD(2) [OF ok(2) l], of f] st l Accept_wait show ?thesis by auto
next
  case (Got f fd)
  show ?thesis
  proof (cases "fd = - 1")
    case True
    with st Got inv_free [OF ok inv pc, of f pc'] show ?thesis by auto
  next
    case False
    with st Got inv_set [OF inv, of i f fd] pc show ?thesis by auto
  qed
next
  case (Close_lwip f fd)
  obtain r e where "lwip_close A fd (ext (tab s)) = (r, e)" by fastforce
  with inv_close [OF ok inv, of i f fd r e] st pc Close_lwip show ?thesis by auto
next
  case (Close_free f)
  with st inv_free [OF ok inv pc, of f pc'] show ?thesis by auto
next
  case (Accept_file f l a al)
  with st inv_still [OF inv pc, of pc'] show ?thesis by (auto simp: rbind_eq_Inr_iff)
next
  case (Begin_close f)
  with st inv_still [OF inv pc, of pc'] show ?thesis by (auto simp: rbind_eq_Inr_iff)
next
  case (Opened fo r)
  with st inv_still [OF inv pc, of pc'] show ?thesis by auto
next
  case (Closed r)
  with st inv_still [OF inv pc, of pc'] show ?thesis by auto
qed

text \<open>Calls and returns hand a file and its descriptor over, or touch neither.\<close>

lemma inv_handover:
  assumes inv: "sock_inv live fds X F s" and tab: "tab s' = tab s"
    and fl: "file_of s' = file_of s \<and> fd_of s' = fd_of s \<or>
      (\<exists>p q f. file_of s p = Some f \<and> fd_of s p = Some (fsPrivFd (files (tab s) f)) \<and>
        file_of s q = None \<and> fd_of s q = None \<and> file_of s' = (file_of s)(p := None, q \<mapsto> f) \<and>
        fd_of s' = (fd_of s)(p := None, q \<mapsto> fsPrivFd (files (tab s) f)))"
    and op: "\<And>p f. open_of s' p = Some f \<Longrightarrow> \<exists>q. open_of s q = Some f"
  shows "sock_inv live fds X F s'"
proof -
  note I = sock_invD [OF inv]
  have "owned (file_of s') X (live (ext (tab s))) \<and> owned (fd_of s') F (fds (ext (tab s)))"
    using fl
  proof (elim disjE exE conjE)
    fix p q f
    assume "file_of s p = Some f" "fd_of s p = Some (fsPrivFd (files (tab s) f))" "file_of s q = None" "fd_of s q = None"
      "file_of s' = (file_of s)(p := None, q \<mapsto> f)" "fd_of s' = (fd_of s)(p := None, q \<mapsto> fsPrivFd (files (tab s) f))"
    then show ?thesis using owned_move [OF I(2)] owned_move [OF I(3)] by simp
  qed (use I in simp)
  with I(1,4) op show ?thesis unfolding sock_inv_def tab by blast
qed

lemma inv_call:
  assumes "sock_inv live fds X F s" and "doing s i = None" and "pc_file pc = None" and "pc_open pc = None"
    and "pc_fd (tab s) pc = None"
  shows "sock_inv live fds X F (s\<lparr>doing := (doing s)(i \<mapsto> pc)\<rparr>)"
proof -
  let ?s = "s\<lparr>doing := (doing s)(i \<mapsto> pc)\<rparr>"
  have "file_of ?s p = file_of s p" "fd_of ?s p = fd_of s p" "open_of ?s p = open_of s p" for p
    using assms by (cases p; simp)+
  then have "file_of ?s = file_of s" "fd_of ?s = fd_of s" "open_of ?s = open_of s" by auto
  then show ?thesis by (intro inv_handover [OF assms(1)]) auto
qed

lemma inv_call_close:
  assumes "sock_inv live fds X F s" and "doing s i = None" and "f \<in> held s"
  shows "sock_inv live fds X F (s\<lparr>doing := (doing s)(i \<mapsto> Begin_close f), held := held s - {f}\<rparr>)"
proof -
  let ?s = "s\<lparr>doing := (doing s)(i \<mapsto> Begin_close f), held := held s - {f}\<rparr>"
  have "file_of ?s p = ((file_of s)(App f := None, Tsk i \<mapsto> f)) p"
    "fd_of ?s p = ((fd_of s)(App f := None, Tsk i \<mapsto> fsPrivFd (files (tab s) f))) p" for p
    by (cases p; simp)+
  then have e: "file_of ?s = (file_of s)(App f := None, Tsk i \<mapsto> f)"
    "fd_of ?s = (fd_of s)(App f := None, Tsk i \<mapsto> fsPrivFd (files (tab s) f))" by blast+
  have "\<exists>q. open_of s q = Some g" if "open_of ?s p = Some g" for p g
  proof (cases "p = Tsk i")
    case True
    with that assms(3) have "open_of s (App f) = Some g" by simp
    then show ?thesis by blast
  next
    case False
    with that have "open_of s p = Some g" by (cases p) (auto split: if_splits)
    then show ?thesis by blast
  qed
  moreover have "file_of s (App f) = Some f" "fd_of s (App f) = Some (fsPrivFd (files (tab s) f))"
    "file_of s (Tsk i) = None" "fd_of s (Tsk i) = None" using assms by simp_all
  ultimately show ?thesis using e by (intro inv_handover [OF assms(1)]) (simp, blast, blast)
qed

lemma inv_return:
  assumes "sock_inv live fds X F s" and "doing s i = Some (Opened fo r)"
  shows "sock_inv live fds X F (s\<lparr>doing := (doing s)(i := None), held := held s \<union> set_option fo\<rparr>)"
proof -
  let ?s = "s\<lparr>doing := (doing s)(i := None), held := held s \<union> set_option fo\<rparr>"
  note I = sock_invD [OF assms(1)]
  have op: "\<exists>q. open_of s q = Some g" if "open_of ?s p = Some g" for p g
  proof (cases "open_of s p = Some g")
    case False
    with that have "fo = Some g" by (cases p; cases fo) (auto split: if_splits)
    then have "open_of s (Tsk i) = Some g" using assms(2) by simp
    then show ?thesis by blast
  qed blast
  show ?thesis
  proof (cases fo)
    case None
    then have "file_of ?s p = file_of s p" "fd_of ?s p = fd_of s p" for p using assms(2) by (cases p; simp)+
    then have "file_of ?s = file_of s \<and> fd_of ?s = fd_of s" by auto
    then show ?thesis using op by (intro inv_handover [OF assms(1)]) (simp, blast, blast)
  next
    case (Some f)
    have t: "file_of s (Tsk i) = Some f" "fd_of s (Tsk i) = Some (fsPrivFd (files (tab s) f))"
      using assms(2) Some by simp_all
    have n: "f \<notin> held s" using ownedD(3) [OF I(2) t(1), of "App f"] by auto
    have "file_of ?s p = ((file_of s)(Tsk i := None, App f \<mapsto> f)) p"
      "fd_of ?s p = ((fd_of s)(Tsk i := None, App f \<mapsto> fsPrivFd (files (tab s) f))) p" for p
      using Some by (cases p; simp)+
    then have e: "file_of ?s = (file_of s)(Tsk i := None, App f \<mapsto> f)"
      "fd_of ?s = (fd_of s)(Tsk i := None, App f \<mapsto> fsPrivFd (files (tab s) f))" by blast+
    have "file_of s (App f) = None" "fd_of s (App f) = None" using n by simp_all
    with t e op show ?thesis by (intro inv_handover [OF assms(1)]) (simp, blast, blast)
  qed
qed

lemma inv_return_close:
  assumes "sock_inv live fds X F s" and "doing s i = Some (Closed r)"
  shows "sock_inv live fds X F (s\<lparr>doing := (doing s)(i := None)\<rparr>)"
proof -
  let ?s = "s\<lparr>doing := (doing s)(i := None)\<rparr>"
  have "file_of ?s p = file_of s p" "fd_of ?s p = fd_of s p" "open_of ?s p = open_of s p" for p
    using assms(2) by (cases p; simp)+
  then have "file_of ?s = file_of s" "fd_of ?s = fd_of s" "open_of ?s = open_of s" by auto
  then show ?thesis by (intro inv_handover [OF assms(1)]) auto
qed

lemma inv_other:
  assumes "sock_inv live fds X F s" and "live e = live (ext (tab s))" and "fds e = fds (ext (tab s))"
  shows "sock_inv live fds X F (s\<lparr>tab := (tab s)\<lparr>ext := e\<rparr>\<rparr>)"
proof -
  let ?s = "s\<lparr>tab := (tab s)\<lparr>ext := e\<rparr>\<rparr>"
  have pf: "pc_fd ((tab s)\<lparr>ext := e\<rparr>) = pc_fd (tab s)" by (rule HOL.ext, rule pc_fd_cong) simp
  have "file_of ?s p = file_of s p" "fd_of ?s p = fd_of s p" "open_of ?s p = open_of s p" for p
    by (cases p; simp add: pf)+
  then have "file_of ?s = file_of s" "fd_of ?s = fd_of s" "open_of ?s = open_of s" by auto
  with assms show ?thesis unfolding sock_inv_def by simp
qed

lemma sock_inv_reach:
  assumes ok: "uos_ok A live" "fds_ok A fds" and r: "sock_reach A live fds X F s"
  shows "sock_inv live fds X F s"
  using r
proof induction
  case (Start s)
  have n: "file_of s p = None" "fd_of s p = None" "open_of s p = None" for p using Start(4,5) by (cases p; simp)+
  then have "file_of s = (\<lambda>_. None)" "fd_of s = (\<lambda>_. None)" by auto
  with Start n show ?case by (simp add: sock_inv_def owned_def)
next
  case (Next s s')
  from Next.hyps(2) show ?case
  proof (cases rule: sock_step.cases)
    case (Step i pc pc' t)
    with pc_step_inv [OF ok Next.IH] show ?thesis by simp
  qed (simp_all add: Next.IH inv_call inv_call_close inv_return inv_return_close inv_other)
qed

section \<open>What it means for slots\<close>

text \<open>The slot of a file the application holds leads to the file's descriptor.\<close>

lemma held_slot:
  assumes "uos_ok A live" and "sock_inv live fds X F s" and "f \<in> held s"
  shows "netLwIP_FD A (uosFile2Slot A f) (tab s) = Inr (fsPrivFd (files (tab s) f))"
    "fsPrivFd (files (tab s) f) \<in> fds (ext (tab s))"
proof -
  note I = sock_invD [OF assms(2)]
  have o: "file_of s (App f) = Some f" "fd_of s (App f) = Some (fsPrivFd (files (tab s) f))" "open_of s (App f) = Some f"
    using assms(3) by simp_all
  then have "f \<in> live (ext (tab s))" using ownedD(1) [OF I(2)] by blast
  then have "uosSlot2File A (uosFile2Slot A f) (ext (tab s)) = Some f" using slot_iff [OF assms(1)] by blast
  moreover have "fs_is_sock A f (tab s) = Inr True" using I(4) [OF o(3)] I(1) by (simp add: fs_is_sock_def)
  ultimately show "netLwIP_FD A (uosFile2Slot A f) (tab s) = Inr (fsPrivFd (files (tab s) f))"
    by (simp add: netLwIP_FD_def P_ASSERT_def)
  show "fsPrivFd (files (tab s) f) \<in> fds (ext (tab s))" using ownedD(1) [OF I(3) o(2)] .
qed

lemma held_inj:
  assumes "sock_inv live fds X F s"
  shows "inj_on (\<lambda>f. fsPrivFd (files (tab s) f)) (held s)"
proof (rule inj_onI)
  fix f g
  assume h: "f \<in> held s" "g \<in> held s" "fsPrivFd (files (tab s) f) = fsPrivFd (files (tab s) g)"
  then have "fd_of s (App f) = Some (fsPrivFd (files (tab s) f))" "fd_of s (App g) = Some (fsPrivFd (files (tab s) f))"
    by simp_all
  then show "f = g" using ownedD(3) [OF sock_invD(3) [OF assms]] by blast
qed

lemma idle_tables:
  assumes "sock_inv live fds X F s" and "\<And>i. doing s i = None"
  shows "live (ext (tab s)) = X \<union> held s" "X \<inter> held s = {}"
    "fds (ext (tab s)) = F \<union> (\<lambda>f. fsPrivFd (files (tab s) f)) ` held s"
proof -
  note I = sock_invD [OF assms(1)]
  have "\<exists>f. p = App f \<and> f \<in> held s \<and> file_of s p = Some f" if "file_of s p \<noteq> None \<or> fd_of s p \<noteq> None" for p
    using that assms(2) by (cases p) (auto split: if_splits)
  then have "ran (file_of s) \<subseteq> held s" "ran (fd_of s) \<subseteq> (\<lambda>f. fsPrivFd (files (tab s) f)) ` held s"
    unfolding ran_def by fastforce+
  moreover have "f \<in> ran (file_of s)" "fsPrivFd (files (tab s) f) \<in> ran (fd_of s)" if "f \<in> held s" for f
    using that by (auto intro!: ranI [of _ "App f"])
  ultimately have "ran (file_of s) = held s" "ran (fd_of s) = (\<lambda>f. fsPrivFd (files (tab s) f)) ` held s"
    by (blast, blast)
  with I(2,3) show "live (ext (tab s)) = X \<union> held s" "X \<inter> held s = {}"
    "fds (ext (tab s)) = F \<union> (\<lambda>f. fsPrivFd (files (tab s) f)) ` held s" by (simp_all add: owned_def)
qed

text \<open>No step faults, except \<open>accept\<close> on a slot the application does not hold.\<close>

lemma pc_step_total:
  assumes ok: "uos_ok A live" and inv: "sock_inv live fds X F s" and pc: "doing s i = Some pc"
    and ac: "\<And>f l a al. pc = Accept_file f l a al \<Longrightarrow> \<exists>g \<in> held s. l = uosFile2Slot A g"
  shows "\<exists>pc' t. sock_pc_step A pc (tab s) = Inr (pc', t)"
proof (cases pc)
  case (Accept_file f l a al)
  with ac held_slot(1) [OF ok inv] show ?thesis by auto
next
  case (Begin_close f)
  then have "open_of s (Tsk i) = Some f" using pc by simp
  from sock_invD(4) [OF inv this] sock_invD(1) [OF inv] have "fs_is_sock A f (tab s) = Inr True"
    by (simp add: fs_is_sock_def)
  with Begin_close show ?thesis by (simp add: P_ASSERT_def)
qed (auto split: prod.splits option.splits)

end
