(* ===== verification/Sockets_Properties.thy ===== *)
theory Sockets_Properties
  imports Sockets_Tasks
begin

text \<open>
  What \<open>sockets.c\<close> promises: a socket occupies one slot that leads to its lwIP
  descriptor, failures give everything back, closing frees the slot, and every macro of the
  API reaches the descriptor behind the slot; with the two places where the slot is
  mishandled; and that all this is kept between several tasks. The instance \<open>ex_uos\<close> has
  three slots and an lwIP that counts descriptors.
\<close>

section \<open>An instance\<close>

type_synonym ex_ext = "nat list \<times> int"

definition ex_uos :: "ex_ext uos" where
  "ex_uos =
     \<lparr> P_ASSERT_enabled = True, other_fs_cf = (\<lambda>n. Some (OtherFSConf n)), uosMount = (\<lambda>st. st),
       uosFileAlloc = (\<lambda>st. case find (\<lambda>f. f \<notin> set (fst (ext st))) [0..<3] of
           None \<Rightarrow> (None, st)
         | Some f \<Rightarrow> (Some f, st\<lparr>ext := (f # fst (ext st), snd (ext st))\<rparr>)),
       uosFileFree = (\<lambda>f st. st\<lparr>ext := (removeAll f (fst (ext st)), snd (ext st))\<rparr>),
       uosFile2Slot = int,
       uosSlot2File = (\<lambda>s e. if 0 \<le> s \<and> nat s \<in> set (fst e) then Some (nat s) else None),
       lwip_socket = (\<lambda>d _ _ e. if d = 2 then (snd e, (fst e, snd e + 1)) else (- 1, e)),
       lwip_accept = (\<lambda>fd _ _ e. if fd = - 1 then (- 1, e) else (snd e, (fst e, snd e + 1))),
       lwip_close = (\<lambda>_ e. (0, e)), lwip_read = (\<lambda>fd _ _ e. (fd, e)), lwip_write = (\<lambda>fd _ _ e. (fd, e)),
       lwip_bind = (\<lambda>fd _ _ e. (fd, e)), lwip_shutdown = (\<lambda>fd _ e. (fd, e)),
       lwip_getpeername = (\<lambda>fd _ _ e. (fd, e)), lwip_getsockname = (\<lambda>fd _ _ e. (fd, e)),
       lwip_setsockopt = (\<lambda>fd _ _ _ _ e. (fd, e)), lwip_connect = (\<lambda>fd _ _ e. (fd, e)),
       lwip_listen = (\<lambda>fd _ e. (fd, e)), lwip_recv = (\<lambda>fd _ _ _ e. (fd, e)),
       lwip_recvfrom = (\<lambda>fd _ _ _ _ _ e. (fd, e)), lwip_send = (\<lambda>fd _ _ _ e. (fd, e)),
       lwip_sendmsg = (\<lambda>fd _ _ e. (fd, e)), lwip_sendto = (\<lambda>fd _ _ _ _ _ e. (fd, e)),
       lwip_writev = (\<lambda>fd _ _ e. (fd, e)) \<rparr>"

definition ex_live :: "ex_ext \<Rightarrow> nat set" where
  "ex_live e = set (fst e)"

text \<open>Slot 0 is a file of another file system (the console); slot 1 a socket on descriptor 40.\<close>

definition ex_st :: "ex_ext ustate" where
  "ex_st =
     \<lparr> sockFS = \<lparr>mountPoint = Some ''/socket'', fs_cf = Some SockFSConf\<rparr>,
       files = (\<lambda>f. \<lparr>file_fs = (if f = 0 then Some (OtherFS 7) else if f = 1 then Some SockFS else None),
         file_cf = None, fsPrivFd = 39 + int f\<rparr>),
       ext = ([1, 0], 50) \<rparr>"

lemma ex_uos_ok: "uos_ok ex_uos ex_live"
  by (auto simp: uos_ok_def alloc_ok_def free_ok_def slots_ok_def lwip_frame_def ex_uos_def ex_live_def
      find_Some_iff inj_def split: option.splits if_splits)

lemma ex_uos_inv: "uos_inv ex_live ex_st"
  by (simp add: uos_inv_def ex_st_def ex_live_def)

lemma ex_socks: "socks ex_uos ex_st = [1 \<mapsto> 40]"
  by (rule ext) (auto simp: socks_def ex_uos_def ex_st_def)

section \<open>Initialisation\<close>

text \<open>\<open>netInit\<close> makes the socket file system known: when mounting leaves the files and
  the structure alone and every allocated file belongs to a file system, the invariant of
  the socket layer holds afterwards; without it every use of a socket's slot fails the
  assertion.\<close>

theorem netInit_establishes:
  assumes "\<And>st. sockFS (uosMount A st) = sockFS st \<and> files (uosMount A st) = files st \<and>
      live (ext (uosMount A st)) = live (ext st)"
    and "\<forall>f \<in> live (ext st). file_fs (files st f) \<noteq> None" and "P_ASSERT_enabled A"
    and "uosSlot2File A s (ext st) = Some f" and "file_fs (files st f) = Some SockFS"
  shows "uos_inv live (netInit A st) \<and> mountPoint (sockFS (netInit A st)) = Some ''/socket'' \<and>
    (fs_cf (sockFS st) = None \<longrightarrow> netLwIP_FD A s st = Inl AssertFail)"
  using assms by (simp add: uos_inv_def netInit_def netLwIP_FD_def P_ASSERT_def fs_is_sock_def)

theorem netInit_establishes_witness:
  "uos_inv ex_live (netInit ex_uos (ex_st\<lparr>sockFS := \<lparr>mountPoint = None, fs_cf = None\<rparr>\<rparr>)) \<and>
   netLwIP_FD ex_uos 1 (ex_st\<lparr>sockFS := \<lparr>mountPoint = None, fs_cf = None\<rparr>\<rparr>) = Inl AssertFail"
proof -
  let ?st = "ex_st\<lparr>sockFS := \<lparr>mountPoint = None, fs_cf = None\<rparr>\<rparr>"
  have "sockFS (uosMount ex_uos st) = sockFS st \<and> files (uosMount ex_uos st) = files st \<and>
      ex_live (ext (uosMount ex_uos st)) = ex_live (ext st)" for st
    by (simp add: ex_uos_def)
  moreover have "\<forall>f \<in> ex_live (ext ?st). file_fs (files ?st f) \<noteq> None"
    by (simp add: ex_st_def ex_live_def)
  moreover have "P_ASSERT_enabled ex_uos" "uosSlot2File ex_uos 1 (ext ?st) = Some 1"
    "file_fs (files ?st 1) = Some SockFS" "fs_cf (sockFS ?st) = None"
    by (simp_all add: ex_st_def ex_uos_def)
  ultimately show ?thesis using netInit_establishes [of ex_uos ex_live ?st 1 1] by blast
qed

section \<open>Opening\<close>

text \<open>\<open>socket\<close> either returns -1 and leaves the open sockets and the allocated files as
  they were (also when lwIP had no socket left after a file was allocated), or returns a
  slot that was not in use and now leads to the descriptor lwIP gave; all other slots are
  unchanged and the invariant is kept.\<close>

theorem socket_correct:
  assumes "uos_ok A live" and "uos_inv live st" and "socket A d t p st = (s, st')"
  shows "uos_inv live st' \<and>
    (if s = - 1 then socks A st' = socks A st \<and> live (ext st') = live (ext st)
     else \<exists>f st1 fd e. uosFileAlloc A st = (Some f, st1) \<and> uosFile2Slot A f = s \<and>
       f \<notin> live (ext st) \<and> lwip_socket A d t p (ext st1) = (fd, e) \<and> fd \<noteq> - 1 \<and>
       socks A st' = (socks A st)(s \<mapsto> fd) \<and> live (ext st') = insert f (live (ext st)))"
  using socket_cases [OF assms]
proof (elim disjE exE conjE)
  assume "s = - 1" "st' = st"
  with assms(2) show ?thesis by simp
next
  fix f st1 fd e
  assume a: "uosFileAlloc A st = (Some f, st1)" "lwip_socket A d t p (ext st1) = (fd, e)"
    and o': "opened A live st fd s st'"
  show ?thesis
  proof (cases "fd = - 1")
    case True
    with o' show ?thesis by (simp add: opened_def)
  next
    case False
    with a assms(3) have "s = uosFile2Slot A f" "live (ext st') = live e"
      by (auto simp: socket_def Let_def)
    moreover have "live e = live (ext st1)" using lwip_frameD(1) [OF assms(1), of d t p "ext st1"] a by simp
    ultimately show ?thesis
      using o' False a alloc_SomeD [OF assms(1) a(1)] by (auto simp: opened_def)
  qed
qed

theorem socket_correct_witness:
  "\<exists>st'. socket ex_uos 2 1 0 ex_st = (2, st') \<and> uos_inv ex_live st' \<and>
    socks ex_uos st' = [1 \<mapsto> 40, 2 \<mapsto> 50] \<and>
    (\<exists>st''. socket ex_uos 2 1 0 st' = (- 1, st'') \<and> socks ex_uos st'' = socks ex_uos st')"
proof -
  obtain st' where s: "socket ex_uos 2 1 0 ex_st = (2, st')" and e: "ext st' = ([2, 1, 0], 51)"
    by (simp add: socket_def ex_uos_def ex_st_def upt_rec set_file_def)
  have a: "uosFileAlloc ex_uos ex_st = (Some f, st1) \<Longrightarrow> ext st1 = ([2, 1, 0], 50)" for f st1
    by (auto simp: ex_uos_def ex_st_def upt_rec)
  have l: "lwip_socket ex_uos 2 1 0 ([2, 1, 0], 50) = (fd, e') \<Longrightarrow> fd = 50" for fd e'
    by (auto simp: ex_uos_def)
  have i: "uos_inv ex_live st' \<and> socks ex_uos st' = [1 \<mapsto> 40, 2 \<mapsto> 50]"
    using socket_correct [OF ex_uos_ok ex_uos_inv s] a l by (auto simp: ex_socks)
  obtain st'' where s2: "socket ex_uos 2 1 0 st' = (- 1, st'')"
    using e by (auto simp: socket_def ex_uos_def upt_rec)
  from i have "uos_inv ex_live st'" by blast
  from socket_correct [OF ex_uos_ok this s2] s s2 i show ?thesis by auto
qed

text \<open>On an open socket \<open>accept\<close> never faults: it asks lwIP to accept on the descriptor
  behind the slot, and either returns -1 with the sockets and files as before, or a fresh
  slot that leads to the new descriptor.\<close>

theorem accept_correct:
  assumes "uos_ok A live" and "uos_inv live st" and "socks A st ls = Some lfd"
  shows "\<exists>s st'. accept A ls a al st = Inr (s, st') \<and> uos_inv live st' \<and>
    (if s = - 1 then socks A st' = socks A st \<and> live (ext st') = live (ext st)
     else \<exists>f st1 fd e. uosFileAlloc A st = (Some f, st1) \<and>
       lwip_accept A lfd a al (ext st1) = (fd, e) \<and> fd \<noteq> - 1 \<and>
       socks A st s = None \<and> socks A st' = (socks A st)(s \<mapsto> fd))"
proof -
  have n: "netLwIP_FD A ls st1 = Inr lfd" if al: "uosFileAlloc A st = (Some f, st1)" for f st1
  proof -
    obtain g where g: "g \<in> live (ext st)" "uosFile2Slot A g = ls" "file_fs (files st g) = Some SockFS"
      "fsPrivFd (files st g) = lfd"
      using assms(3) socks_iff [OF assms(1)] by blast
    have "files st1 g = files st g" "g \<in> live (ext st1)" "sockFS st1 = sockFS st"
      using alloc_SomeD [OF assms(1) al] g by auto
    moreover from this have "uosSlot2File A ls (ext st1) = Some g"
      using g slot_iff [OF assms(1)] by blast
    ultimately show ?thesis
      using g assms(2) by (simp add: netLwIP_FD_def P_ASSERT_def fs_is_sock_def uos_inv_def)
  qed
  have "is_ok (accept A ls a al st)"
    by (auto simp: accept_def n is_ok_iff Let_def split: prod.splits option.splits)
  then obtain s st' where r: "accept A ls a al st = Inr (s, st')" by (auto simp: is_ok_iff)
  from accept_cases [OF assms(1,2) r] show ?thesis
  proof (elim disjE exE conjE)
    assume "s = - 1" "st' = st"
    with r assms(2) show ?thesis by auto
  next
    fix f st1 lfd' fd e
    assume al: "uosFileAlloc A st = (Some f, st1)" and "netLwIP_FD A ls st1 = Inr lfd'"
      and c: "lwip_accept A lfd' a al (ext st1) = (fd, e)" and o': "opened A live st fd s st'"
    then have "lfd' = lfd" using n [OF al] by simp
    have "if fd = - 1 then s = - 1 \<and> socks A st' = socks A st \<and> live (ext st') = live (ext st)
        else s \<noteq> - 1 \<and> socks A st s = None \<and> socks A st' = (socks A st)(s \<mapsto> fd)"
      and "uos_inv live st'" using o' by (auto simp: opened_def)
    with r c al \<open>lfd' = lfd\<close> show ?thesis by (intro exI [of _ s] exI [of _ st']) (auto split: if_splits)
  qed
qed

theorem accept_correct_witness:
  "\<exists>st'. accept ex_uos 1 0 0 ex_st = Inr (2, st') \<and> uos_inv ex_live st' \<and> socks ex_uos st' 1 = Some 40"
proof -
  have "socks ex_uos ex_st 1 = Some 40" by (simp add: ex_socks)
  from accept_correct [OF ex_uos_ok ex_uos_inv this, of 0 0] obtain s st'
    where r: "accept ex_uos 1 0 0 ex_st = Inr (s, st')" and i: "uos_inv ex_live st'"
      and c: "if s = - 1 then socks ex_uos st' = socks ex_uos ex_st \<and> ex_live (ext st') = ex_live (ext ex_st)
        else \<exists>f st1 fd e. uosFileAlloc ex_uos ex_st = (Some f, st1) \<and>
          lwip_accept ex_uos 40 0 0 (ext st1) = (fd, e) \<and> fd \<noteq> - 1 \<and>
          socks ex_uos ex_st s = None \<and> socks ex_uos st' = (socks ex_uos ex_st)(s \<mapsto> fd)"
    by blast
  from r have "s = 2"
    by (simp add: accept_def netLwIP_FD_def P_ASSERT_def fs_is_sock_def ex_uos_def ex_st_def upt_rec set_file_def)
  with r i c show ?thesis by (auto simp: ex_socks)
qed

text \<open>\<open>accept\<close> allocates its file before it looks up the listening slot. On a slot that
  is not open (where the look-up gives -1 and lwIP reports an error) the allocation can take
  that very slot; the look-up then reads the new file's uninitialised fields: a null pointer
  is dereferenced, or the stale descriptor of the slot's last socket is accepted on.\<close>

theorem accept_on_free_slot:
  assumes "uos_ok A live" and "uos_inv live st" and "uosFileAlloc A st = (Some f, st1)"
  shows "netLwIP_FD A (uosFile2Slot A f) st = Inr (- 1) \<and>
    (file_fs (files st1 f) = None \<longrightarrow> accept A (uosFile2Slot A f) a al st = Inl NullDeref) \<and>
    (file_fs (files st1 f) = Some SockFS \<longrightarrow>
      netLwIP_FD A (uosFile2Slot A f) st1 = Inr (fsPrivFd (files st1 f)))"
proof -
  note a = alloc_SomeD [OF assms(1,3)]
  have "uosSlot2File A (uosFile2Slot A f) (ext st) = None"
    using a slot_iff [OF assms(1)] slot_inj [OF assms(1)] by (metis not_None_eq)
  moreover have s: "uosSlot2File A (uosFile2Slot A f) (ext st1) = Some f"
    using a slot_iff [OF assms(1)] by blast
  moreover have "P_ASSERT_enabled A" using assms(1) by (simp add: uos_ok_def)
  moreover have "fs_cf (sockFS st1) = Some SockFSConf" using assms(2) a by (simp add: uos_inv_def)
  ultimately show ?thesis
    using assms(3) by (auto simp: accept_def netLwIP_FD_def P_ASSERT_def fs_is_sock_def)
qed

theorem accept_on_free_slot_witness:
  "netLwIP_FD ex_uos 2 ex_st = Inr (- 1) \<and> accept ex_uos 2 0 0 ex_st = Inl NullDeref"
proof -
  have a: "uosFileAlloc ex_uos ex_st = (Some 2, ex_st\<lparr>ext := ([2, 1, 0], 50)\<rparr>)"
    by (simp add: ex_uos_def ex_st_def upt_rec)
  have "file_fs (files (ex_st\<lparr>ext := ([2, 1, 0], 50)\<rparr>) 2) = None" "uosFile2Slot ex_uos 2 = 2"
    by (simp_all add: ex_st_def ex_uos_def)
  with accept_on_free_slot [OF ex_uos_ok ex_uos_inv a, of 0 0] show ?thesis by simp
qed

section \<open>Closing\<close>

text \<open>Closing the file of an open socket closes the lwIP descriptor behind it, returns 0, takes
  exactly its slot out of the table and gives the file back; closing another file fails the
  assertion.\<close>

theorem close_correct:
  assumes "uos_ok A live" and "uos_inv live st" and "f \<in> live (ext st)"
  shows "case socks A st (uosFile2Slot A f) of
      None \<Rightarrow> sockClose A f st = Inl AssertFail
    | Some fd \<Rightarrow> \<exists>st'. sockClose A f st = Inr (0, st') \<and>
        st' = uosFileFree A f (st\<lparr>ext := snd (lwip_close A fd (ext st))\<rparr>) \<and> uos_inv live st' \<and>
        socks A st' = (socks A st)(uosFile2Slot A f := None) \<and> live (ext st') = live (ext st) - {f}"
  by (rule sockClose_cases [OF assms])

theorem close_correct_witness:
  "\<exists>st'. sockClose ex_uos 1 ex_st = Inr (0, st') \<and> socks ex_uos st' = Map.empty \<and>
    ex_live (ext st') = {0} \<and> sockClose ex_uos 0 ex_st = Inl AssertFail"
proof -
  have l: "ex_live (ext ex_st) = {0, 1}" and sl: "uosFile2Slot ex_uos = int"
    by (auto simp: ex_live_def ex_st_def ex_uos_def)
  from close_correct [OF ex_uos_ok ex_uos_inv, of 1] close_correct [OF ex_uos_ok ex_uos_inv, of 0]
  show ?thesis by (auto simp: ex_socks l sl)
qed

text \<open>C9: Over every sequence of calls of \<open>socket\<close>, \<open>accept\<close> and, on files in use,
  \<open>sockClose\<close> that does not fail an assertion, the slots in use are exactly what the caller's
  ledger says: those in use before, with every slot that \<open>socket\<close> or \<open>accept\<close> returned and
  without the slots of the files closed; and those of them that were not another file's before
  are the open sockets. So a failed call keeps no slot, and a closed socket gives its slot
  back.\<close>

theorem sockets_leak_nothing:
  assumes "table_inv A live st"
    and "table_run (open_slot A) (sockClose A) (uosFile2Slot A) ops (used_slots A live st, st) = Inr (u, st')"
  shows "used_slots A live st' = u \<and>
    dom (socks A st') = u - (used_slots A live st - dom (socks A st)) \<and> table_inv A live st'"
  using sockt.run_ledger [OF assms] sockt.run_sockets [OF assms] by blast

theorem sockets_leak_nothing_witness:
  "\<exists>u st'. table_run (open_slot ex_uos) (sockClose ex_uos) (uosFile2Slot ex_uos)
      [Open (Socket 2 1 0), Open (Socket 9 9 9), Close 2, Close 1, Open (Socket 2 1 0)]
      ({0, 1}, ex_st) = Inr (u, st') \<and> used_slots ex_uos ex_live st' = {0, 1} \<and> dom (socks ex_uos st') = {1}"
proof -
  have l: "used_slots ex_uos ex_live ex_st = {0, 1}" by (auto simp: used_slots_def ex_live_def ex_st_def ex_uos_def)
  have e: "insert 1 ({1, 0, 2} - {2}) = {1, 0 :: int}" by auto
  obtain st' where r: "table_run (open_slot ex_uos) (sockClose ex_uos) (uosFile2Slot ex_uos)
      [Open (Socket 2 1 0), Open (Socket 9 9 9), Close 2, Close 1, Open (Socket 2 1 0)]
      ({0, 1}, ex_st) = Inr ({0, 1}, st')"
    by (simp add: socket_def sockClose_def P_ASSERT_def
        fs_is_sock_def ex_uos_def ex_st_def upt_rec set_file_def insert_commute e)
  from sockets_leak_nothing [OF _ r [folded l]] r show ?thesis
    by (auto simp: table_inv_def ex_uos_ok ex_uos_inv l ex_socks)
qed

text \<open>The \<open>closesocket\<close> macro closes the lwIP descriptor of an open socket but not the
  file: the slot stays in use and still leads to the closed descriptor, so each
  \<open>closesocket\<close> costs a slot of the open-file table.\<close>

theorem closesocket_keeps_slot:
  assumes "uos_ok A live" and "uos_inv live st" and "socks A st s = Some fd"
  shows "\<exists>r st'. closesocket A s st = Inr (r, st') \<and> ext st' = snd (lwip_close A fd (ext st)) \<and>
    socks A st' s = Some fd \<and> used_slots A live st' = used_slots A live st"
proof -
  have "uosSlot2File A s (ext st) \<noteq> None"
    using assms(3) by (auto simp: socks_def split: option.splits)
  then have n: "netLwIP_FD A s st = Inr fd"
    by (auto simp: netLwIP_FD_eq [OF assms(1,2)] assms(3))
  obtain r e where c: "lwip_close A fd (ext st) = (r, e)" by fastforce
  have l: "live e = live (ext st)" using lwip_frameD(3) [OF assms(1), of fd "ext st"] c by simp
  have "socks A (st\<lparr>ext := e\<rparr>) = socks A st"
    by (rule socks_frame [OF assms(1)]) (simp_all add: l)
  with c n l assms(3) show ?thesis
    by (simp add: closesocket_def with_fd_def used_slots_def)
qed

theorem closesocket_keeps_slot_witness:
  "\<exists>r st'. closesocket ex_uos 1 ex_st = Inr (r, st') \<and> socks ex_uos st' 1 = Some 40"
proof -
  have "socks ex_uos ex_st 1 = Some 40" by (simp add: ex_socks)
  from closesocket_keeps_slot [OF ex_uos_ok ex_uos_inv this] show ?thesis by blast
qed

section \<open>Using a socket\<close>



section \<open>Several tasks\<close>

text \<open>\<open>socket\<close>, \<open>accept\<close> and \<open>sockClose\<close> are sequences of at most four steps: a task that makes
  them without another one in between does what the function does, on every branch.\<close>

theorem calls_are_functions:
  "run_pc A 3 (Begin_socket d t p) st = Inr (socket A d t p st) \<and>
   run_pc A 4 (Begin_accept s a al) st = accept A s a al st \<and>
   run_pc A 3 (Begin_close f) st = sockClose A f st"
  by (simp add: run_socket run_accept run_close)

text \<open>C7: In every interleaving of tasks that open, accept and close sockets, each socket closed
  once by one task: the slot of every socket the application holds leads to a descriptor that
  is open in lwIP, and no two of them to the same one; when no call is under way, exactly the
  files and the descriptors of these sockets are in use beside those of others, so neither
  the file table nor lwIP has lost one; and no step of a call fails, unless an \<open>accept\<close> was
  called on a socket the application does not hold.\<close>

theorem sockets_between_tasks:
  assumes "uos_ok A live" and "fds_ok A fds" and "sock_reach A live fds X F s"
    and "fd = (\<lambda>f. fsPrivFd (files (tab s) f))"
  shows "(\<forall>f \<in> held s. netLwIP_FD A (uosFile2Slot A f) (tab s) = Inr (fd f) \<and> fd f \<in> fds (ext (tab s))) \<and>
    inj_on fd (held s) \<and>
    ((\<forall>i. doing s i = None) \<longrightarrow> live (ext (tab s)) = X \<union> held s \<and> X \<inter> held s = {} \<and>
       fds (ext (tab s)) = F \<union> fd ` held s) \<and>
    (\<forall>i pc. doing s i = Some pc \<and> (\<forall>f l a al. pc = Accept_file f l a al \<longrightarrow> l \<in> uosFile2Slot A ` held s) \<longrightarrow>
       is_ok (sock_pc_step A pc (tab s)))"
proof (intro conjI ballI allI impI)
  note inv = sock_inv_reach [OF assms(1-3)]
  show "netLwIP_FD A (uosFile2Slot A f) (tab s) = Inr (fd f)" "fd f \<in> fds (ext (tab s))" if "f \<in> held s" for f
    using held_slot [OF assms(1) inv that] by (simp_all add: assms(4))
  show "inj_on fd (held s)" unfolding assms(4) by (rule held_inj [OF inv])
  assume "\<forall>i. doing s i = None"
  then have n: "\<And>i. doing s i = None" by blast
  show "live (ext (tab s)) = X \<union> held s" "X \<inter> held s = {}" "fds (ext (tab s)) = F \<union> fd ` held s"
    unfolding assms(4) by (rule idle_tables [OF inv n])+
next
  note inv = sock_inv_reach [OF assms(1-3)]
  fix i pc
  assume h: "doing s i = Some pc \<and> (\<forall>f l a al. pc = Accept_file f l a al \<longrightarrow> l \<in> uosFile2Slot A ` held s)"
  have "\<exists>pc' t. sock_pc_step A pc (tab s) = Inr (pc', t)"
    by (rule pc_step_total [OF assms(1) inv conjunct1 [OF h]]) (use h in blast)
  then obtain pc' t where "sock_pc_step A pc (tab s) = Inr (pc', t)" by blast
  then show "is_ok (sock_pc_step A pc (tab s))" by simp
qed

text \<open>A system whose state is the allocated files and the open descriptors.\<close>

type_synonym task_ext = "nat list \<times> int list"

definition task_open :: "task_ext \<Rightarrow> int \<times> task_ext" where
  "task_open e = (let fd = 1 + foldr max (snd e) 0 in (fd, (fst e, fd # snd e)))"

definition task_uos :: "task_ext uos" where
  "task_uos =
     \<lparr> P_ASSERT_enabled = True, other_fs_cf = (\<lambda>n. Some (OtherFSConf n)), uosMount = (\<lambda>st. st),
       uosFileAlloc = (\<lambda>st. case find (\<lambda>f. f \<notin> set (fst (ext st))) [0..<3] of
           None \<Rightarrow> (None, st)
         | Some f \<Rightarrow> (Some f, st\<lparr>ext := (f # fst (ext st), snd (ext st))\<rparr>)),
       uosFileFree = (\<lambda>f st. st\<lparr>ext := (removeAll f (fst (ext st)), snd (ext st))\<rparr>),
       uosFile2Slot = int,
       uosSlot2File = (\<lambda>s e. if 0 \<le> s \<and> nat s \<in> set (fst e) then Some (nat s) else None),
       lwip_socket = (\<lambda>_ _ _. task_open), lwip_accept = (\<lambda>_ _ _. task_open),
       lwip_close = (\<lambda>fd e. (0, (fst e, removeAll fd (snd e)))),
       lwip_read = (\<lambda>fd _ _ e. (fd, e)), lwip_write = (\<lambda>fd _ _ e. (fd, e)),
       lwip_bind = (\<lambda>fd _ _ e. (fd, e)), lwip_shutdown = (\<lambda>fd _ e. (fd, e)),
       lwip_getpeername = (\<lambda>fd _ _ e. (fd, e)), lwip_getsockname = (\<lambda>fd _ _ e. (fd, e)),
       lwip_setsockopt = (\<lambda>fd _ _ _ _ e. (fd, e)), lwip_connect = (\<lambda>fd _ _ e. (fd, e)),
       lwip_listen = (\<lambda>fd _ e. (fd, e)), lwip_recv = (\<lambda>fd _ _ _ e. (fd, e)),
       lwip_recvfrom = (\<lambda>fd _ _ _ _ _ e. (fd, e)), lwip_send = (\<lambda>fd _ _ _ e. (fd, e)),
       lwip_sendmsg = (\<lambda>fd _ _ e. (fd, e)), lwip_sendto = (\<lambda>fd _ _ _ _ _ e. (fd, e)),
       lwip_writev = (\<lambda>fd _ _ e. (fd, e)) \<rparr>"

definition task_live :: "task_ext \<Rightarrow> nat set" where "task_live e = set (fst e)"
definition task_fds :: "task_ext \<Rightarrow> int set" where "task_fds e = set (snd e)"

lemma task_uos_ok: "uos_ok task_uos task_live"
  by (auto simp: uos_ok_def alloc_ok_def free_ok_def slots_ok_def lwip_frame_def task_uos_def task_live_def
      task_open_def Let_def find_Some_iff inj_def split: option.splits if_splits)

lemma foldr_max_ge: "x \<in> set l \<Longrightarrow> x \<le> foldr max l (0 :: int)" "0 \<le> foldr max l (0 :: int)"
  by (induction l) auto

lemma task_fds_ok: "fds_ok task_uos task_fds"
proof -
  have "1 + foldr max l 0 \<notin> set l" "1 + foldr max l 0 \<noteq> (- 1 :: int)" for l
    using foldr_max_ge(1) [of "1 + foldr max l 0" l] foldr_max_ge(2) [of l] by auto
  then show ?thesis
    by (auto simp: fds_ok_def task_uos_def task_fds_def task_open_def Let_def split: option.splits)
qed

text \<open>File 0 is the console; task 2 is waiting in \<open>accept\<close> when task 1 has got its socket.\<close>

definition task_sys :: "task_ext \<Rightarrow> (nat \<Rightarrow> UosFile) \<Rightarrow> (nat \<Rightarrow> sock_pc option) \<Rightarrow> nat set \<Rightarrow> task_ext sock_sys" where
  "task_sys e fs d h =
     \<lparr>tab = \<lparr>sockFS = \<lparr>mountPoint = Some ''/socket'', fs_cf = Some SockFSConf\<rparr>, files = fs, ext = e\<rparr>,
      doing = d, held = h\<rparr>"

definition task_fs :: "nat \<Rightarrow> UosFile" where
  "task_fs f = \<lparr>file_fs = Some (OtherFS 7), file_cf = None, fsPrivFd = 0\<rparr>"

definition task_fs1 :: "nat \<Rightarrow> UosFile" where
  "task_fs1 = task_fs(1 := \<lparr>file_fs = Some SockFS, file_cf = Some SockConf, fsPrivFd = 1\<rparr>)"

abbreviation task_reach :: "task_ext sock_sys \<Rightarrow> bool" where
  "task_reach \<equiv> sock_reach task_uos task_live task_fds {0} {}"

lemma task_step:
  assumes "task_reach (task_sys e fs d h)" and "d i = Some pc"
    and "sock_pc_step task_uos pc (tab (task_sys e fs d h)) = Inr (pc', tab (task_sys e' fs' d h))"
  shows "task_reach (task_sys e' fs' (d(i \<mapsto> pc')) h)"
proof -
  have "sock_step task_uos task_live task_fds (task_sys e fs d h) (task_sys e' fs' (d(i \<mapsto> pc')) h)"
    using sock_step.Step [of "task_sys e fs d h" i pc task_uos pc' "tab (task_sys e' fs' d h)" task_live task_fds] assms(2,3)
    by (simp add: task_sys_def)
  with assms(1) show ?thesis by (rule sock_reach.Next)
qed

lemma task_reached: "task_reach (task_sys ([2, 1, 0], [1]) task_fs1 [2 \<mapsto> Accept_file 2 1 0 0] {1})"
proof -
  have "task_reach (task_sys ([0], []) task_fs (\<lambda>_. None) {})"
    by (rule sock_reach.Start) (simp_all add: task_sys_def task_live_def task_fds_def)
  then have "task_reach (task_sys ([0], []) task_fs [1 \<mapsto> Begin_socket 2 1 0] {})"
    by (rule sock_reach.Next) (use sock_step.Call_socket [of "task_sys ([0], []) task_fs (\<lambda>_. None) {}" 1] in \<open>simp add: task_sys_def\<close>)
  from task_step [OF this, of 1 "Begin_socket 2 1 0" "Socket_file 1 2 1 0" "([1, 0], [])" task_fs]
  have "task_reach (task_sys ([1, 0], []) task_fs [1 \<mapsto> Socket_file 1 2 1 0] {})"
    by (simp add: task_uos_def task_sys_def upt_rec)
  from sock_reach.Next [OF this sock_step.Call_accept [of _ 2 _ _ _ 1 0 0]]
  have "task_reach (task_sys ([1, 0], []) task_fs [1 \<mapsto> Socket_file 1 2 1 0, 2 \<mapsto> Begin_accept 1 0 0] {})"
    by (simp add: task_sys_def)
  from task_step [OF this, of 2 "Begin_accept 1 0 0" "Accept_file 2 1 0 0" "([2, 1, 0], [])" task_fs]
  have "task_reach (task_sys ([2, 1, 0], []) task_fs [1 \<mapsto> Socket_file 1 2 1 0, 2 \<mapsto> Accept_file 2 1 0 0] {})"
    by (simp add: task_uos_def task_sys_def upt_rec)
  from task_step [OF this, of 1 "Socket_file 1 2 1 0" "Got 1 1" "([2, 1, 0], [1])" task_fs]
  have "task_reach (task_sys ([2, 1, 0], [1]) task_fs [1 \<mapsto> Got 1 1, 2 \<mapsto> Accept_file 2 1 0 0] {})"
    by (simp add: task_uos_def task_sys_def task_open_def fun_upd_twist)
  from task_step [OF this, of 1 "Got 1 1" "Opened (Some 1) 1" "([2, 1, 0], [1])" task_fs1]
  have "task_reach (task_sys ([2, 1, 0], [1]) task_fs1 [1 \<mapsto> Opened (Some 1) 1, 2 \<mapsto> Accept_file 2 1 0 0] {})"
    by (simp add: task_uos_def task_sys_def set_file_def task_fs1_def task_fs_def fun_upd_twist)
  from sock_reach.Next [OF this sock_step.Return_open [of _ 1 "Some 1" 1]]
  show ?thesis by (simp add: task_sys_def fun_upd_twist)
qed

theorem sockets_between_tasks_witness:
  "netLwIP_FD task_uos 1 (tab (task_sys ([2, 1, 0], [1]) task_fs1 [2 \<mapsto> Accept_file 2 1 0 0] {1})) = Inr 1 \<and>
   is_ok (sock_pc_step task_uos (Accept_file 2 1 0 0)
     (tab (task_sys ([2, 1, 0], [1]) task_fs1 [2 \<mapsto> Accept_file 2 1 0 0] {1})))"
proof -
  let ?s = "task_sys ([2, 1, 0], [1]) task_fs1 [2 \<mapsto> Accept_file 2 1 0 0] {1}"
  have h: "held ?s = {1}" "doing ?s 2 = Some (Accept_file 2 1 0 0)" "uosFile2Slot task_uos 1 = 1"
    "fsPrivFd (files (tab ?s) 1) = 1" by (simp_all add: task_sys_def task_uos_def task_fs1_def)
  note r = sockets_between_tasks [OF task_uos_ok task_fds_ok task_reached refl]
  have "netLwIP_FD task_uos (uosFile2Slot task_uos 1) (tab ?s) = Inr (fsPrivFd (files (tab ?s) 1))"
    using r [THEN conjunct1, THEN bspec, of 1] h(1) by blast
  moreover have "is_ok (sock_pc_step task_uos (Accept_file 2 1 0 0) (tab ?s))"
    by (rule r [THEN conjunct2, THEN conjunct2, THEN conjunct2, THEN spec, THEN spec, THEN mp, of 2])
      (simp add: task_sys_def task_uos_def)
  ultimately show ?thesis unfolding h(3,4) by blast
qed

end
