(* ===== verification/Netif_Common.thy ===== *)
theory Netif_Common
  imports Prelude
begin

text \<open>
  What the two Ethernet drivers (\<open>netif/tapif.c\<close>, \<open>netif/cs8900a_lpc_e2129.c\<close>) share: lwIP's
  packet buffers as chains of segments, the copying loops over a chain, the dispatch of a
  received frame on its Ethernet type and the polling loop. lwIP is a parameter: the record
  \<open>ethx\<close> holds its operations and constants. The contract \<open>eth_driver\<close> says what the
  polling loop needs of a driver's receive function; each driver interprets it.
\<close>

section \<open>Packet buffers\<close>

text \<open>
  A segment: the object its payload pointer points into, the offset of the payload and the
  length. A packet is a chain of them with the total length lwIP keeps.
\<close>

record seg =
  seg_mem :: "u8 list"
  payload :: nat
  seg_len :: nat

record pbuf =
  chain :: "seg list"
  tot_len :: nat

definition seg_bytes :: "seg \<Rightarrow> u8 list" where
  "seg_bytes q = take (seg_len q) (drop (payload q) (seg_mem q))"

definition seg_ok :: "seg \<Rightarrow> bool" where
  "seg_ok q \<longleftrightarrow> payload q + seg_len q \<le> length (seg_mem q)"

definition chain_bytes :: "seg list \<Rightarrow> u8 list" where
  "chain_bytes qs = concat (map seg_bytes qs)"

definition chain_len :: "seg list \<Rightarrow> nat" where
  "chain_len qs = sum_list (map seg_len qs)"

definition pbuf_ok :: "pbuf \<Rightarrow> bool" where
  "pbuf_ok p \<longleftrightarrow> chain p \<noteq> [] \<and> (\<forall>q \<in> set (chain p). seg_ok q) \<and> tot_len p = chain_len (chain p)"

lemma chain_simps [simp]:
  "chain_bytes [] = []" "chain_bytes (q # qs) = seg_bytes q @ chain_bytes qs"
  "chain_len [] = 0" "chain_len (q # qs) = seg_len q + chain_len qs"
  by (simp_all add: chain_bytes_def chain_len_def)

lemma length_seg_bytes [simp]: "seg_ok q \<Longrightarrow> length (seg_bytes q) = seg_len q"
  by (simp add: seg_bytes_def seg_ok_def)

lemma length_chain_bytes: "\<forall>q \<in> set qs. seg_ok q \<Longrightarrow> length (chain_bytes qs) = chain_len qs"
  by (induction qs) simp_all

lemma rd_seg: "seg_ok q \<Longrightarrow> rd_n (seg_mem q) (payload q) (seg_len q) = Inr (seg_bytes q)"
  by (simp add: rd_n_def seg_ok_def seg_bytes_def)

section \<open>Copying between a chain and a buffer\<close>

text \<open>\<open>memcpy(bufPtr, q->payload, q->len); bufPtr += q->len\<close> for every segment.\<close>

fun gather :: "seg list \<Rightarrow> nat \<Rightarrow> u8 list \<Rightarrow> u8 list res" where
  "gather [] pos buf = Inr buf"
| "gather (q # qs) pos buf =
     rbind (rd_n (seg_mem q) (payload q) (seg_len q)) (\<lambda>bs.
     rbind (wr_n buf pos bs) (\<lambda>buf. gather qs (pos + seg_len q) buf))"

text \<open>\<open>memcpy(q->payload, bufPtr, q->len); bufPtr += q->len\<close> for every segment.\<close>

fun scatter :: "seg list \<Rightarrow> nat \<Rightarrow> u8 list \<Rightarrow> seg list res" where
  "scatter [] pos buf = Inr []"
| "scatter (q # qs) pos buf =
     rbind (rd_n buf pos (seg_len q)) (\<lambda>bs.
     rbind (wr_n (seg_mem q) (payload q) bs) (\<lambda>m.
     rbind (scatter qs (pos + seg_len q) buf) (\<lambda>qs. Inr (q\<lparr>seg_mem := m\<rparr> # qs))))"

lemma gather_ok:
  "\<forall>q \<in> set qs. seg_ok q \<Longrightarrow> pos + chain_len qs \<le> length buf \<Longrightarrow>
   gather qs pos buf = Inr (splice buf pos (chain_bytes qs))"
proof (induction qs arbitrary: pos buf)
  case Nil
  then show ?case by (simp add: splice_def)
next
  case (Cons q qs)
  then have q: "seg_ok q" by simp
  let ?b = "splice buf pos (seg_bytes q)"
  have w: "wr_n buf pos (seg_bytes q) = Inr ?b" "length ?b = length buf"
    using Cons.prems q by (simp_all add: wr_n_in)
  have "gather qs (pos + seg_len q) ?b = Inr (splice ?b (pos + seg_len q) (chain_bytes qs))"
    using Cons.IH [of "pos + seg_len q" ?b] Cons.prems w(2) by (simp add: add.assoc)
  moreover have "splice ?b (pos + length (seg_bytes q)) (chain_bytes qs) =
      splice buf pos (seg_bytes q @ chain_bytes qs)"
    using Cons.prems q length_chain_bytes [of qs] by (intro splice_adjacent) simp
  ultimately show ?case by (simp add: rd_seg [OF q] w(1) length_seg_bytes [OF q])
qed

lemma gather_overflow:
  "\<forall>q \<in> set qs. seg_ok q \<Longrightarrow> pos \<le> length buf \<Longrightarrow> length buf < pos + chain_len qs \<Longrightarrow>
   gather qs pos buf = Inl OutOfBounds"
proof (induction qs arbitrary: pos buf)
  case Nil
  then show ?case by simp
next
  case (Cons q qs)
  then have q: "seg_ok q" by simp
  show ?case
  proof (cases "pos + seg_len q \<le> length buf")
    case True
    let ?b = "splice buf pos (seg_bytes q)"
    have w: "wr_n buf pos (seg_bytes q) = Inr ?b" "length ?b = length buf"
      using True q by (simp_all add: wr_n_in)
    have "gather qs (pos + seg_len q) ?b = Inl OutOfBounds"
      using Cons.IH [of "pos + seg_len q" ?b] Cons.prems True w(2) by (simp add: add.assoc)
    then show ?thesis by (simp add: rd_seg [OF q] w(1))
  next
    case False
    then show ?thesis using q by (simp add: rd_seg [OF q] wr_n_def)
  qed
qed

text \<open>
  After scattering, the chain has the shape it had (payload offsets, lengths, sizes of the
  objects) and holds the bytes of the buffer.
\<close>

definition same_shape :: "seg list \<Rightarrow> seg list \<Rightarrow> bool" where
  "same_shape = list_all2 (\<lambda>q q'. payload q' = payload q \<and> seg_len q' = seg_len q \<and>
     length (seg_mem q') = length (seg_mem q))"

lemma scatter_ok:
  "\<forall>q \<in> set qs. seg_ok q \<Longrightarrow> pos + chain_len qs \<le> length buf \<Longrightarrow>
   \<exists>qs'. scatter qs pos buf = Inr qs' \<and> same_shape qs qs' \<and>
     chain_bytes qs' = take (chain_len qs) (drop pos buf)"
proof (induction qs arbitrary: pos)
  case Nil
  then show ?case by (simp add: same_shape_def)
next
  case (Cons q qs)
  then have q: "seg_ok q" by simp
  let ?bs = "take (seg_len q) (drop pos buf)"
  let ?m = "splice (seg_mem q) (payload q) ?bs"
  have l: "length ?bs = seg_len q" using Cons.prems by simp
  have r: "rd_n buf pos (seg_len q) = Inr ?bs" "wr_n (seg_mem q) (payload q) ?bs = Inr ?m"
    using Cons.prems q by (simp_all add: rd_n_in wr_n_in seg_ok_def)
  have "pos + seg_len q + chain_len qs \<le> length buf" using Cons.prems by simp
  with Cons.IH [of "pos + seg_len q"] Cons.prems obtain qs'
    where s: "scatter qs (pos + seg_len q) buf = Inr qs'" "same_shape qs qs'"
      "chain_bytes qs' = take (chain_len qs) (drop (pos + seg_len q) buf)" by auto
  have b: "seg_bytes (q\<lparr>seg_mem := ?m\<rparr>) = ?bs"
    using splice_same [of "payload q" ?bs "seg_mem q"] q l by (simp add: seg_bytes_def seg_ok_def)
  have m: "length ?m = length (seg_mem q)"
    using q l by (simp add: seg_ok_def)
  have "take (seg_len q + chain_len qs) (drop pos buf) =
      ?bs @ take (chain_len qs) (drop (pos + seg_len q) buf)"
    by (simp only: take_add drop_drop) (simp add: add.commute)
  then show ?case
    using r s b m by (simp add: same_shape_def)
qed

text \<open>A read past the end of the buffer is found.\<close>

lemma scatter_overrun:
  "\<forall>q \<in> set qs. seg_ok q \<Longrightarrow> length buf < pos + chain_len qs \<Longrightarrow> pos \<le> length buf \<Longrightarrow>
   scatter qs pos buf = Inl OutOfBounds"
proof (induction qs arbitrary: pos)
  case Nil
  then show ?case by simp
next
  case (Cons q qs)
  then have q: "seg_ok q" by simp
  show ?case
  proof (cases "pos + seg_len q \<le> length buf")
    case True
    then have w: "wr_n (seg_mem q) (payload q) (take (seg_len q) (drop pos buf)) =
        Inr (splice (seg_mem q) (payload q) (take (seg_len q) (drop pos buf)))"
      using q by (simp add: wr_n_in seg_ok_def)
    have "scatter qs (pos + seg_len q) buf = Inl OutOfBounds"
      using Cons.IH [of "pos + seg_len q"] Cons.prems True by (simp add: add.assoc)
    then show ?thesis using True w by (simp add: rd_n_in)
  next
    case False
    then show ?thesis by (simp add: rd_n_def)
  qed
qed

lemma same_shape_facts:
  assumes "same_shape qs qs'"
  shows "chain_len qs' = chain_len qs" "(\<forall>q \<in> set qs'. seg_ok q) = (\<forall>q \<in> set qs. seg_ok q)"
    "qs' = [] \<longleftrightarrow> qs = []"
  using assms unfolding same_shape_def
  by (induction rule: list_all2_induct) (auto simp: seg_ok_def)

section \<open>lwIP as the drivers see it\<close>

datatype link_stat = Xmit | Recv | Memerr | Drop

text \<open>
  \<open>pbuf_alloc\<close> stands for \<open>pbuf_alloc(PBUF_RAW, len, PBUF_POOL)\<close>, whose length argument
  has 16 bits; \<open>eth_type_off\<close> is the offset of the type in \<open>struct eth_hdr\<close>.
\<close>

record 'w ethx =
  ETH_PAD_SIZE :: nat
  PPPOE_SUPPORT :: bool
  ETHTYPE_IP :: u16
  ETHTYPE_IPV6 :: u16
  ETHTYPE_ARP :: u16
  ETHTYPE_PPPOEDISC :: u16
  ETHTYPE_PPPOE :: u16
  eth_type_off :: nat
  pbuf_header :: "int \<Rightarrow> pbuf \<Rightarrow> pbuf"
  pbuf_alloc :: "u16 \<Rightarrow> 'w \<Rightarrow> pbuf option \<times> 'w"
  pbuf_free :: "pbuf \<Rightarrow> 'w \<Rightarrow> 'w"
  netif_input :: "pbuf \<Rightarrow> 'w \<Rightarrow> err_t \<times> 'w"
  LINK_STATS_INC :: "link_stat \<Rightarrow> 'w \<Rightarrow> 'w"

text \<open>The two conditional calls that drop and reclaim the padding word.\<close>

definition drop_pad :: "'w ethx \<Rightarrow> pbuf \<Rightarrow> pbuf" where
  "drop_pad X p = (if ETH_PAD_SIZE X \<noteq> 0 then pbuf_header X (- int (ETH_PAD_SIZE X)) p else p)"

definition reclaim_pad :: "'w ethx \<Rightarrow> pbuf \<Rightarrow> pbuf" where
  "reclaim_pad X p = (if ETH_PAD_SIZE X \<noteq> 0 then pbuf_header X (int (ETH_PAD_SIZE X)) p else p)"

text \<open>What \<open>pbuf_header\<close> documents: it moves the payload of the first segment.\<close>

definition lower :: "nat \<Rightarrow> pbuf \<Rightarrow> pbuf" where
  "lower k p = (case chain p of [] \<Rightarrow> p
     | q # qs \<Rightarrow> p\<lparr>chain := q\<lparr>payload := payload q + k, seg_len := seg_len q - k\<rparr> # qs,
         tot_len := tot_len p - k\<rparr>)"

definition raise_hdr :: "nat \<Rightarrow> pbuf \<Rightarrow> pbuf" where
  "raise_hdr k p = (case chain p of [] \<Rightarrow> p
     | q # qs \<Rightarrow> p\<lparr>chain := q\<lparr>payload := payload q - k, seg_len := seg_len q + k\<rparr> # qs,
         tot_len := tot_len p + k\<rparr>)"

definition header_ok :: "'w ethx \<Rightarrow> bool" where
  "header_ok X \<longleftrightarrow>
     (\<forall>p q qs k. chain p = q # qs \<and> k \<le> seg_len q \<longrightarrow> pbuf_header X (- int k) p = lower k p) \<and>
     (\<forall>p q qs k. chain p = q # qs \<and> k \<le> payload q \<longrightarrow> pbuf_header X (int k) p = raise_hdr k p)"

text \<open>A packet whose first segment has room for the padding word.\<close>

definition padded :: "'w ethx \<Rightarrow> pbuf \<Rightarrow> bool" where
  "padded X p \<longleftrightarrow> pbuf_ok p \<and> ETH_PAD_SIZE X \<le> seg_len (hd (chain p))"

lemma raise_lower:
  assumes "chain p = q # qs" and "k \<le> seg_len q" and "pbuf_ok p"
  shows "raise_hdr k (lower k p) = p"
  using assms by (cases p) (auto simp: raise_hdr_def lower_def pbuf_ok_def)

lemma drop_pad_lower:
  assumes "header_ok X" and "padded X p"
  shows "drop_pad X p = lower (ETH_PAD_SIZE X) p"
proof -
  obtain q qs where c: "chain p = q # qs" using assms(2)
    by (auto simp: padded_def pbuf_ok_def neq_Nil_conv)
  then have "ETH_PAD_SIZE X \<le> seg_len q" using assms(2) by (simp add: padded_def)
  with assms(1) c have "pbuf_header X (- int (ETH_PAD_SIZE X)) p = lower (ETH_PAD_SIZE X) p"
    unfolding header_ok_def by blast
  with c show ?thesis by (cases p) (simp add: drop_pad_def lower_def)
qed

lemma reclaim_pad_raise:
  assumes "header_ok X" and "chain p = q # qs" and "ETH_PAD_SIZE X \<le> payload q"
  shows "reclaim_pad X p = raise_hdr (ETH_PAD_SIZE X) p"
proof -
  have "pbuf_header X (int (ETH_PAD_SIZE X)) p = raise_hdr (ETH_PAD_SIZE X) p"
    using assms unfolding header_ok_def by blast
  with assms(2) show ?thesis by (cases p) (simp add: reclaim_pad_def raise_hdr_def)
qed

text \<open>Dropping the padding word leaves the frame: everything but the first bytes.\<close>

lemma lower_facts:
  assumes "pbuf_ok p" and "k \<le> seg_len (hd (chain p))"
  shows "pbuf_ok (lower k p)" "chain_bytes (chain (lower k p)) = drop k (chain_bytes (chain p))"
    "tot_len (lower k p) = tot_len p - k" "k \<le> payload (hd (chain (lower k p)))"
proof -
  obtain q qs where c: "chain p = q # qs" using assms(1)
    by (auto simp: pbuf_ok_def neq_Nil_conv)
  have q: "seg_ok q" "k \<le> seg_len q" using assms c by (simp_all add: pbuf_ok_def)
  then have "seg_bytes (q\<lparr>payload := payload q + k, seg_len := seg_len q - k\<rparr>) = drop k (seg_bytes q)"
    by (simp add: seg_bytes_def drop_take add.commute)
  then show "chain_bytes (chain (lower k p)) = drop k (chain_bytes (chain p))"
    using q c by (simp add: lower_def)
  show "pbuf_ok (lower k p)" "tot_len (lower k p) = tot_len p - k" "k \<le> payload (hd (chain (lower k p)))"
    using assms c q by (auto simp: pbuf_ok_def lower_def seg_ok_def)
qed

text \<open>Dropped and reclaimed, the packet is as it was.\<close>

lemma reclaim_lower:
  assumes "header_ok X" and "padded X p"
  shows "reclaim_pad X (lower (ETH_PAD_SIZE X) p) = p"
proof -
  have p: "pbuf_ok p" "ETH_PAD_SIZE X \<le> seg_len (hd (chain p))" using assms(2) by (simp_all add: padded_def)
  obtain q qs where c: "chain p = q # qs" using p(1) by (auto simp: pbuf_ok_def neq_Nil_conv)
  show ?thesis
    using reclaim_pad_raise [OF assms(1), of "lower (ETH_PAD_SIZE X) p"] lower_facts(4) [OF p]
      raise_lower [OF c _ p(1)] p(2) c by (simp add: lower_def)
qed

lemma reclaim_drop_pad:
  "header_ok X \<Longrightarrow> padded X p \<Longrightarrow> reclaim_pad X (drop_pad X p) = p"
  by (simp add: drop_pad_lower reclaim_lower)

text \<open>Reclaiming it puts some bytes in front and leaves the frame behind them.\<close>

lemma raise_facts:
  assumes "pbuf_ok p" and "k \<le> payload (hd (chain p))"
  shows "pbuf_ok (raise_hdr k p)" "drop k (chain_bytes (chain (raise_hdr k p))) = chain_bytes (chain p)"
    "tot_len (raise_hdr k p) = tot_len p + k"
    "payload (hd (chain (raise_hdr k p))) = payload (hd (chain p)) - k"
    "seg_mem (hd (chain (raise_hdr k p))) = seg_mem (hd (chain p))"
    "k \<le> seg_len (hd (chain (raise_hdr k p)))"
proof -
  obtain q qs where c: "chain p = q # qs" using assms(1)
    by (auto simp: pbuf_ok_def neq_Nil_conv)
  have q: "seg_ok q" "k \<le> payload q" using assms c by (simp_all add: pbuf_ok_def)
  let ?q = "q\<lparr>payload := payload q - k, seg_len := seg_len q + k\<rparr>"
  have "length (seg_bytes ?q) = seg_len q + k" using q by (simp add: seg_bytes_def seg_ok_def)
  moreover have "drop k (seg_bytes ?q) = seg_bytes q" using q by (simp add: seg_bytes_def drop_take)
  ultimately show "drop k (chain_bytes (chain (raise_hdr k p))) = chain_bytes (chain p)"
    using c by (simp add: raise_hdr_def)
  show "pbuf_ok (raise_hdr k p)" "tot_len (raise_hdr k p) = tot_len p + k"
    "payload (hd (chain (raise_hdr k p))) = payload (hd (chain p)) - k"
    "seg_mem (hd (chain (raise_hdr k p))) = seg_mem (hd (chain p))"
    "k \<le> seg_len (hd (chain (raise_hdr k p)))"
    using assms c q by (auto simp: pbuf_ok_def raise_hdr_def seg_ok_def)
qed

section \<open>Filling a packet\<close>

text \<open>
  What both receive functions do with an allocated packet: drop the padding word, fill the
  payloads, reclaim the word. The shape of the packet is the allocated one.
\<close>

lemma fill_facts:
  assumes "header_ok X" and "padded X p" and "same_shape (chain (drop_pad X p)) qs"
    and "p' = reclaim_pad X ((drop_pad X p)\<lparr>chain := qs\<rparr>)"
  shows "padded X p'" "drop (ETH_PAD_SIZE X) (chain_bytes (chain p')) = chain_bytes qs"
    "tot_len p' = tot_len p" "payload (hd (chain p')) = payload (hd (chain p))"
    "length (seg_mem (hd (chain p'))) = length (seg_mem (hd (chain p)))"
    "seg_len (hd (chain p')) = seg_len (hd (chain p))"
proof -
  let ?k = "ETH_PAD_SIZE X" and ?p1 = "drop_pad X p"
  have p: "pbuf_ok p" "?k \<le> seg_len (hd (chain p))" using assms(2) by (simp_all add: padded_def)
  note d = drop_pad_lower [OF assms(1,2)]
  note l = lower_facts [OF p, folded d]
  have tl: "?k \<le> tot_len p" using p by (cases "chain p") (auto simp: pbuf_ok_def)
  note sh = same_shape_facts [OF assms(3)]
  let ?p2 = "?p1\<lparr>chain := qs\<rparr>"
  have ok2: "pbuf_ok ?p2" using l(1) sh by (simp add: pbuf_ok_def)
  have ne: "chain ?p1 \<noteq> []" "qs \<noteq> []" using l(1) sh(3) by (auto simp: pbuf_ok_def)
  have hd: "payload (hd qs) = payload (hd (chain ?p1))"
    "length (seg_mem (hd qs)) = length (seg_mem (hd (chain ?p1)))" "seg_len (hd qs) = seg_len (hd (chain ?p1))"
    using assms(3) ne unfolding same_shape_def by (auto simp: neq_Nil_conv)
  have k: "?k \<le> payload (hd (chain ?p2))" using l(4) hd by simp
  have raised: "p' = raise_hdr ?k ?p2"
    using reclaim_pad_raise [OF assms(1), of ?p2 "hd qs" "tl qs"] ne k assms(4) by simp
  note r = raise_facts [OF ok2 k, folded this]
  show "padded X p'" using r by (simp add: padded_def)
  show "drop ?k (chain_bytes (chain p')) = chain_bytes qs" using r by simp
  show "tot_len p' = tot_len p" using r l tl by simp
  obtain q q0 where c: "chain p = q # q0" using p by (auto simp: pbuf_ok_def neq_Nil_conv)
  then show "payload (hd (chain p')) = payload (hd (chain p))"
    "length (seg_mem (hd (chain p'))) = length (seg_mem (hd (chain p)))"
    using r hd by (simp_all add: d lower_def)
  obtain q2 qs2 where "qs = q2 # qs2" using ne by (auto simp: neq_Nil_conv)
  with hd c p show "seg_len (hd (chain p')) = seg_len (hd (chain p))"
    by (simp add: raised raise_hdr_def d lower_def)
qed

end
