(* ===== verification/Netif_Driver.thy ===== *)
theory Netif_Driver
  imports Netif_Common
begin

text \<open>
  From a received packet to lwIP: the dispatch on the Ethernet type, which both drivers
  write out in the same way, and the polling loop. The contract \<open>eth_driver\<close> counts the
  packets the driver holds (\<open>held\<close>) and the frames waiting in the device (\<open>pending\<close>); the
  polling loop then ends and holds nothing.
\<close>

section \<open>Dispatch on the Ethernet type\<close>

text \<open>
  \<open>htons(ethhdr->type)\<close>: the two bytes of the type field are in network order, so the
  result is their big-endian value on either kind of machine.
\<close>

definition ethhdr_type :: "'w ethx \<Rightarrow> pbuf \<Rightarrow> u16 res" where
  "ethhdr_type X p =
     (case chain p of [] \<Rightarrow> Inl NullDeref
      | q # _ \<Rightarrow>
          rbind (rd (seg_mem q) (payload q + eth_type_off X)) (\<lambda>hi.
          rbind (rd (seg_mem q) (payload q + eth_type_off X + 1)) (\<lambda>lo.
          Inr (ucast hi * 256 + ucast lo))))"

definition eth_accepted :: "'w ethx \<Rightarrow> u16 \<Rightarrow> bool" where
  "eth_accepted X t \<longleftrightarrow>
     t = ETHTYPE_IP X \<or> t = ETHTYPE_IPV6 X \<or> t = ETHTYPE_ARP X \<or>
     (PPPOE_SUPPORT X \<and> (t = ETHTYPE_PPPOEDISC X \<or> t = ETHTYPE_PPPOE X))"

text \<open>The \<open>switch\<close>: lwIP takes the packet, or it is freed.\<close>

definition eth_dispatch :: "'w ethx \<Rightarrow> pbuf \<Rightarrow> 'w \<Rightarrow> 'w res" where
  "eth_dispatch X p w =
     rbind (ethhdr_type X p) (\<lambda>t.
     if eth_accepted X t then
       (let (e, w) = netif_input X p w in if e \<noteq> ERR_OK then Inr (pbuf_free X p w) else Inr w)
     else Inr (pbuf_free X p w))"

text \<open>The receive function of a driver, then the dispatch; whether there was a packet.\<close>

definition eth_input ::
    "('w \<Rightarrow> (pbuf option \<times> 'w) res) \<Rightarrow> (pbuf \<Rightarrow> 'w \<Rightarrow> 'w res) \<Rightarrow> 'w \<Rightarrow> (bool \<times> 'w) res" where
  "eth_input receive dispose w =
     rbind (receive w) (\<lambda>(p, w).
     case p of
       None \<Rightarrow> Inr (False, w)
     | Some p \<Rightarrow> rbind (dispose p w) (\<lambda>w. Inr (True, w)))"

text \<open>
  \<open>while (input(netif)) ;\<close> for at most \<open>n\<close> rounds; \<open>None\<close> when the rounds are used up.
\<close>

fun drain :: "('w \<Rightarrow> (bool \<times> 'w) res) \<Rightarrow> nat \<Rightarrow> 'w \<Rightarrow> 'w res option" where
  "drain input 0 w = None"
| "drain input (Suc n) w =
     (case input w of
        Inl e \<Rightarrow> Some (Inl e)
      | Inr (again, w) \<Rightarrow> if again then drain input n w else Some (Inr w))"

section \<open>The interface structure\<close>

text \<open>The fields of \<open>struct netif\<close> the drivers use, and the functions they store in it.\<close>

datatype out_fn = Etharp_output | Ethip6_output | Tap_lowLevelOutput | Cs_lowLevelOutput

record netif =
  gw :: u32
  netmask :: u32
  hwaddr_len :: nat
  hwaddr :: "u8 list"
  mtu :: u16
  nif_flags :: u8
  nif_name :: string
  hostname :: "string option"
  nif_output :: "out_fn option"
  output_ip6 :: "out_fn option"
  linkoutput :: "out_fn option"
  nif_state :: "nat option"

text \<open>What initialisation depends on: the result of \<open>mem_malloc\<close>, constants of lwIP.\<close>

record init_env =
  env_debug_assert :: bool
  mem_malloc :: "nat option"
  env_IPV6 :: bool
  NETIF_HOSTNAME :: bool
  ETHARP_HWADDR_LEN :: nat
  FLAG_BROADCAST :: u8
  FLAG_ETHARP :: u8
  FLAG_LINK_UP :: u8

section \<open>What lwIP does with a packet\<close>

text \<open>
  \<open>held w\<close> is the number of packets the driver has to dispose of. \<open>pbuf_free\<close> and a
  successful \<open>netif->input\<close> take one over, a failing one does not; neither touches the
  frames in the device nor the rest the invariant \<open>I\<close> talks about.
\<close>

definition stack_ok :: "'w ethx \<Rightarrow> ('w \<Rightarrow> nat) \<Rightarrow> ('w \<Rightarrow> u8 list list) \<Rightarrow> bool" where
  "stack_ok X held queue \<longleftrightarrow>
     (\<forall>p w. held (pbuf_free X p w) = held w - 1 \<and> queue (pbuf_free X p w) = queue w) \<and>
     (\<forall>p w. held (snd (netif_input X p w)) =
        (if fst (netif_input X p w) = ERR_OK then held w - 1 else held w) \<and>
        queue (snd (netif_input X p w)) = queue w) \<and>
     (\<forall>s w. held (LINK_STATS_INC X s w) = held w \<and> queue (LINK_STATS_INC X s w) = queue w)"

text \<open>
  The type field lies in the memory of the first segment, and in its payload when the packet
  is long enough to have one.
\<close>

definition type_readable :: "'w ethx \<Rightarrow> pbuf \<Rightarrow> bool" where
  "type_readable X p \<longleftrightarrow> chain p \<noteq> [] \<and>
     payload (hd (chain p)) + eth_type_off X + 1 < length (seg_mem (hd (chain p))) \<and>
     (eth_type_off X + 1 < tot_len p \<longrightarrow> eth_type_off X + 1 < seg_len (hd (chain p)))"

lemma ethhdr_type_readable:
  assumes "type_readable X p"
  shows "ethhdr_type X p = Inr (ucast (seg_mem (hd (chain p)) ! (payload (hd (chain p)) + eth_type_off X)) * 256 +
    ucast (seg_mem (hd (chain p)) ! (payload (hd (chain p)) + eth_type_off X + 1)))"
  using assms by (cases "chain p") (simp_all add: type_readable_def ethhdr_type_def rd_in)

text \<open>
  lwIP with other functions for the packets it is given. Nothing but the dispatch calls them,
  so a driver cannot tell the two apart when they agree on the packets it passes on.
\<close>

definition lwip_with :: "(pbuf \<Rightarrow> 'w \<Rightarrow> err_t \<times> 'w) \<Rightarrow> (pbuf \<Rightarrow> 'w \<Rightarrow> 'w) \<Rightarrow> 'w ethx \<Rightarrow> 'w ethx" where
  "lwip_with f g X = X\<lparr>netif_input := f, pbuf_free := g\<rparr>"

lemma lwip_with_pads [simp]:
  "drop_pad (lwip_with f g X) = drop_pad X" "reclaim_pad (lwip_with f g X) = reclaim_pad X"
  "ETH_PAD_SIZE (lwip_with f g X) = ETH_PAD_SIZE X" "pbuf_alloc (lwip_with f g X) = pbuf_alloc X"
  "LINK_STATS_INC (lwip_with f g X) = LINK_STATS_INC X"
  by (simp_all add: lwip_with_def drop_pad_def reclaim_pad_def fun_eq_iff)

lemma dispatch_with:
  "f p = netif_input X p \<Longrightarrow> g p = pbuf_free X p \<Longrightarrow> eth_dispatch (lwip_with f g X) p w = eth_dispatch X p w"
  by (simp add: lwip_with_def eth_dispatch_def ethhdr_type_def eth_accepted_def
      cong: if_cong list.case_cong)

lemma input_with:
  assumes "receive w = Inr (po, w')"
    and "case po of None \<Rightarrow> True | Some p \<Rightarrow> f p = netif_input X p \<and> g p = pbuf_free X p"
  shows "eth_input receive (eth_dispatch (lwip_with f g X)) w = eth_input receive (eth_dispatch X) w"
  using assms by (cases po) (simp_all add: eth_input_def dispatch_with)

text \<open>The bytes of a packet behind the padding word, and the type they carry.\<close>

definition pbuf_frame :: "'w ethx \<Rightarrow> pbuf \<Rightarrow> u8 list" where
  "pbuf_frame X p = drop (ETH_PAD_SIZE X) (chain_bytes (chain p))"

definition frame_type :: "'w ethx \<Rightarrow> u8 list \<Rightarrow> u16" where
  "frame_type X f =
     ucast (f ! (eth_type_off X - ETH_PAD_SIZE X)) * 256 + ucast (f ! (eth_type_off X - ETH_PAD_SIZE X + 1))"

lemma ethhdr_type_frame:
  assumes "type_readable X p" and "pbuf_ok p" and "eth_type_off X + 1 < tot_len p"
    and "ETH_PAD_SIZE X \<le> eth_type_off X"
  shows "ethhdr_type X p = Inr (frame_type X (pbuf_frame X p))"
proof -
  let ?o = "eth_type_off X" and ?k = "ETH_PAD_SIZE X"
  obtain q qs where c: "chain p = q # qs" using assms(1) by (auto simp: type_readable_def neq_Nil_conv)
  have l: "?o + 1 < seg_len q" and q: "seg_ok q" using assms(1-3) c by (simp_all add: type_readable_def pbuf_ok_def)
  have n: "chain_bytes (chain p) ! i = seg_mem q ! (payload q + i)" if "i < seg_len q" for i
    using that q by (simp add: c nth_append seg_bytes_def seg_ok_def)
  have "length (chain_bytes (chain p)) = tot_len p" using assms(2) length_chain_bytes by (simp add: pbuf_ok_def)
  then have "pbuf_frame X p ! (?o - ?k) = chain_bytes (chain p) ! ?o"
    "pbuf_frame X p ! (?o - ?k + 1) = chain_bytes (chain p) ! (?o + 1)"
    using assms(3,4) by (simp_all add: pbuf_frame_def add.assoc [symmetric])
  with n [of ?o] n [of "?o + 1"] l show ?thesis
    unfolding ethhdr_type_readable [OF assms(1)] by (simp add: frame_type_def c)
qed

lemma eth_dispatch_disposes:
  assumes "stack_ok X held queue" and "type_readable X p"
  shows "\<exists>w'. eth_dispatch X p w = Inr w' \<and> held w' = held w - 1 \<and> queue w' = queue w"
proof -
  from assms(1) have free: "held (pbuf_free X p w) = held w - 1" "queue (pbuf_free X p w) = queue w" for w
    unfolding stack_ok_def by blast+
  from assms(1) have inp: "held (snd (netif_input X p w)) =
        (if fst (netif_input X p w) = ERR_OK then held w - 1 else held w)"
    "queue (snd (netif_input X p w)) = queue w"
    unfolding stack_ok_def by blast+
  obtain t where t: "ethhdr_type X p = Inr t" using ethhdr_type_readable [OF assms(2)] by blast
  show ?thesis
    using free inp by (simp add: eth_dispatch_def t split_beta Let_def)
qed

section \<open>The contract of a driver\<close>

text \<open>
  Receiving yields a packet the driver then holds and takes a frame from the device, or
  yields nothing; disposing of a packet drops it from what the driver holds.
\<close>

locale eth_driver =
  fixes receive :: "'w \<Rightarrow> (pbuf option \<times> 'w) res"
    and dispose :: "pbuf \<Rightarrow> 'w \<Rightarrow> 'w res"
    and held :: "'w \<Rightarrow> nat"
    and pending :: "'w \<Rightarrow> nat"
    and good :: "pbuf \<Rightarrow> bool"
    and invar :: "'w \<Rightarrow> bool"
  assumes receive_law: "invar w \<Longrightarrow> \<exists>p w'. receive w = Inr (p, w') \<and> invar w' \<and>
      (case p of None \<Rightarrow> held w' = held w \<and> pending w' \<le> pending w
       | Some p \<Rightarrow> good p \<and> held w' = Suc (held w) \<and> pending w' < pending w)"
    and dispose_law: "invar w \<Longrightarrow> good p \<Longrightarrow> \<exists>w'. dispose p w = Inr w' \<and> invar w' \<and>
      held w' = held w - 1 \<and> pending w' = pending w"
begin

lemma input_keeps:
  assumes "invar w"
  shows "\<exists>again w'. eth_input receive dispose w = Inr (again, w') \<and> invar w' \<and> held w' = held w \<and>
    (if again then pending w' < pending w else pending w' \<le> pending w)"
proof -
  from receive_law [OF assms] obtain p w1 where r: "receive w = Inr (p, w1)" "invar w1"
    and l: "case p of None \<Rightarrow> held w1 = held w \<and> pending w1 \<le> pending w
       | Some p \<Rightarrow> good p \<and> held w1 = Suc (held w) \<and> pending w1 < pending w" by blast
  show ?thesis
  proof (cases p)
    case None
    with r l show ?thesis by (auto simp: eth_input_def)
  next
    case (Some p')
    with l have "good p'" by simp
    from dispose_law [OF r(2) this] obtain w2 where "dispose p' w1 = Inr w2" "invar w2"
      "held w2 = held w1 - 1" "pending w2 = pending w1" by blast
    with r l Some show ?thesis by (auto simp: eth_input_def)
  qed
qed

theorem drain_ends:
  "invar w \<Longrightarrow> pending w < n \<Longrightarrow>
   \<exists>w'. drain (eth_input receive dispose) n w = Some (Inr w') \<and> invar w' \<and> held w' = held w \<and> pending w' \<le> pending w"
proof (induction n arbitrary: w)
  case 0
  then show ?case by simp
next
  case (Suc n)
  from input_keeps [OF Suc.prems(1)] obtain again w1 where i: "eth_input receive dispose w = Inr (again, w1)" "invar w1"
    "held w1 = held w" "if again then pending w1 < pending w else pending w1 \<le> pending w" by blast
  show ?case
  proof (cases again)
    case True
    with i Suc.prems have "pending w1 < n" by simp
    from Suc.IH [OF i(2) this] i True show ?thesis by auto
  next
    case False
    with i show ?thesis by simp
  qed
qed

end

end
