(* ===== verification/Cs8900a_Bus.thy ===== *)
theory Cs8900a_Bus
  imports Netif_Driver
begin

text \<open>
  The bus layer of \<open>netif/cs8900a_lpc_e2129.c\<close>: the chip's 8-bit ISA bus, driven bit by bit
  through the general-purpose port of the processor. A write of \<open>IOSET\<close> sets, a write of
  \<open>IOCLR\<close> clears bits of the output latch, \<open>IODIR\<close> selects the outputs. \<open>emit\<close> reads the
  bus cycles off the changing pins, by the protocol of the ISA bus; what the chip answers in
  a read cycle is a parameter. The lemmas show which cycles each access function makes.
\<close>

section \<open>The port\<close>

text \<open>
  A write cycle with address and data, a read cycle with its address, and a violation of the
  protocol.
\<close>

datatype cyc = BusWrite u32 u32 | BusRead u32 | BusFault

record 'w lpc =
  IODIR :: u32
  latch :: u32
  bus :: "cyc list"
  rest :: 'w

definition IOR :: u32 where "IOR = push_bit 12 1"
definition IOW :: u32 where "IOW = push_bit 13 1"

text \<open>The literals of the source: \<open>0xf << 4\<close>, \<open>1 << 4\<close> and \<open>0xff << 16\<close>.\<close>

definition SA_ALL :: u32 where "SA_ALL = push_bit 4 0xf"
definition SA_0 :: u32 where "SA_0 = push_bit 4 1"
definition SD_ALL :: u32 where "SD_ALL = push_bit 16 0xff"

definition addr_of :: "u32 \<Rightarrow> u32" where "addr_of l = take_bit 4 (drop_bit 4 l)"
definition data_of :: "u32 \<Rightarrow> u32" where "data_of l = take_bit 8 (drop_bit 16 l)"

definition strobes_high :: "u32 \<Rightarrow> bool" where
  "strobes_high l \<longleftrightarrow> bit l 12 \<and> bit l 13"

definition ctrl_out :: "u32 \<Rightarrow> bool" where
  "ctrl_out d \<longleftrightarrow> addr_of d = 0xf \<and> bit d 12 \<and> bit d 13"

text \<open>
  The cycles of one change of direction and latch. While the control lines are not outputs,
  the chip sees none, and driving them must not begin with a strobe low. While a strobe is low, address, data and
  direction must be stable. The chip takes the data of a write cycle at the rising edge of
  \<open>IOW\<close>, where the data port must be driven; a read cycle begins at the falling edge of
  \<open>IOR\<close>, where it must not be.
\<close>

definition emit :: "u32 \<Rightarrow> u32 \<Rightarrow> u32 \<Rightarrow> u32 \<Rightarrow> cyc list" where
  "emit d l d' l' =
     (if \<not> ctrl_out d then (if ctrl_out d' \<and> \<not> strobes_high l' then [BusFault] else [])
      else if \<not> strobes_high l then
        (if d' \<noteq> d \<or> addr_of l' \<noteq> addr_of l \<or> data_of l' \<noteq> data_of l then [BusFault]
         else if \<not> bit l 13 \<and> bit l' 13 then
           [if bit l 12 \<and> data_of d = 0xff then BusWrite (addr_of l) (data_of l) else BusFault]
         else [])
      else if \<not> bit l' 12 then
        [if bit l' 13 \<and> ctrl_out d' \<and> data_of d' = 0 then BusRead (addr_of l') else BusFault]
      else [])"

definition drive :: "u32 \<Rightarrow> u32 \<Rightarrow> 'w lpc \<Rightarrow> 'w lpc" where
  "drive d l st = st\<lparr>IODIR := d, latch := l, bus := bus st @ emit (IODIR st) (latch st) d l\<rparr>"

definition wr_IODIR :: "u32 \<Rightarrow> 'w lpc \<Rightarrow> 'w lpc" where
  "wr_IODIR v st = drive v (latch st) st"

definition wr_IOSET :: "u32 \<Rightarrow> 'w lpc \<Rightarrow> 'w lpc" where
  "wr_IOSET v st = drive (IODIR st) (latch st OR v) st"

definition wr_IOCLR :: "u32 \<Rightarrow> 'w lpc \<Rightarrow> 'w lpc" where
  "wr_IOCLR v st = drive (IODIR st) (latch st AND NOT v) st"

section \<open>The access functions\<close>

text \<open>
  In the order of the source; \<open>IO_DELAY\<close> changes no pin. \<open>pin\<close> is the value of \<open>IOPIN\<close> in
  a state.
\<close>

definition cs8900aWrite :: "u32 \<Rightarrow> u32 \<Rightarrow> 'w lpc \<Rightarrow> 'w lpc" where
  "cs8900aWrite addr data st =
     (let st = wr_IODIR (IODIR st OR SD_ALL) st;
          st = wr_IOCLR SA_ALL st;
          st = wr_IOSET (push_bit 4 addr) st;
          st = wr_IOCLR SD_ALL st;
          st = wr_IOSET (push_bit 16 (data AND 0xff)) st;
          st = wr_IOCLR IOW st;
          st = wr_IOSET IOW st;
          st = wr_IOSET SA_0 st;
          st = wr_IOCLR SD_ALL st;
          st = wr_IOSET (push_bit 16 (drop_bit 8 data)) st;
          st = wr_IOCLR IOW st
      in wr_IOSET IOW st)"

definition cs8900aRead :: "('w lpc \<Rightarrow> u32) \<Rightarrow> u32 \<Rightarrow> 'w lpc \<Rightarrow> u32 \<times> 'w lpc" where
  "cs8900aRead pin addr st =
     (let st = wr_IODIR (IODIR st AND NOT SD_ALL) st;
          st = wr_IOCLR SA_ALL st;
          st = wr_IOSET (push_bit 4 addr) st;
          st = wr_IOCLR IOR st;
          value = drop_bit 16 (pin st) AND 0xff;
          st = wr_IOSET IOR st;
          st = wr_IOSET SA_0 st;
          st = wr_IOCLR IOR st;
          value = value OR (drop_bit 8 (pin st) AND 0xff00)
      in (value, wr_IOSET IOR st))"

definition cs8900aReadAddrHighFirst :: "('w lpc \<Rightarrow> u32) \<Rightarrow> u32 \<Rightarrow> 'w lpc \<Rightarrow> u32 \<times> 'w lpc" where
  "cs8900aReadAddrHighFirst pin addr st =
     (let st = wr_IODIR (IODIR st AND NOT SD_ALL) st;
          st = wr_IOCLR SA_ALL st;
          st = wr_IOSET (push_bit 4 (addr + 1)) st;
          st = wr_IOCLR IOR st;
          value = drop_bit 8 (pin st) AND 0xff00;
          st = wr_IOSET IOR st;
          st = wr_IOCLR SA_0 st;
          st = wr_IOCLR IOR st;
          value = value OR (drop_bit 16 (pin st) AND 0xff)
      in (value, wr_IOSET IOR st))"

text \<open>The two bytes it sends are read from memory by the caller's loop.\<close>

definition cs8900aWriteTxBuf :: "u8 \<Rightarrow> u8 \<Rightarrow> 'w lpc \<Rightarrow> 'w lpc" where
  "cs8900aWriteTxBuf b0 b1 st =
     (let st = wr_IOCLR SA_0 st;
          st = wr_IOCLR SD_ALL st;
          st = wr_IOSET (push_bit 16 (ucast b0)) st;
          st = wr_IOCLR IOW st;
          st = wr_IOSET IOW st;
          st = wr_IOSET SA_0 st;
          st = wr_IOCLR SD_ALL st;
          st = wr_IOSET (push_bit 16 (ucast b1)) st;
          st = wr_IOCLR IOW st
      in wr_IOSET IOW st)"

definition cs8900aReadRxBuf :: "('w lpc \<Rightarrow> u32) \<Rightarrow> 'w lpc \<Rightarrow> u8 \<times> u8 \<times> 'w lpc" where
  "cs8900aReadRxBuf pin st =
     (let st = wr_IOCLR SA_0 st;
          st = wr_IOCLR IOR st;
          b0 = ucast (drop_bit 16 (pin st));
          st = wr_IOSET IOR st;
          st = wr_IOSET SA_0 st;
          st = wr_IOCLR IOR st;
          b1 = ucast (drop_bit 16 (pin st))
      in (b0, b1, wr_IOSET IOR st))"

section \<open>Pins as fields\<close>

text \<open>
  Everything \<open>emit\<close> looks at is one of the fields of direction and latch. The lemmas give the
  fields after each of the operations of the access functions.
\<close>

lemma bit_masks:
  "bit IOR n \<longleftrightarrow> n = 12" "bit IOW n \<longleftrightarrow> n = 13" "bit SA_0 n \<longleftrightarrow> n = 4"
  "bit SA_ALL n \<longleftrightarrow> 4 \<le> n \<and> n < 8" "bit SD_ALL n \<longleftrightarrow> 16 \<le> n \<and> n < 24"
proof -
  have m: "(0xf :: u32) = mask 4" "(0xff :: u32) = mask 8" by (simp_all add: mask_eq_exp_minus_1)
  show "bit IOR n \<longleftrightarrow> n = 12" "bit IOW n \<longleftrightarrow> n = 13" "bit SA_0 n \<longleftrightarrow> n = 4"
    by (simp_all only: IOR_def IOW_def SA_0_def bit_push_bit_iff bit_1_iff, auto)
  show "bit SA_ALL n \<longleftrightarrow> 4 \<le> n \<and> n < 8" "bit SD_ALL n \<longleftrightarrow> 16 \<le> n \<and> n < 24"
    by (simp_all only: SA_ALL_def SD_ALL_def m bit_push_bit_iff bit_mask_iff, auto)
qed

lemma bit_fields:
  "bit (addr_of l) n \<longleftrightarrow> n < 4 \<and> bit l (4 + n)" "bit (data_of l) n \<longleftrightarrow> n < 8 \<and> bit l (16 + n)"
  by (auto simp: addr_of_def data_of_def bit_simps ac_simps)

lemmas pin_bits = bit_fields bit_masks bit_and_iff bit_or_iff bit_not_iff bit_push_bit_iff bit_take_bit_iff

lemma small_bit: "take_bit k a = (a::u32) \<Longrightarrow> bit a n \<Longrightarrow> n < k"
  by (metis bit_take_bit_iff)

lemma clr_addr:
  "addr_of (l AND NOT SA_ALL) = 0" "data_of (l AND NOT SA_ALL) = data_of l"
  "bit (l AND NOT SA_ALL) 12 = bit l 12" "bit (l AND NOT SA_ALL) 13 = bit l 13"
  by (auto intro!: bit_word_eqI simp: pin_bits)

lemma set_addr:
  assumes "take_bit 4 a = a"
  shows "addr_of (l OR push_bit 4 a) = addr_of l OR a" "data_of (l OR push_bit 4 a) = data_of l"
    "bit (l OR push_bit 4 a) 12 = bit l 12" "bit (l OR push_bit 4 a) 13 = bit l 13"
proof -
  have b: "bit a n \<Longrightarrow> n < 4" for n using small_bit [OF assms] .
  have "bit (addr_of (l OR push_bit 4 a)) n = bit (addr_of l OR a) n"
    and "bit (data_of (l OR push_bit 4 a)) n = bit (data_of l) n" for n
    using b [of n] b [of "12 + n"] by (auto simp: pin_bits)
  then show "addr_of (l OR push_bit 4 a) = addr_of l OR a" "data_of (l OR push_bit 4 a) = data_of l"
    by (simp_all add: bit_eq_iff)
  show "bit (l OR push_bit 4 a) 12 = bit l 12" "bit (l OR push_bit 4 a) 13 = bit l 13"
    using b [of 8] b [of 9] by (auto simp: pin_bits)
qed

lemma addr_0:
  "addr_of (l AND NOT SA_0) = addr_of l AND NOT 1" "data_of (l AND NOT SA_0) = data_of l"
  "bit (l AND NOT SA_0) 12 = bit l 12" "bit (l AND NOT SA_0) 13 = bit l 13"
  "addr_of (l OR SA_0) = addr_of l OR 1" "data_of (l OR SA_0) = data_of l"
  "bit (l OR SA_0) 12 = bit l 12" "bit (l OR SA_0) 13 = bit l 13"
  by (auto intro!: bit_word_eqI simp: pin_bits bit_1_iff)

lemma clr_data:
  "data_of (l AND NOT SD_ALL) = 0" "addr_of (l AND NOT SD_ALL) = addr_of l"
  "bit (l AND NOT SD_ALL) 12 = bit l 12" "bit (l AND NOT SD_ALL) 13 = bit l 13"
  by (auto intro!: bit_word_eqI simp: pin_bits)

lemma set_data:
  "data_of (l OR push_bit 16 b) = data_of l OR take_bit 8 b" "addr_of (l OR push_bit 16 b) = addr_of l"
  "bit (l OR push_bit 16 b) 12 = bit l 12" "bit (l OR push_bit 16 b) 13 = bit l 13"
  by (auto intro!: bit_word_eqI simp: pin_bits)

lemma strobe_IOW:
  "addr_of (l AND NOT IOW) = addr_of l" "data_of (l AND NOT IOW) = data_of l"
  "bit (l AND NOT IOW) 12 = bit l 12" "\<not> bit (l AND NOT IOW) 13"
  "addr_of (l OR IOW) = addr_of l" "data_of (l OR IOW) = data_of l"
  "bit (l OR IOW) 12 = bit l 12" "bit (l OR IOW) 13"
  by (auto intro!: bit_word_eqI simp: pin_bits)

lemma strobe_IOR:
  "addr_of (l AND NOT IOR) = addr_of l" "data_of (l AND NOT IOR) = data_of l"
  "bit (l AND NOT IOR) 13 = bit l 13" "\<not> bit (l AND NOT IOR) 12"
  "addr_of (l OR IOR) = addr_of l" "data_of (l OR IOR) = data_of l"
  "bit (l OR IOR) 13 = bit l 13" "bit (l OR IOR) 12"
  by (auto intro!: bit_word_eqI simp: pin_bits)

lemma mask_ff: "(0xff :: u32) = mask 8"
  by (simp add: mask_eq_exp_minus_1)

lemma dir_out: "data_of (d OR SD_ALL) = 0xff" "addr_of (d OR SD_ALL) = addr_of d"
  "bit (d OR SD_ALL) 12 = bit d 12" "bit (d OR SD_ALL) 13 = bit d 13"
  unfolding mask_ff by (auto intro!: bit_word_eqI simp: pin_bits bit_mask_iff)

lemma ctrl_out_dir: "ctrl_out (d OR SD_ALL) = ctrl_out d" "ctrl_out (d AND NOT SD_ALL) = ctrl_out d"
  by (simp_all add: ctrl_out_def dir_out clr_data)

lemmas pin_fields =
  clr_addr set_addr addr_0 clr_data set_data strobe_IOW strobe_IOR dir_out ctrl_out_dir

section \<open>Cycles of the access functions\<close>

lemma wr_simps [simp]:
  "IODIR (wr_IODIR v st) = v" "IODIR (wr_IOSET v st) = IODIR st" "IODIR (wr_IOCLR v st) = IODIR st"
  "latch (wr_IODIR v st) = latch st" "latch (wr_IOSET v st) = latch st OR v"
  "latch (wr_IOCLR v st) = latch st AND NOT v"
  "rest (wr_IODIR v st) = rest st" "rest (wr_IOSET v st) = rest st" "rest (wr_IOCLR v st) = rest st"
  "bus (wr_IODIR v st) = bus st @ emit (IODIR st) (latch st) v (latch st)"
  "bus (wr_IOSET v st) = bus st @ emit (IODIR st) (latch st) (IODIR st) (latch st OR v)"
  "bus (wr_IOCLR v st) = bus st @ emit (IODIR st) (latch st) (IODIR st) (latch st AND NOT v)"
  by (simp_all add: wr_IODIR_def wr_IOSET_def wr_IOCLR_def drive_def)

text \<open>Between accesses both strobes are high and the control lines are outputs.\<close>

definition idle :: "'w lpc \<Rightarrow> bool" where
  "idle st \<longleftrightarrow> strobes_high (latch st) \<and> ctrl_out (IODIR st)"

text \<open>The two cycles of a 16-bit access, low byte first.\<close>

definition wr16 :: "u32 \<Rightarrow> u32 \<Rightarrow> cyc list" where
  "wr16 addr v = [BusWrite addr (take_bit 8 v), BusWrite (addr OR 1) (take_bit 8 (drop_bit 8 v))]"

definition rd16 :: "u32 \<Rightarrow> cyc list" where
  "rd16 addr = [BusRead addr, BusRead (addr OR 1)]"

text \<open>What the chip answers after the cycles so far, the current one included.\<close>

definition chip_word :: "(cyc list \<Rightarrow> u8) \<Rightarrow> cyc list \<Rightarrow> u32 \<Rightarrow> u32" where
  "chip_word chip B addr =
     ucast (chip (B @ [BusRead addr])) OR
     push_bit 8 (ucast (chip (B @ [BusRead addr, BusRead (addr OR 1)])))"

text \<open>
  During a read cycle, with the data port as input, the data pins are what the chip answers.
\<close>

definition pin_ok :: "('w lpc \<Rightarrow> u32) \<Rightarrow> (cyc list \<Rightarrow> u8) \<Rightarrow> bool" where
  "pin_ok pin chip \<longleftrightarrow>
     (\<forall>st. \<not> bit (latch st) 12 \<and> bit (latch st) 13 \<and> data_of (IODIR st) = 0 \<longrightarrow>
        data_of (pin st) = ucast (chip (bus st)))"

lemma and_ff: "(v::u32) AND 0xff = take_bit 8 v"
  by (simp add: take_bit_eq_mask mask_ff)

lemma cs8900aWrite_cycles:
  assumes "idle st" and "take_bit 4 addr = addr"
  shows "bus (cs8900aWrite addr data st) = bus st @ wr16 addr data"
    "idle (cs8900aWrite addr data st)" "rest (cs8900aWrite addr data st) = rest st"
    "data_of (IODIR (cs8900aWrite addr data st)) = 0xff"
  using assms
  by (simp_all add: cs8900aWrite_def Let_def idle_def emit_def strobes_high_def pin_fields wr16_def and_ff)

text \<open>A port address: four bits, even.\<close>

definition port :: "u32 \<Rightarrow> bool" where
  "port addr \<longleftrightarrow> take_bit 4 addr = addr \<and> \<not> bit addr 0"

lemma port_facts:
  assumes "port addr"
  shows "take_bit 4 addr = addr" "addr + 1 = addr OR 1" "take_bit 4 (addr OR 1) = addr OR 1"
    "(addr OR 1) AND NOT 1 = addr" "addr AND NOT 1 = addr"
proof -
  have a: "take_bit 4 addr = addr" "\<not> bit addr 0" using assms by (simp_all add: port_def)
  show "take_bit 4 addr = addr" by (rule a)
  have "addr AND 1 = 0" using a(2) by (auto intro!: bit_word_eqI simp: bit_and_iff bit_1_iff)
  then show "addr + 1 = addr OR 1" by (rule disjunctive_add_eq_or)
  have "bit (take_bit 4 (addr OR 1)) n = bit (addr OR 1) n" for n
    using small_bit [OF a(1), of n] by (auto simp: bit_take_bit_iff bit_or_iff bit_1_iff)
  then show "take_bit 4 (addr OR 1) = addr OR 1" by (simp add: bit_eq_iff)
  have "bit ((addr OR 1) AND NOT 1) n = bit addr n" "bit (addr AND NOT 1) n = bit addr n" for n
    using a(2) bit_imp_le_length [of addr n]
    by (cases n; auto simp: bit_and_iff bit_or_iff bit_not_iff bit_1_iff)+
  then show "(addr OR 1) AND NOT 1 = addr" "addr AND NOT 1 = addr" by (simp_all add: bit_eq_iff)
qed

text \<open>The bytes the access functions take from the pins.\<close>

lemma pin_bytes:
  "drop_bit 16 v AND 0xff = data_of v" "drop_bit 8 v AND 0xff00 = push_bit 8 (data_of v)"
  "(ucast (drop_bit 16 v) :: u8) = ucast (data_of v)"
proof -
  show "drop_bit 16 v AND 0xff = data_of v" by (simp add: and_ff data_of_def)
  have m: "(0xff00 :: u32) = push_bit 8 (mask 8)" by (simp add: mask_eq_exp_minus_1)
  have "bit (drop_bit 8 v AND push_bit 8 (mask 8)) n = bit (push_bit 8 (data_of v)) n" for n
    by (auto simp: bit_fields bit_simps)
  then show "drop_bit 8 v AND 0xff00 = push_bit 8 (data_of v)"
    unfolding m by (simp add: bit_eq_iff)
  show "(ucast (drop_bit 16 v) :: u8) = ucast (data_of v)"
    by (auto intro!: bit_word_eqI simp: bit_fields bit_simps ac_simps)
qed

lemma ucast_u8: "(ucast (ucast (b :: u8) :: u32) :: u8) = b" "take_bit 8 (ucast b :: u32) = ucast b"
proof -
  show "(ucast (ucast b :: u32) :: u8) = b" by (auto intro!: bit_word_eqI simp: bit_simps)
  have "bit b n \<Longrightarrow> n < 8" for n using bit_imp_le_length [of b n] by simp
  then have "bit (take_bit 8 (ucast b :: u32)) n = bit (ucast b :: u32) n" for n
    by (auto simp: bit_simps)
  then show "take_bit 8 (ucast b :: u32) = ucast b" by (simp add: bit_eq_iff)
qed

lemma pin_read:
  "pin_ok pin chip \<Longrightarrow> \<not> bit (latch st) 12 \<Longrightarrow> bit (latch st) 13 \<Longrightarrow> data_of (IODIR st) = 0 \<Longrightarrow>
   data_of (pin st) = ucast (chip (bus st))"
  by (simp add: pin_ok_def)

lemma cs8900aRead_cycles:
  assumes "idle st" and "port addr" and "pin_ok pin chip"
  shows "fst (cs8900aRead pin addr st) = chip_word chip (bus st) addr"
    "bus (snd (cs8900aRead pin addr st)) = bus st @ rd16 addr"
    "idle (snd (cs8900aRead pin addr st))" "rest (snd (cs8900aRead pin addr st)) = rest st"
    "data_of (IODIR (snd (cs8900aRead pin addr st))) = 0"
  using assms(1)
  by (simp_all add: cs8900aRead_def Let_def idle_def emit_def strobes_high_def pin_fields rd16_def
      pin_bytes chip_word_def pin_read [OF assms(3)] port_facts [OF assms(2)])

text \<open>High byte first: the answers of the chip come in the other order.\<close>

definition rd16_hi :: "u32 \<Rightarrow> cyc list" where
  "rd16_hi addr = [BusRead (addr OR 1), BusRead addr]"

definition chip_word_hi :: "(cyc list \<Rightarrow> u8) \<Rightarrow> cyc list \<Rightarrow> u32 \<Rightarrow> u32" where
  "chip_word_hi chip B addr =
     push_bit 8 (ucast (chip (B @ [BusRead (addr OR 1)]))) OR
     ucast (chip (B @ [BusRead (addr OR 1), BusRead addr]))"

lemma cs8900aReadAddrHighFirst_cycles:
  assumes "idle st" and "port addr" and "pin_ok pin chip"
  shows "fst (cs8900aReadAddrHighFirst pin addr st) = chip_word_hi chip (bus st) addr"
    "bus (snd (cs8900aReadAddrHighFirst pin addr st)) = bus st @ rd16_hi addr"
    "idle (snd (cs8900aReadAddrHighFirst pin addr st))"
    "rest (snd (cs8900aReadAddrHighFirst pin addr st)) = rest st"
proof -
  obtain a1 where a1: "addr OR 1 = a1" "addr + 1 = a1" "take_bit 4 a1 = a1" "a1 AND NOT 1 = addr"
    using port_facts [OF assms(2)] by simp
  show "fst (cs8900aReadAddrHighFirst pin addr st) = chip_word_hi chip (bus st) addr"
    "bus (snd (cs8900aReadAddrHighFirst pin addr st)) = bus st @ rd16_hi addr"
    "idle (snd (cs8900aReadAddrHighFirst pin addr st))"
    "rest (snd (cs8900aReadAddrHighFirst pin addr st)) = rest st"
    using assms(1) a1
    by (simp_all add: cs8900aReadAddrHighFirst_def Let_def idle_def emit_def strobes_high_def pin_fields
        rd16_hi_def pin_bytes chip_word_hi_def pin_read [OF assms(3)])
qed

text \<open>
  The two functions for frame data do not set up the port: the caller has put the address
  on the bus and chosen the direction.
\<close>

lemma cs8900aWriteTxBuf_cycles:
  assumes "idle st" and "data_of (IODIR st) = 0xff"
  shows "bus (cs8900aWriteTxBuf b0 b1 st) = bus st @
      [BusWrite (addr_of (latch st) AND NOT 1) (ucast b0), BusWrite ((addr_of (latch st) AND NOT 1) OR 1) (ucast b1)]"
    "idle (cs8900aWriteTxBuf b0 b1 st)" "rest (cs8900aWriteTxBuf b0 b1 st) = rest st"
    "data_of (IODIR (cs8900aWriteTxBuf b0 b1 st)) = 0xff"
    "addr_of (latch (cs8900aWriteTxBuf b0 b1 st)) = (addr_of (latch st) AND NOT 1) OR 1"
proof -
  show "bus (cs8900aWriteTxBuf b0 b1 st) = bus st @
      [BusWrite (addr_of (latch st) AND NOT 1) (ucast b0), BusWrite ((addr_of (latch st) AND NOT 1) OR 1) (ucast b1)]"
    "idle (cs8900aWriteTxBuf b0 b1 st)" "rest (cs8900aWriteTxBuf b0 b1 st) = rest st"
    "data_of (IODIR (cs8900aWriteTxBuf b0 b1 st)) = 0xff"
    "addr_of (latch (cs8900aWriteTxBuf b0 b1 st)) = (addr_of (latch st) AND NOT 1) OR 1"
    using assms
    by (simp_all add: cs8900aWriteTxBuf_def Let_def idle_def emit_def strobes_high_def pin_fields ucast_u8)
qed

lemma cs8900aReadRxBuf_cycles:
  assumes "idle st" and "data_of (IODIR st) = 0" and "pin_ok pin chip"
    and "cs8900aReadRxBuf pin st = (b0, b1, st')"
  shows "bus st' = bus st @
      [BusRead (addr_of (latch st) AND NOT 1), BusRead ((addr_of (latch st) AND NOT 1) OR 1)]"
    "b0 = chip (bus st @ [BusRead (addr_of (latch st) AND NOT 1)])" "b1 = chip (bus st')"
    "idle st'" "rest st' = rest st" "data_of (IODIR st') = 0"
    "addr_of (latch st') = (addr_of (latch st) AND NOT 1) OR 1"
  using assms
  by (auto simp: cs8900aReadRxBuf_def Let_def idle_def emit_def strobes_high_def pin_fields pin_bytes
      pin_read [OF assms(3)] ucast_u8)

end
