(* ===== verification/Cs8900a_Regs.thy ===== *)
theory Cs8900a_Regs
  imports Prelude
begin

text \<open>
  The register header of the CS8900A, \<open>include/netif/cs8900a_regs.h\<close>, as tables of its symbols:
  the addresses of the packet page, the flags of each register, the ports. The flags of a
  register are different single bits above its number (\<open>flag_tables_ok\<close>).
\<close>

type_synonym symbols = "(string \<times> u32) list"

section \<open>The packet page\<close>

definition PP_registers :: symbols where
  "PP_registers =
     [(''PP_ChipID'', 0x0000), (''PP_ISAIOB'', 0x0020), (''PP_CS8900_ISAINT'', 0x0022),
      (''PP_CS8900_ISADMA'', 0x0024), (''PP_ISASOF'', 0x0026), (''PP_DmaFrameCnt'', 0x0028),
      (''PP_DmaByteCnt'', 0x002A), (''PP_CS8900_ISAMemB'', 0x002C),
      (''PP_ISABootBase'', 0x0030), (''PP_ISABootMask'', 0x0034), (''PP_EECMD'', 0x0040),
      (''PP_EEData'', 0x0042), (''PP_RxCFG'', 0x0102), (''PP_RxCTL'', 0x0104),
      (''PP_TxCFG'', 0x0106), (''PP_TxCMD'', 0x0108), (''PP_BufCFG'', 0x010A),
      (''PP_LineCTL'', 0x0112), (''PP_SelfCTL'', 0x0114), (''PP_BusCTL'', 0x0116),
      (''PP_TestCTL'', 0x0118), (''PP_ISQ'', 0x0120), (''PP_RxEvent'', 0x0124),
      (''PP_TxEvent'', 0x0128), (''PP_BufEvent'', 0x012C), (''PP_RxMiss'', 0x0130),
      (''PP_TxCol'', 0x0132), (''PP_LineST'', 0x0134), (''PP_SelfST'', 0x0136),
      (''PP_BusST'', 0x0138), (''PP_TDR'', 0x013C), (''PP_TxCommand'', 0x0144),
      (''PP_TxLength'', 0x0146), (''PP_LAF'', 0x0150), (''PP_IA'', 0x0158),
      (''PP_RxStatus'', 0x0400), (''PP_RxLength'', 0x0402), (''PP_RxFrame'', 0x0404),
      (''PP_TxFrame'', 0x0A00)]"

section \<open>Flags of the registers\<close>

definition RxCFG_bits :: symbols where
  "RxCFG_bits =
     [(''SKIP_1'', 0x0040), (''RX_STREAM_ENBL'', 0x0080), (''RX_OK_ENBL'', 0x0100),
      (''RX_DMA_ONLY'', 0x0200), (''AUTO_RX_DMA'', 0x0400), (''BUFFER_CRC'', 0x0800),
      (''RX_CRC_ERROR_ENBL'', 0x1000), (''RX_RUNT_ENBL'', 0x2000),
      (''RX_EXTRA_DATA_ENBL'', 0x4000)]"

definition RxCTL_bits :: symbols where
  "RxCTL_bits =
     [(''RX_IA_HASH_ACCEPT'', 0x0040), (''RX_PROM_ACCEPT'', 0x0080),
      (''RX_OK_ACCEPT'', 0x0100), (''RX_MULTCAST_ACCEPT'', 0x0200),
      (''RX_IA_ACCEPT'', 0x0400), (''RX_BROADCAST_ACCEPT'', 0x0800),
      (''RX_BAD_CRC_ACCEPT'', 0x1000), (''RX_RUNT_ACCEPT'', 0x2000),
      (''RX_EXTRA_DATA_ACCEPT'', 0x4000)]"

definition TxCFG_bits :: symbols where
  "TxCFG_bits =
     [(''TX_LOST_CRS_ENBL'', 0x0040), (''TX_SQE_ERROR_ENBL'', 0x0080),
      (''TX_OK_ENBL'', 0x0100), (''TX_LATE_COL_ENBL'', 0x0200), (''TX_JBR_ENBL'', 0x0400),
      (''TX_ANY_COL_ENBL'', 0x0800), (''TX_16_COL_ENBL'', 0x8000)]"

text \<open>In the transmit command, a field of two bits tells when sending starts.\<close>

definition TxCMD_start :: symbols where
  "TxCMD_start =
     [(''TX_START_5_BYTES'', 0x0000), (''TX_START_381_BYTES'', 0x0040),
      (''TX_START_1021_BYTES'', 0x0080), (''TX_START_ALL_BYTES'', 0x00C0)]"

definition TxCMD_bits :: symbols where
  "TxCMD_bits =
     [(''TX_FORCE'', 0x0100), (''TX_ONE_COL'', 0x0200), (''TX_NO_CRC'', 0x1000),
      (''TX_RUNT'', 0x2000)]"

definition BufCFG_bits :: symbols where
  "BufCFG_bits =
     [(''GENERATE_SW_INTERRUPT'', 0x0040), (''RX_DMA_ENBL'', 0x0080),
      (''READY_FOR_TX_ENBL'', 0x0100), (''TX_UNDERRUN_ENBL'', 0x0200),
      (''RX_MISS_ENBL'', 0x0400), (''RX_128_BYTE_ENBL'', 0x0800),
      (''TX_COL_COUNT_OVRFLOW_ENBL'', 0x1000), (''RX_MISS_COUNT_OVRFLOW_ENBL'', 0x2000),
      (''RX_DEST_MATCH_ENBL'', 0x8000)]"

definition LineCTL_bits :: symbols where
  "LineCTL_bits =
     [(''SERIAL_RX_ON'', 0x0040), (''SERIAL_TX_ON'', 0x0080), (''AUI_ONLY'', 0x0100),
      (''AUTO_AUI_10BASET'', 0x0200), (''MODIFIED_BACKOFF'', 0x0800),
      (''NO_AUTO_POLARITY'', 0x1000), (''TWO_PART_DEFDIS'', 0x2000),
      (''LOW_RX_SQUELCH'', 0x4000)]"

definition SelfCTL_bits :: symbols where
  "SelfCTL_bits =
     [(''POWER_ON_RESET'', 0x0040), (''SW_STOP'', 0x0100), (''SLEEP_ON'', 0x0200),
      (''AUTO_WAKEUP'', 0x0400), (''HCB0_ENBL'', 0x1000), (''HCB1_ENBL'', 0x2000),
      (''HCB0'', 0x4000), (''HCB1'', 0x8000)]"

definition BusCTL_bits :: symbols where
  "BusCTL_bits =
     [(''RESET_RX_DMA'', 0x0040), (''MEMORY_ON'', 0x0400), (''DMA_BURST_MODE'', 0x0800),
      (''IO_CHANNEL_READY_ON'', 0x1000), (''RX_DMA_SIZE_64K'', 0x2000),
      (''ENABLE_IRQ'', 0x8000)]"

definition TestCTL_bits :: symbols where
  "TestCTL_bits =
     [(''LINK_OFF'', 0x0080), (''ENDEC_LOOPBACK'', 0x0200), (''AUI_LOOPBACK'', 0x0400),
      (''BACKOFF_OFF'', 0x0800), (''FDX_8900'', 0x4000)]"

text \<open>The masks \<open>HASH_INDEX_MASK\<close> and \<open>TX_COL_COUNT_MASK\<close> are fields of these two registers.\<close>

definition RxEvent_bits :: symbols where
  "RxEvent_bits =
     [(''RX_IA_HASHED'', 0x0040), (''RX_DRIBBLE'', 0x0080), (''RX_OK'', 0x0100),
      (''RX_HASHED'', 0x0200), (''RX_IA'', 0x0400), (''RX_BROADCAST'', 0x0800),
      (''RX_CRC_ERROR'', 0x1000), (''RX_RUNT'', 0x2000), (''RX_EXTRA_DATA'', 0x4000)]"

definition TxEvent_bits :: symbols where
  "TxEvent_bits =
     [(''TX_LOST_CRS'', 0x0040), (''TX_SQE_ERROR'', 0x0080), (''TX_OK'', 0x0100),
      (''TX_LATE_COL'', 0x0200), (''TX_JBR'', 0x0400), (''TX_16_COL'', 0x8000)]"

definition BufEvent_bits :: symbols where
  "BufEvent_bits =
     [(''SW_INTERRUPT'', 0x0040), (''RX_DMA'', 0x0080), (''READY_FOR_TX'', 0x0100),
      (''TX_UNDERRUN'', 0x0200), (''RX_MISS'', 0x0400), (''RX_128_BYTE'', 0x0800),
      (''TX_COL_OVRFLW'', 0x1000), (''RX_MISS_OVRFLW'', 0x2000), (''RX_DEST_MATCH'', 0x8000)]"

definition LineST_bits :: symbols where
  "LineST_bits =
     [(''LINK_OK'', 0x0080), (''AUI_ON'', 0x0100), (''TENBASET_ON'', 0x0200),
      (''POLARITY_OK'', 0x1000), (''CRS_OK'', 0x4000)]"

definition SelfST_bits :: symbols where
  "SelfST_bits =
     [(''ACTIVE_33V'', 0x0040), (''INIT_DONE'', 0x0080), (''SI_BUSY'', 0x0100),
      (''EEPROM_PRESENT'', 0x0200), (''EEPROM_OK'', 0x0400), (''EL_PRESENT'', 0x0800),
      (''EE_SIZE_64'', 0x1000)]"

definition BusST_bits :: symbols where
  "BusST_bits =
     [(''TX_BID_ERROR'', 0x0080), (''READY_FOR_TX_NOW'', 0x0100)]"

section \<open>Events, ports, the EEPROM and receive headers\<close>

definition ISQ_events :: symbols where
  "ISQ_events =
     [(''ISQ_RX_EVENT'', 0x0004), (''ISQ_TX_EVENT'', 0x0008), (''ISQ_BUFFER_EVENT'', 0x000C),
      (''ISQ_RX_MISS_EVENT'', 0x0010), (''ISQ_TX_COL_EVENT'', 0x0012)]"

definition IO_ports :: symbols where
  "IO_ports =
     [(''RX_FRAME_PORT'', 0x0000), (''TX_FRAME_PORT'', 0x0000), (''TX_CMD_PORT'', 0x0004),
      (''TX_LEN_PORT'', 0x0006), (''ISQ_PORT'', 0x0008), (''ADD_PORT'', 0x000A),
      (''DATA_PORT'', 0x000C)]"

definition EEPROM_commands :: symbols where
  "EEPROM_commands =
     [(''EEPROM_WRITE_EN'', 0x00F0), (''EEPROM_WRITE_DIS'', 0x0000),
      (''EEPROM_WRITE_CMD'', 0x0100), (''EEPROM_READ_CMD'', 0x0200)]"

definition RBUF_offsets :: symbols where
  "RBUF_offsets =
     [(''RBUF_EVENT_LOW'', 0x0000), (''RBUF_EVENT_HIGH'', 0x0001), (''RBUF_LEN_LOW'', 0x0002),
      (''RBUF_LEN_HI'', 0x0003), (''RBUF_HEAD_LEN'', 0x0004)]"

definition HASH_INDEX_MASK :: u32 where "HASH_INDEX_MASK = 0xFC00"
definition TX_COL_COUNT_MASK :: u32 where "TX_COL_COUNT_MASK = 0x7800"
definition ISQ_EVENT_MASK :: u32 where "ISQ_EVENT_MASK = 0x003F"
definition AUTOINCREMENT :: u32 where "AUTOINCREMENT = 0x8000"
definition DEFAULTIOBASE :: u32 where "DEFAULTIOBASE = 0x0300"

section \<open>Flags\<close>

definition flag_tables :: "symbols list" where
  "flag_tables =
     [RxCFG_bits, RxCTL_bits, TxCFG_bits, TxCMD_bits, BufCFG_bits, LineCTL_bits, SelfCTL_bits, BusCTL_bits,
      TestCTL_bits, RxEvent_bits, TxEvent_bits, BufEvent_bits, LineST_bits, SelfST_bits, BusST_bits]"

text \<open>
  A flag is one bit, above the six low bits, which hold the number of the register; names and
  values of one register are different.
\<close>

definition flag_values :: "u32 list" where
  "flag_values = map (\<lambda>n. push_bit n 1) [6..<16]"

definition flags_ok :: "symbols \<Rightarrow> bool" where
  "flags_ok t \<longleftrightarrow> distinct (map fst t) \<and> distinct (map snd t) \<and> list_all (\<lambda>x. snd x \<in> set flag_values) t"

lemma flag_values_eq: "flag_values = [0x40, 0x80, 0x100, 0x200, 0x400, 0x800, 0x1000, 0x2000, 0x4000, 0x8000]"
  by (simp add: flag_values_def upt_rec)

lemma flag_tables_ok: "t \<in> set flag_tables \<Longrightarrow> flags_ok t"
  unfolding flag_tables_def
  by (auto simp: flags_ok_def flag_values_eq RxCFG_bits_def RxCTL_bits_def TxCFG_bits_def
      TxCMD_bits_def BufCFG_bits_def LineCTL_bits_def SelfCTL_bits_def BusCTL_bits_def TestCTL_bits_def
      RxEvent_bits_def TxEvent_bits_def BufEvent_bits_def LineST_bits_def SelfST_bits_def BusST_bits_def)

end
