(* ===== verification/Cs8900a.thy ===== *)
theory Cs8900a
  imports Cs8900a_Bus Cs8900a_Regs
begin

text \<open>
  The driver of the CS8900A chip (\<open>netif/cs8900a_lpc_e2129.c\<close>) above the bus layer: the
  registers it uses (\<open>include/netif/cs8900a_regs.h\<close>), initialisation, sending, receiving
  and the polling thread.
\<close>

section \<open>Registers\<close>

definition PP_RxCFG :: u32 where "PP_RxCFG = 0x0102"
definition PP_RxCTL :: u32 where "PP_RxCTL = 0x0104"
definition PP_LineCTL :: u32 where "PP_LineCTL = 0x0112"
definition PP_SelfCTL :: u32 where "PP_SelfCTL = 0x0114"
definition PP_RxEvent :: u32 where "PP_RxEvent = 0x0124"
definition PP_SelfST :: u32 where "PP_SelfST = 0x0136"
definition PP_BusST :: u32 where "PP_BusST = 0x0138"
definition PP_LAF :: u32 where "PP_LAF = 0x0150"
definition PP_IA :: u32 where "PP_IA = 0x0158"
definition SKIP_1 :: u32 where "SKIP_1 = 0x0040"
definition RX_OK_ACCEPT :: u32 where "RX_OK_ACCEPT = 0x0100"
definition RX_MULTCAST_ACCEPT :: u32 where "RX_MULTCAST_ACCEPT = 0x0200"
definition RX_IA_ACCEPT :: u32 where "RX_IA_ACCEPT = 0x0400"
definition RX_BROADCAST_ACCEPT :: u32 where "RX_BROADCAST_ACCEPT = 0x0800"
definition TX_START_ALL_BYTES :: u32 where "TX_START_ALL_BYTES = 0x00C0"
definition SERIAL_RX_ON :: u32 where "SERIAL_RX_ON = 0x0040"
definition SERIAL_TX_ON :: u32 where "SERIAL_TX_ON = 0x0080"
definition POWER_ON_RESET :: u32 where "POWER_ON_RESET = 0x0040"
definition INIT_DONE :: u32 where "INIT_DONE = 0x0080"
definition READY_FOR_TX_NOW :: u32 where "READY_FOR_TX_NOW = 0x0100"
definition RX_FRAME_PORT :: u32 where "RX_FRAME_PORT = 0x0000"
definition TX_FRAME_PORT :: u32 where "TX_FRAME_PORT = 0x0000"
definition TX_CMD_PORT :: u32 where "TX_CMD_PORT = 0x0004"
definition TX_LEN_PORT :: u32 where "TX_LEN_PORT = 0x0006"
definition ADD_PORT :: u32 where "ADD_PORT = 0x000A"
definition DATA_PORT :: u32 where "DATA_PORT = 0x000C"

definition InitSeq :: "(u32 \<times> u32) list" where
  "InitSeq =
     [(PP_LineCTL, SERIAL_RX_ON OR SERIAL_TX_ON), (PP_LAF + 0, 0xffff), (PP_LAF + 2, 0xffff),
      (PP_LAF + 4, 0xffff), (PP_LAF + 6, 0xffff),
      (PP_RxCTL, RX_OK_ACCEPT OR RX_IA_ACCEPT OR RX_BROADCAST_ACCEPT OR RX_MULTCAST_ACCEPT)]"

section \<open>The driver\<close>

text \<open>lwIP and pico]OS, acting on a state that includes the port, and the value of \<open>IOPIN\<close>.\<close>

record 'w csx =
  cs_eth :: "'w lpc ethx"
  IOPIN :: "'w lpc \<Rightarrow> u32"
  posTaskSleep :: "u32 \<Rightarrow> 'w lpc \<Rightarrow> 'w lpc"
  cs_MS :: "u32 \<Rightarrow> u32"

definition cs8900aSkipFrame :: "'w csx \<Rightarrow> 'w lpc \<Rightarrow> 'w lpc" where
  "cs8900aSkipFrame C st =
     (let st = cs8900aWrite ADD_PORT PP_RxCFG st;
          (v, st) = cs8900aRead (IOPIN C) DATA_PORT st
      in cs8900aWrite DATA_PORT (v OR SKIP_1) st)"

subsection \<open>Initialisation\<close>

text \<open>
  \<open>while ((cs8900aRead(DATA_PORT) & INIT_DONE) == 0) ;\<close> for at most \<open>n\<close> reads; \<open>None\<close> when
  the chip has not come up by then.
\<close>

fun cs_wait_init :: "'w csx \<Rightarrow> nat \<Rightarrow> 'w lpc \<Rightarrow> 'w lpc option" where
  "cs_wait_init C 0 st = None"
| "cs_wait_init C (Suc n) st =
     (let (v, st) = cs8900aRead (IOPIN C) DATA_PORT st
      in if v AND INIT_DONE = 0 then cs_wait_init C n st else Some st)"

text \<open>A loop of pairs of an address and a data write.\<close>

fun cs_program :: "(u32 \<times> u32) list \<Rightarrow> 'w lpc \<Rightarrow> 'w lpc" where
  "cs_program [] st = st"
| "cs_program ((a, d) # ps) st =
     cs_program ps (cs8900aWrite DATA_PORT d (cs8900aWrite ADD_PORT a st))"

definition cs_hwaddr :: "u8 list" where
  "cs_hwaddr = [0, 0xbd, 3, 4, 5, 7]"

definition cs_lowLevelInit ::
    "'w csx \<Rightarrow> init_env \<Rightarrow> nat \<Rightarrow> netif \<Rightarrow> 'w lpc \<Rightarrow> (netif \<times> 'w lpc) option" where
  "cs_lowLevelInit C E n nif st =
     (let nif = nif\<lparr>hwaddr_len := ETHARP_HWADDR_LEN E, hwaddr := cs_hwaddr, mtu := 1500,
            nif_flags := FLAG_BROADCAST E OR FLAG_ETHARP E OR FLAG_LINK_UP E\<rparr>;
          st = wr_IOSET (IOR OR IOW) st;
          st = wr_IODIR (IODIR st OR (SD_ALL OR IOR OR IOW OR SA_ALL)) st;
          st = wr_IOCLR SD_ALL st;
          st = cs8900aWrite ADD_PORT PP_SelfCTL st;
          st = cs8900aWrite DATA_PORT POWER_ON_RESET st;
          st = cs8900aWrite ADD_PORT PP_SelfST st
      in case cs_wait_init C n st of
           None \<Rightarrow> None
         | Some st \<Rightarrow>
             (let ia = map (\<lambda>i. (PP_IA + word_of_nat i,
                    ucast (hwaddr nif ! i) + push_bit 8 (ucast (hwaddr nif ! (i + 1))))) [0, 2, 4];
                  st = cs_program ia st;
                  st = cs_program InitSeq st
              in Some (nif, st)))"

text \<open>
  \<open>None\<close>: the chip has not come up within \<open>n\<close> reads. The tasks created are given by
  priority, stack size and name; the pointer argument is \<open>None\<close> when it is null.
\<close>

definition cs8900aIfInit ::
    "'w csx \<Rightarrow> init_env \<Rightarrow> nat \<Rightarrow> netif option \<Rightarrow> 'w lpc \<Rightarrow>
     (err_t \<times> netif \<times> 'w lpc \<times> (int \<times> int \<times> string) list) res option" where
  "cs8900aIfInit C E n nifp st =
     (if nifp = None \<and> env_debug_assert E then Some (Inl Hang)
      else case nifp of
        None \<Rightarrow> Some (Inl NullDeref)
      | Some nif \<Rightarrow>
          (case mem_malloc E of
             None \<Rightarrow> Some (Inr (ERR_MEM, nif, st, []))
           | Some cs8900aIf \<Rightarrow>
               (let nif = (if NETIF_HOSTNAME E then nif\<lparr>hostname := Some ''lwip''\<rparr> else nif);
                    nif = nif\<lparr>nif_state := Some cs8900aIf, nif_name := ''cs'', nif_output := Some Etharp_output\<rparr>;
                    nif = (if env_IPV6 E then nif\<lparr>output_ip6 := Some Ethip6_output\<rparr> else nif);
                    nif = nif\<lparr>linkoutput := Some Cs_lowLevelOutput\<rparr>
                in case cs_lowLevelInit C E n nif st of
                     None \<Rightarrow> None
                   | Some (nif, st) \<Rightarrow> Some (Inr (ERR_OK, nif, st, [(1, 300, ''cs'')])))))"

subsection \<open>Sending\<close>

text \<open>The polling loop with \<open>u\<close> retries left; whether the chip has buffer space.\<close>

fun cs_tx_wait :: "'w csx \<Rightarrow> nat \<Rightarrow> 'w lpc \<Rightarrow> bool \<times> 'w lpc" where
  "cs_tx_wait C u st =
     (let st = cs8900aWrite ADD_PORT PP_BusST st;
          (v, st) = cs8900aRead (IOPIN C) DATA_PORT st
      in if v AND READY_FOR_TX_NOW \<noteq> 0 then (True, st)
         else (case u of 0 \<Rightarrow> (False, st) | Suc u \<Rightarrow> cs_tx_wait C u (cs8900aSkipFrame C st)))"

declare cs_tx_wait.simps [simp del]

text \<open>\<open>for (u = 0; u < q->len; u += 2)\<close>, reading two bytes of the payload each time.\<close>

function cs_tx_seg :: "seg \<Rightarrow> nat \<Rightarrow> 'w lpc \<Rightarrow> 'w lpc res" where
  "cs_tx_seg q u st =
     (if u < seg_len q then
        rbind (rd (seg_mem q) (payload q + u)) (\<lambda>b0.
        rbind (rd (seg_mem q) (payload q + u + 1)) (\<lambda>b1.
        cs_tx_seg q (u + 2) (cs8900aWriteTxBuf b0 b1 st)))
      else Inr st)"
  by pat_completeness auto

termination
  by (relation "measure (\<lambda>(q, u, _). seg_len q - u)") auto

declare cs_tx_seg.simps [simp del]

fun cs_tx_chain :: "seg list \<Rightarrow> 'w lpc \<Rightarrow> 'w lpc res" where
  "cs_tx_chain [] st = Inr st"
| "cs_tx_chain (q # qs) st =
     (let st = wr_IODIR (IODIR st OR SD_ALL) st;
          st = wr_IOCLR SA_ALL st;
          st = wr_IOSET (push_bit 4 TX_FRAME_PORT) st
      in rbind (cs_tx_seg q 0 st) (cs_tx_chain qs))"

definition cs_lowLevelOutput :: "'w csx \<Rightarrow> pbuf \<Rightarrow> 'w lpc \<Rightarrow> (err_t \<times> pbuf \<times> 'w lpc) res" where
  "cs_lowLevelOutput C p st =
     (let p = drop_pad (cs_eth C) p;
          st = cs8900aWrite TX_CMD_PORT TX_START_ALL_BYTES st;
          st = cs8900aWrite TX_LEN_PORT (word_of_nat (tot_len p)) st;
          (ready, st) = cs_tx_wait C 8 st
      in if \<not> ready then Inr (ERR_IF, p, st)
         else rbind (cs_tx_chain (chain p) st) (\<lambda>st.
           Inr (ERR_OK, reclaim_pad (cs_eth C) p, LINK_STATS_INC (cs_eth C) Xmit st)))"

subsection \<open>Receiving\<close>

text \<open>
  \<open>while (u < q->len)\<close> with a 16-bit counter: after 65534 it starts again at 0, and the
  loop, on a segment of 65535 bytes, never ends.
\<close>

function cs_rx_seg :: "'w csx \<Rightarrow> seg \<Rightarrow> nat \<Rightarrow> 'w lpc \<Rightarrow> (seg \<times> 'w lpc) res" where
  "cs_rx_seg C q u st =
     (if u < seg_len q then
        (let (b0, b1, st) = cs8900aReadRxBuf (IOPIN C) st
         in rbind (wr_n (seg_mem q) (payload q + u) [b0, b1]) (\<lambda>m.
            if u + 2 < 65536 then cs_rx_seg C (q\<lparr>seg_mem := m\<rparr>) (u + 2) st else Inl Hang))
      else Inr (q, st))"
  by pat_completeness auto

termination
  by (relation "measure (\<lambda>(_, q, u, _). seg_len q - u)") auto

declare cs_rx_seg.simps [simp del]

fun cs_rx_chain :: "'w csx \<Rightarrow> seg list \<Rightarrow> 'w lpc \<Rightarrow> (seg list \<times> 'w lpc) res" where
  "cs_rx_chain C [] st = Inr ([], st)"
| "cs_rx_chain C (q # qs) st =
     rbind (cs_rx_seg C q 0 st) (\<lambda>(q, st).
     rbind (cs_rx_chain C qs st) (\<lambda>(qs, st). Inr (q # qs, st)))"

definition cs_lowLevelInput :: "'w csx \<Rightarrow> 'w lpc \<Rightarrow> (pbuf option \<times> 'w lpc) res" where
  "cs_lowLevelInput C st =
     (let st = cs8900aWrite ADD_PORT PP_RxEvent st;
          (v, st) = cs8900aRead (IOPIN C) DATA_PORT st
      in if v AND 0xd00 = 0 then Inr (None, st)
         else (let (_, st) = cs8900aReadAddrHighFirst (IOPIN C) RX_FRAME_PORT st;
                   (l, st) = cs8900aReadAddrHighFirst (IOPIN C) RX_FRAME_PORT st;
                   len = (ucast l :: u16) + word_of_nat (ETH_PAD_SIZE (cs_eth C));
                   (po, st) = pbuf_alloc (cs_eth C) len st
               in case po of
                    None \<Rightarrow> Inr (None, LINK_STATS_INC (cs_eth C) Drop
                      (LINK_STATS_INC (cs_eth C) Memerr (cs8900aSkipFrame C st)))
                  | Some p \<Rightarrow>
                      (let p = drop_pad (cs_eth C) p;
                           st = wr_IODIR (IODIR st AND NOT SD_ALL) st;
                           st = wr_IOCLR SA_ALL st;
                           st = wr_IOSET (push_bit 4 RX_FRAME_PORT) st
                       in rbind (cs_rx_chain C (chain p) st) (\<lambda>(qs, st).
                          Inr (Some (reclaim_pad (cs_eth C) (p\<lparr>chain := qs\<rparr>)),
                            LINK_STATS_INC (cs_eth C) Recv st)))))"

definition cs8900aIfInput :: "'w csx \<Rightarrow> 'w lpc \<Rightarrow> (bool \<times> 'w lpc) res" where
  "cs8900aIfInput C st = eth_input (cs_lowLevelInput C) (eth_dispatch (cs_eth C)) st"

text \<open>One round of the endless loop of the polling thread, with at most \<open>n\<close> packets.\<close>

definition cs8900aThread_round :: "'w csx \<Rightarrow> nat \<Rightarrow> 'w lpc \<Rightarrow> 'w lpc res option" where
  "cs8900aThread_round C n st =
     (let st = posTaskSleep C (cs_MS C 10) st in drain (cs8900aIfInput C) n st)"

section \<open>What the driver does to the bus\<close>

text \<open>The ports are even four-bit addresses.\<close>

lemma ports: "port ADD_PORT" "port DATA_PORT" "port TX_CMD_PORT" "port TX_LEN_PORT"
  "port RX_FRAME_PORT" "port TX_FRAME_PORT"
  by (simp_all add: port_def ADD_PORT_def DATA_PORT_def TX_CMD_PORT_def TX_LEN_PORT_def
      RX_FRAME_PORT_def TX_FRAME_PORT_def)

lemmas port_small = ports [THEN port_facts(1)]

text \<open>
  The steps of the driver as functions on the cycles so far, with the answers of the chip:
  what the bus sees, without pins.
\<close>

definition skip_cycles :: "(cyc list \<Rightarrow> u8) \<Rightarrow> cyc list \<Rightarrow> cyc list" where
  "skip_cycles chip B =
     wr16 ADD_PORT PP_RxCFG @ rd16 DATA_PORT @
     wr16 DATA_PORT (chip_word chip (B @ wr16 ADD_PORT PP_RxCFG) DATA_PORT OR SKIP_1)"

fun tx_wait_bus :: "(cyc list \<Rightarrow> u8) \<Rightarrow> nat \<Rightarrow> cyc list \<Rightarrow> bool \<times> cyc list" where
  "tx_wait_bus chip u B =
     (let B1 = B @ wr16 ADD_PORT PP_BusST; B2 = B1 @ rd16 DATA_PORT
      in if chip_word chip B1 DATA_PORT AND READY_FOR_TX_NOW \<noteq> 0 then (True, B2)
         else (case u of 0 \<Rightarrow> (False, B2) | Suc u \<Rightarrow> tx_wait_bus chip u (B2 @ skip_cycles chip B2)))"

declare tx_wait_bus.simps [simp del]

fun program_cycles :: "(u32 \<times> u32) list \<Rightarrow> cyc list" where
  "program_cycles [] = []"
| "program_cycles ((a, d) # ps) = wr16 ADD_PORT a @ wr16 DATA_PORT d @ program_cycles ps"

lemma skip_refines:
  assumes "idle st" and "pin_ok (IOPIN C) chip"
  shows "bus (cs8900aSkipFrame C st) = bus st @ skip_cycles chip (bus st)"
    "idle (cs8900aSkipFrame C st)" "rest (cs8900aSkipFrame C st) = rest st"
proof -
  note w1 = cs8900aWrite_cycles [OF assms(1) port_small(1)]
  note r = cs8900aRead_cycles [OF w1(2) ports(2) assms(2)]
  note w2 = cs8900aWrite_cycles [OF r(3) port_small(2)]
  show "bus (cs8900aSkipFrame C st) = bus st @ skip_cycles chip (bus st)"
    "idle (cs8900aSkipFrame C st)" "rest (cs8900aSkipFrame C st) = rest st"
    by (simp_all add: cs8900aSkipFrame_def split_beta Let_def skip_cycles_def w1 r w2)
qed

lemma tx_wait_refines:
  "idle st \<Longrightarrow> pin_ok (IOPIN C) chip \<Longrightarrow> cs_tx_wait C u st = (b, st') \<Longrightarrow>
   tx_wait_bus chip u (bus st) = (b, bus st') \<and> idle st' \<and> rest st' = rest st"
proof (induction u arbitrary: st)
  case 0
  note w = cs8900aWrite_cycles [OF 0(1) port_small(1)]
  note r = cs8900aRead_cycles [OF w(2) ports(2) 0(2)]
  from 0(3) show ?case
    by (auto simp: cs_tx_wait.simps [of C 0] tx_wait_bus.simps [of chip 0] Let_def split_beta w r split: if_splits)
next
  case (Suc u)
  note w = cs8900aWrite_cycles [OF Suc.prems(1) port_small(1)]
  note r = cs8900aRead_cycles [OF w(2) ports(2) Suc.prems(2)]
  let ?st2 = "snd (cs8900aRead (IOPIN C) DATA_PORT (cs8900aWrite ADD_PORT PP_BusST st))"
  have i: "idle ?st2" and b2: "bus ?st2 = bus st @ wr16 ADD_PORT PP_BusST @ rd16 DATA_PORT"
    "rest ?st2 = rest st" by (simp_all add: w r)
  note s = skip_refines [OF i Suc.prems(2)]
  show ?case
  proof (cases "fst (cs8900aRead (IOPIN C) DATA_PORT (cs8900aWrite ADD_PORT PP_BusST st)) AND READY_FOR_TX_NOW = 0")
    case True
    then have "cs_tx_wait C u (cs8900aSkipFrame C ?st2) = (b, st')"
      using Suc.prems(3) by (simp add: cs_tx_wait.simps [of C "Suc u"] Let_def split_beta)
    from Suc.IH [OF s(2) Suc.prems(2) this] True s b2 show ?thesis
      by (simp add: tx_wait_bus.simps [of chip "Suc u"] Let_def w r)
  next
    case False
    then have "(b, st') = (True, ?st2)"
      using Suc.prems(3) by (simp add: cs_tx_wait.simps [of C "Suc u"] Let_def split_beta)
    with False i b2 show ?thesis
      by (simp add: tx_wait_bus.simps [of chip "Suc u"] Let_def w r)
  qed
qed

lemma program_refines:
  "idle st \<Longrightarrow> bus (cs_program ps st) = bus st @ program_cycles ps \<and> idle (cs_program ps st) \<and>
   rest (cs_program ps st) = rest st"
proof (induction ps arbitrary: st)
  case Nil
  then show ?case by simp
next
  case (Cons p ps)
  obtain a d where p: "p = (a, d)" by fastforce
  note w1 = cs8900aWrite_cycles [OF Cons.prems port_small(1)]
  note w2 = cs8900aWrite_cycles [OF w1(2) port_small(2)]
  from Cons.IH [OF w2(2)] show ?case by (simp add: p w1 w2)
qed

text \<open>The number of polls, and with it the bus traffic, is bounded.\<close>

lemma tx_wait_bounded: "length (snd (tx_wait_bus chip u B)) \<le> length B + 4 + 10 * u"
proof (induction u arbitrary: B)
  case 0
  then show ?case by (simp add: tx_wait_bus.simps Let_def wr16_def rd16_def)
next
  case (Suc u)
  let ?B = "B @ wr16 ADD_PORT PP_BusST @ rd16 DATA_PORT"
  have "length (?B @ skip_cycles chip ?B) = length B + 10"
    by (simp add: skip_cycles_def wr16_def rd16_def)
  with Suc [of "?B @ skip_cycles chip ?B"] show ?case
    by (auto simp: tx_wait_bus.simps [of chip "Suc u"] Let_def wr16_def rd16_def)
qed

end
