(* ===== verification/Cs8900a_Driver.thy ===== *)
theory Cs8900a_Driver
  imports Cs8900a
begin

text \<open>
  Frame data through the CS8900A driver: which cycles the sending and receiving loops make.
\<close>

section \<open>Sending a chain\<close>

text \<open>The cycles that carry an even number of bytes to the transmit port.\<close>

fun tx_cycles :: "u8 list \<Rightarrow> cyc list" where
  "tx_cycles (a # b # bs) = BusWrite 0 (ucast a) # BusWrite 1 (ucast b) # tx_cycles bs"
| "tx_cycles _ = []"

lemma tx_cycles_append: "even (length as) \<Longrightarrow> tx_cycles (as @ bs) = tx_cycles as @ tx_cycles bs"
  by (induction as rule: tx_cycles.induct) auto

text \<open>
  The bytes a segment makes the driver send: its payload and, when the length is odd, the
  byte after it.
\<close>

definition even_up :: "nat \<Rightarrow> nat" where
  "even_up n = 2 * ((n + 1) div 2)"

definition sent_bytes :: "seg \<Rightarrow> u8 list" where
  "sent_bytes q = take (even_up (seg_len q)) (drop (payload q) (seg_mem q))"

definition roomy :: "seg \<Rightarrow> bool" where
  "roomy q \<longleftrightarrow> payload q + even_up (seg_len q) \<le> length (seg_mem q)"

lemma even_up_simps [simp]: "even n \<Longrightarrow> even_up n = n" "odd n \<Longrightarrow> even_up n = n + 1" "even (even_up n)"
  by (auto simp: even_up_def elim!: evenE oddE)

lemma even_up_ge: "n \<le> even_up n" "even_up n \<le> n + 1"
  by (cases "even n"; simp)+

lemma roomy_seg_ok: "roomy q \<Longrightarrow> seg_ok q"
  using even_up_ge(1) [of "seg_len q"] by (simp add: roomy_def seg_ok_def)

lemma even_room: "even u \<Longrightarrow> u < n \<Longrightarrow> u + 2 \<le> even_up n"
  by (cases "even n") (auto elim!: evenE oddE)

lemma even_up_le: "even u \<Longrightarrow> n \<le> u \<Longrightarrow> even_up n \<le> u"
  by (cases "n = u") (auto simp: even_up_def)

text \<open>In the loops the address lines stand at 0 or 1 of the frame port.\<close>

definition at_frame_port :: "'w lpc \<Rightarrow> bool" where
  "at_frame_port st \<longleftrightarrow> idle st \<and> addr_of (latch st) AND NOT 1 = 0"

lemma tx_buf_step:
  assumes "at_frame_port st" and "data_of (IODIR st) = 0xff"
  shows "bus (cs8900aWriteTxBuf b0 b1 st) = bus st @ [BusWrite 0 (ucast b0), BusWrite 1 (ucast b1)]"
    "at_frame_port (cs8900aWriteTxBuf b0 b1 st)" "rest (cs8900aWriteTxBuf b0 b1 st) = rest st"
    "data_of (IODIR (cs8900aWriteTxBuf b0 b1 st)) = 0xff"
proof -
  have a: "idle st" "addr_of (latch st) AND NOT 1 = 0" using assms(1) by (simp_all add: at_frame_port_def)
  note c = cs8900aWriteTxBuf_cycles [OF a(1) assms(2), unfolded a(2)]
  show "bus (cs8900aWriteTxBuf b0 b1 st) = bus st @ [BusWrite 0 (ucast b0), BusWrite 1 (ucast b1)]"
    "rest (cs8900aWriteTxBuf b0 b1 st) = rest st" "data_of (IODIR (cs8900aWriteTxBuf b0 b1 st)) = 0xff"
    using c by simp_all
  show "at_frame_port (cs8900aWriteTxBuf b0 b1 st)" using c by (simp add: at_frame_port_def)
qed

lemma tx_seg_cycles:
  "roomy q \<Longrightarrow> even u \<Longrightarrow> at_frame_port st \<Longrightarrow> data_of (IODIR st) = 0xff \<Longrightarrow>
   \<exists>st'. cs_tx_seg q u st = Inr st' \<and> at_frame_port st' \<and> data_of (IODIR st') = 0xff \<and>
     rest st' = rest st \<and>
     bus st' = bus st @ tx_cycles (take (even_up (seg_len q) - u) (drop (payload q + u) (seg_mem q)))"
proof (induction q u st rule: cs_tx_seg.induct)
  case (1 q u st)
  show ?case
  proof (cases "u < seg_len q")
    case True
    have e: "u + 2 \<le> even_up (seg_len q)" using even_room [OF 1(3) True] .
    with 1(2) have l: "payload q + u + 2 \<le> length (seg_mem q)" by (simp add: roomy_def)
    let ?m = "seg_mem q" and ?i = "payload q + u"
    have r: "rd ?m ?i = Inr (?m ! ?i)" "rd ?m (?i + 1) = Inr (?m ! (?i + 1))" using l by (simp_all add: rd_in)
    let ?st = "cs8900aWriteTxBuf (?m ! ?i) (?m ! (?i + 1)) st"
    note s = tx_buf_step [OF 1(4,5), of "?m ! ?i" "?m ! (?i + 1)"]
    from 1(1) [OF True r(1,2) 1(2) _ s(2,4)] 1(3) obtain st'
      where st': "cs_tx_seg q (u + 2) ?st = Inr st'" "at_frame_port st'" "data_of (IODIR st') = 0xff"
        "rest st' = rest ?st"
        "bus st' = bus ?st @ tx_cycles (take (even_up (seg_len q) - (u + 2)) (drop (payload q + (u + 2)) ?m))"
      by auto
    have "drop ?i ?m = ?m ! ?i # ?m ! (?i + 1) # drop (?i + 2) ?m"
      using l by (simp add: Cons_nth_drop_Suc [symmetric])
    moreover have "even_up (seg_len q) - u = Suc (Suc (even_up (seg_len q) - (u + 2)))" using e by simp
    ultimately have "tx_cycles (take (even_up (seg_len q) - u) (drop ?i ?m)) =
        [BusWrite 0 (ucast (?m ! ?i)), BusWrite 1 (ucast (?m ! (?i + 1)))] @
        tx_cycles (take (even_up (seg_len q) - (u + 2)) (drop (payload q + (u + 2)) ?m))"
      by (simp add: add.assoc)
    with st' s r True show ?thesis by (simp add: cs_tx_seg.simps [of q u])
  next
    case False
    then have "even_up (seg_len q) - u = 0" using even_up_le [OF 1(3)] by simp
    with False 1(4,5) show ?thesis by (simp add: cs_tx_seg.simps [of q u])
  qed
qed

text \<open>Setting up the frame port, as sending and receiving do it.\<close>

lemma setup_tx:
  assumes "idle st"
  shows "at_frame_port (wr_IOSET (push_bit 4 TX_FRAME_PORT) (wr_IOCLR SA_ALL (wr_IODIR (IODIR st OR SD_ALL) st)))"
    "data_of (IODIR (wr_IOSET (push_bit 4 TX_FRAME_PORT) (wr_IOCLR SA_ALL (wr_IODIR (IODIR st OR SD_ALL) st)))) = 0xff"
    "bus (wr_IOSET (push_bit 4 TX_FRAME_PORT) (wr_IOCLR SA_ALL (wr_IODIR (IODIR st OR SD_ALL) st))) = bus st"
    "rest (wr_IOSET (push_bit 4 TX_FRAME_PORT) (wr_IOCLR SA_ALL (wr_IODIR (IODIR st OR SD_ALL) st))) = rest st"
  using assms
  by (simp_all add: at_frame_port_def idle_def strobes_high_def emit_def pin_fields TX_FRAME_PORT_def)

lemma setup_rx:
  assumes "idle st"
  shows "at_frame_port (wr_IOSET (push_bit 4 RX_FRAME_PORT) (wr_IOCLR SA_ALL (wr_IODIR (IODIR st AND NOT SD_ALL) st)))"
    "data_of (IODIR (wr_IOSET (push_bit 4 RX_FRAME_PORT) (wr_IOCLR SA_ALL (wr_IODIR (IODIR st AND NOT SD_ALL) st)))) = 0"
    "bus (wr_IOSET (push_bit 4 RX_FRAME_PORT) (wr_IOCLR SA_ALL (wr_IODIR (IODIR st AND NOT SD_ALL) st))) = bus st"
    "rest (wr_IOSET (push_bit 4 RX_FRAME_PORT) (wr_IOCLR SA_ALL (wr_IODIR (IODIR st AND NOT SD_ALL) st))) = rest st"
  using assms
  by (simp_all add: at_frame_port_def idle_def strobes_high_def emit_def pin_fields RX_FRAME_PORT_def)

lemma tx_chain_cycles:
  "\<forall>q \<in> set qs. roomy q \<Longrightarrow> idle st \<Longrightarrow>
   \<exists>st'. cs_tx_chain qs st = Inr st' \<and> idle st' \<and> rest st' = rest st \<and>
     bus st' = bus st @ tx_cycles (concat (map sent_bytes qs))"
proof (induction qs arbitrary: st)
  case Nil
  then show ?case by simp
next
  case (Cons q qs)
  define st0 where
    "st0 = wr_IOSET (push_bit 4 TX_FRAME_PORT) (wr_IOCLR SA_ALL (wr_IODIR (IODIR st OR SD_ALL) st))"
  note s = setup_tx [OF Cons.prems(2), folded st0_def]
  from Cons.prems(1) have q: "roomy q" by simp
  from tx_seg_cycles [OF q _ s(1,2), of 0] obtain st1 where st1: "cs_tx_seg q 0 st0 = Inr st1"
    "at_frame_port st1" "rest st1 = rest st" "bus st1 = bus st @ tx_cycles (sent_bytes q)"
    by (auto simp: s(3,4) sent_bytes_def)
  have i: "idle st1" using st1(2) by (simp add: at_frame_port_def)
  from Cons.IH [OF _ i] Cons.prems(1) obtain st' where "cs_tx_chain qs st1 = Inr st'" "idle st'"
    "rest st' = rest st1" "bus st' = bus st1 @ tx_cycles (concat (map sent_bytes qs))" by auto
  moreover have "even (length (sent_bytes q))" using q by (simp add: sent_bytes_def roomy_def)
  ultimately show ?case using st1 by (simp add: tx_cycles_append Let_def flip: st0_def)
qed

text \<open>
  When only the last segment may have an odd length, the bytes sent are the frame's, followed
  by at most one more.
\<close>

definition even_chain :: "seg list \<Rightarrow> bool" where
  "even_chain qs \<longleftrightarrow> (\<forall>q \<in> set (butlast qs). even (seg_len q))"

lemma sent_bytes_prefix: "roomy q \<Longrightarrow> take (seg_len q) (sent_bytes q) = seg_bytes q"
  using even_up_ge(1) [of "seg_len q"] by (simp add: sent_bytes_def seg_bytes_def min_def)

lemma length_sent: "roomy q \<Longrightarrow> length (sent_bytes q) = even_up (seg_len q)"
  by (simp add: sent_bytes_def roomy_def)

lemma sent_frame:
  "even_chain qs \<Longrightarrow> \<forall>q \<in> set qs. roomy q \<Longrightarrow>
   take (chain_len qs) (concat (map sent_bytes qs)) = chain_bytes qs \<and>
   length (concat (map sent_bytes qs)) = even_up (chain_len qs)"
proof (induction qs)
  case Nil
  then show ?case by (simp add: even_up_def)
next
  case (Cons q qs)
  from Cons.prems have q: "roomy q" by simp
  show ?case
  proof (cases "qs = []")
    case True
    with q show ?thesis by (simp add: sent_bytes_prefix length_sent)
  next
    case False
    with Cons.prems(1) have e: "even (seg_len q)" "even_chain qs" by (simp_all add: even_chain_def)
    have l: "length (sent_bytes q) = seg_len q" using q e by (simp add: length_sent)
    then have "sent_bytes q = seg_bytes q" using sent_bytes_prefix [OF q] by simp
    moreover have "even_up (seg_len q + chain_len qs) = seg_len q + even_up (chain_len qs)"
      using e(1) by (cases "even (chain_len qs)") simp_all
    ultimately show ?thesis using Cons.IH [OF e(2)] Cons.prems(2) l by simp
  qed
qed

section \<open>Runs without violations\<close>

text \<open>What the bus has seen since \<open>B\<close> obeys its protocol.\<close>

definition clean :: "cyc list \<Rightarrow> cyc list \<Rightarrow> bool" where
  "clean B B' \<longleftrightarrow> (\<exists>X. B' = B @ X \<and> BusFault \<notin> set X)"

lemma clean_append [simp]: "clean B (B @ X) \<longleftrightarrow> BusFault \<notin> set X"
  by (simp add: clean_def)

lemma clean_refl [simp]: "clean B B"
  by (simp add: clean_def)

lemma clean_trans: "clean A B \<Longrightarrow> clean B C \<Longrightarrow> clean A C"
  by (auto simp: clean_def)

lemma no_fault_16 [simp]:
  "BusFault \<notin> set (wr16 a v)" "BusFault \<notin> set (rd16 a)" "BusFault \<notin> set (rd16_hi a)"
  by (simp_all add: wr16_def rd16_def rd16_hi_def)

lemma no_fault_tx [simp]: "BusFault \<notin> set (tx_cycles bs)"
  by (induction bs rule: tx_cycles.induct) auto

lemma no_fault_skip [simp]: "BusFault \<notin> set (skip_cycles chip B)"
  by (simp add: skip_cycles_def)

section \<open>Receiving a chain\<close>

text \<open>\<open>n\<close> read cycles of the receive port, the low byte first.\<close>

definition rx_reads :: "nat \<Rightarrow> cyc list" where
  "rx_reads n = map (\<lambda>k. BusRead (if even k then 0 else 1)) [0..<n]"

lemma rx_reads_simps: "rx_reads 0 = []" "rx_reads 1 = [BusRead 0]" "rx_reads (Suc 0) = [BusRead 0]"
  "rx_reads 2 = [BusRead 0, BusRead 1]"
  by (simp_all add: rx_reads_def numeral_2_eq_2)

lemma no_fault_rx [simp]: "BusFault \<notin> set (rx_reads n)"
  by (auto simp: rx_reads_def)

lemma rx_reads_add: "even a \<Longrightarrow> rx_reads (a + b) = rx_reads a @ rx_reads b"
  by (rule nth_equalityI) (auto simp: rx_reads_def nth_append)

text \<open>One segment, from an even offset on: its payload are the chip's answers in order.\<close>

lemma rx_buf_step:
  assumes "at_frame_port st" and "data_of (IODIR st) = 0" and "pin_ok pin chip"
    and "cs8900aReadRxBuf pin st = (b0, b1, st')"
  shows "bus st' = bus st @ rx_reads 2" "b0 = chip (bus st @ rx_reads 1)" "b1 = chip (bus st @ rx_reads 2)"
    "at_frame_port st'" "rest st' = rest st" "data_of (IODIR st') = 0"
proof -
  have a: "idle st" "addr_of (latch st) AND NOT 1 = 0" using assms(1) by (simp_all add: at_frame_port_def)
  note c = cs8900aReadRxBuf_cycles [OF a(1) assms(2,3,4), unfolded a(2)]
  show "bus st' = bus st @ rx_reads 2" "b0 = chip (bus st @ rx_reads 1)" "b1 = chip (bus st @ rx_reads 2)"
    "rest st' = rest st" "data_of (IODIR st') = 0"
    using c by (simp_all add: rx_reads_simps)
  show "at_frame_port st'" using c by (simp add: at_frame_port_def)
qed

lemma rx_seg_cycles:
  "roomy q \<Longrightarrow> seg_len q < 65535 \<Longrightarrow> even u \<Longrightarrow> at_frame_port st \<Longrightarrow> data_of (IODIR st) = 0 \<Longrightarrow>
   pin_ok (IOPIN C) chip \<Longrightarrow>
   \<exists>q' st'. cs_rx_seg C q u st = Inr (q', st') \<and> at_frame_port st' \<and> data_of (IODIR st') = 0 \<and>
     rest st' = rest st \<and> bus st' = bus st @ rx_reads (even_up (seg_len q) - u) \<and>
     payload q' = payload q \<and> seg_len q' = seg_len q \<and> length (seg_mem q') = length (seg_mem q) \<and>
     (\<forall>j < length (seg_mem q). seg_mem q' ! j =
       (if payload q + u \<le> j \<and> j < payload q + even_up (seg_len q)
        then chip (bus st @ rx_reads (j - (payload q + u) + 1)) else seg_mem q ! j))"
proof (induction C q u st rule: cs_rx_seg.induct)
  case (1 C q u st)
  note hyps = 1(2-)
  show ?case
  proof (cases "u < seg_len q")
    case True
    have e: "u + 2 \<le> even_up (seg_len q)" using even_room [OF hyps(3) True] .
    with hyps(1) have l: "payload q + u + 2 \<le> length (seg_mem q)" by (simp add: roomy_def)
    obtain b0 b1 st1 where b: "cs8900aReadRxBuf (IOPIN C) st = (b0, b1, st1)" by (metis prod_cases3)
    note s = rx_buf_step [OF hyps(4,5,6) b]
    let ?i = "payload q + u"
    let ?m = "splice (seg_mem q) ?i [b0, b1]"
    have w: "wr_n (seg_mem q) ?i [b0, b1] = Inr ?m" using l by (simp add: wr_n_in)
    have lm: "length ?m = length (seg_mem q)" using l by simp
    have nw: "u + 2 < 65536" using True hyps(2) by simp
    let ?q = "q\<lparr>seg_mem := ?m\<rparr>"
    have rq: "roomy ?q" "seg_len ?q < 65535" "even (u + 2)" using hyps lm by (simp_all add: roomy_def)
    from 1(1) [OF True refl b [symmetric] refl w nw rq s(4,6) hyps(6)] obtain q' st' where
      r: "cs_rx_seg C ?q (u + 2) st1 = Inr (q', st')" "at_frame_port st'" "data_of (IODIR st') = 0"
        "rest st' = rest st1" "bus st' = bus st1 @ rx_reads (even_up (seg_len q) - (u + 2))"
        "payload q' = payload q" "seg_len q' = seg_len q" "length (seg_mem q') = length (seg_mem q)"
      and m: "\<forall>j < length (seg_mem q). seg_mem q' ! j =
        (if payload q + (u + 2) \<le> j \<and> j < payload q + even_up (seg_len q)
         then chip (bus st1 @ rx_reads (j - (payload q + (u + 2)) + 1)) else ?m ! j)"
      using lm by auto
    have ru: "rx_reads (2 + n) = rx_reads 2 @ rx_reads n" for n by (rule rx_reads_add) simp
    have eu: "even_up (seg_len q) - u = 2 + (even_up (seg_len q) - (u + 2))" using e by simp
    have bus': "bus st' = bus st @ rx_reads (even_up (seg_len q) - u)"
      unfolding eu ru using r(5) s(1) by simp
    have "\<forall>j < length (seg_mem q). seg_mem q' ! j =
       (if ?i \<le> j \<and> j < payload q + even_up (seg_len q)
        then chip (bus st @ rx_reads (j - ?i + 1)) else seg_mem q ! j)"
    proof (intro allI impI)
      fix j assume j: "j < length (seg_mem q)"
      show "seg_mem q' ! j = (if ?i \<le> j \<and> j < payload q + even_up (seg_len q)
        then chip (bus st @ rx_reads (j - ?i + 1)) else seg_mem q ! j)"
    proof (cases "payload q + (u + 2) \<le> j")
      case True
      then have "j - ?i + 1 = 2 + (j - (payload q + (u + 2)) + 1)" by simp
      with True m j s(1) ru show ?thesis using l by (simp add: nth_splice)
    next
      case False
      then have mj: "seg_mem q' ! j = ?m ! j" using m j by simp
      consider "j < ?i" | "j = ?i" | "j = ?i + 1" using False by linarith
      then show ?thesis
        by cases (use mj l j e s(2,3) in \<open>simp_all add: nth_splice numeral_2_eq_2\<close>)
    qed
    qed
    moreover have "cs_rx_seg C q u st = Inr (q', st')"
      using True b w nw r(1) by (simp add: cs_rx_seg.simps [of C q u])
    ultimately show ?thesis using r s(5) bus' by auto
  next
    case False
    then have "even_up (seg_len q) - u = 0" using even_up_le [OF hyps(3)] by simp
    then have "\<not> (payload q + u \<le> j \<and> j < payload q + even_up (seg_len q))" for j by simp
    with False hyps \<open>even_up (seg_len q) - u = 0\<close> show ?thesis
      by (auto simp: cs_rx_seg.simps [of C q u] rx_reads_simps)
  qed
qed

lemma rx_chain_cycles:
  "even_chain qs \<Longrightarrow> \<forall>q \<in> set qs. roomy q \<and> seg_len q < 65535 \<Longrightarrow> at_frame_port st \<Longrightarrow>
   data_of (IODIR st) = 0 \<Longrightarrow> pin_ok (IOPIN C) chip \<Longrightarrow>
   \<exists>qs' st'. cs_rx_chain C qs st = Inr (qs', st') \<and> idle st' \<and> rest st' = rest st \<and>
     same_shape qs qs' \<and> bus st' = bus st @ rx_reads (even_up (chain_len qs)) \<and>
     chain_bytes qs' = map (\<lambda>j. chip (bus st @ rx_reads (j + 1))) [0..<chain_len qs]"
proof (induction qs arbitrary: st)
  case Nil
  then show ?case by (simp add: same_shape_def rx_reads_simps even_up_def at_frame_port_def)
next
  case (Cons q qs)
  from Cons.prems have q: "roomy q" "seg_len q < 65535" by simp_all
  from rx_seg_cycles [OF q _ Cons.prems(3-5), of 0] obtain q' st1 where
    r: "cs_rx_seg C q 0 st = Inr (q', st1)" "at_frame_port st1" "data_of (IODIR st1) = 0"
      "rest st1 = rest st" "bus st1 = bus st @ rx_reads (even_up (seg_len q))"
      "payload q' = payload q" "seg_len q' = seg_len q" "length (seg_mem q') = length (seg_mem q)"
    and m: "\<forall>j < length (seg_mem q). seg_mem q' ! j =
       (if payload q \<le> j \<and> j < payload q + even_up (seg_len q)
        then chip (bus st @ rx_reads (j - payload q + 1)) else seg_mem q ! j)"
    by auto
  have ok: "seg_ok q" "seg_ok q'" using roomy_seg_ok [OF q(1)] r by (simp_all add: seg_ok_def)
  have b: "seg_bytes q' = map (\<lambda>j. chip (bus st @ rx_reads (j + 1))) [0..<seg_len q]"
  proof (rule nth_equalityI)
    show "length (seg_bytes q') = length (map (\<lambda>j. chip (bus st @ rx_reads (j + 1))) [0..<seg_len q])"
      using ok r by simp
    fix j assume "j < length (seg_bytes q')"
    then have j: "j < seg_len q" using ok r by simp
    then have "j < even_up (seg_len q)" using even_up_ge(1) [of "seg_len q"] by simp
    with j ok r m show "seg_bytes q' ! j = map (\<lambda>j. chip (bus st @ rx_reads (j + 1))) [0..<seg_len q] ! j"
      by (simp add: seg_bytes_def seg_ok_def)
  qed
  show ?case
  proof (cases "qs = []")
    case True
    with r b show ?thesis by (simp add: same_shape_def at_frame_port_def)
  next
    case False
    with Cons.prems(1) have e: "even (seg_len q)" "even_chain qs" by (simp_all add: even_chain_def)
    from Cons.IH [OF e(2) _ r(2,3) Cons.prems(5)] Cons.prems(2) obtain qs' st' where
      s: "cs_rx_chain C qs st1 = Inr (qs', st')" "idle st'" "rest st' = rest st1" "same_shape qs qs'"
        "bus st' = bus st1 @ rx_reads (even_up (chain_len qs))"
        "chain_bytes qs' = map (\<lambda>j. chip (bus st1 @ rx_reads (j + 1))) [0..<chain_len qs]" by auto
    have a: "rx_reads (seg_len q + n) = rx_reads (seg_len q) @ rx_reads n" for n
      using e(1) by (rule rx_reads_add)
    have "even_up (seg_len q + chain_len qs) = seg_len q + even_up (chain_len qs)"
      using e(1) by (cases "even (chain_len qs)") simp_all
    then have bus': "bus st' = bus st @ rx_reads (even_up (seg_len q + chain_len qs))"
      using s(5) r(5) e(1) by (simp add: a)
    have "chain_bytes (q' # qs') = map (\<lambda>j. chip (bus st @ rx_reads (j + 1))) [0..<seg_len q + chain_len qs]"
    proof (rule nth_equalityI)
      show "length (chain_bytes (q' # qs')) =
          length (map (\<lambda>j. chip (bus st @ rx_reads (j + 1))) [0..<seg_len q + chain_len qs])"
        using b s(6) by simp
      fix j assume j: "j < length (chain_bytes (q' # qs'))"
      then have jl: "j < seg_len q + chain_len qs" using b s(6) by simp
      show "chain_bytes (q' # qs') ! j =
          map (\<lambda>j. chip (bus st @ rx_reads (j + 1))) [0..<seg_len q + chain_len qs] ! j"
      proof (cases "j < seg_len q")
        case True
        with jl b show ?thesis by (simp add: nth_append)
      next
        case False
        then have "j - seg_len q < chain_len qs" using jl by simp
        moreover have "rx_reads (Suc j) = rx_reads (seg_len q) @ rx_reads (Suc (j - seg_len q))"
          using a [of "Suc (j - seg_len q)"] False by simp
        ultimately show ?thesis using False jl b s(6) r(5) e(1) by (simp add: nth_append)
      qed
    qed
    with r s bus' show ?thesis by (simp add: same_shape_def)
  qed
qed

text \<open>Reading data from the frame port involves the pins only, not lwIP.\<close>

lemma rx_seg_pin: "IOPIN C' = IOPIN C \<Longrightarrow> cs_rx_seg C' q u st = cs_rx_seg C q u st"
proof (induction C q u st rule: cs_rx_seg.induct)
  case (1 C q u st)
  obtain b0 b1 st1 where r: "cs8900aReadRxBuf (IOPIN C) st = (b0, b1, st1)" by (metis prod_cases3)
  have s: "cs_rx_seg C' (q\<lparr>seg_mem := m\<rparr>) (u + 2) st1 = cs_rx_seg C (q\<lparr>seg_mem := m\<rparr>) (u + 2) st1"
    if "u < seg_len q" "wr_n (seg_mem q) (payload q + u) [b0, b1] = Inr m" "u + 2 < 65536" for m
    using 1(1) [OF that(1) r [symmetric] refl refl that(2,3)] 1(2) by blast
  show ?case
    unfolding cs_rx_seg.simps [of C' q u st] cs_rx_seg.simps [of C q u st] 1(2) r
    using s by (cases "wr_n (seg_mem q) (payload q + u) [b0, b1]") (simp_all del: add_2_eq_Suc')
qed

lemma rx_chain_pin: "IOPIN C' = IOPIN C \<Longrightarrow> cs_rx_chain C' qs st = cs_rx_chain C qs st"
proof (induction qs arbitrary: st)
  case (Cons q qs)
  note e = rx_seg_pin [OF Cons.prems, of q 0 st] and IH = Cons.IH [OF Cons.prems]
  show ?case unfolding cs_rx_chain.simps e IH ..
qed simp

end
