(* ===== verification/Tapif.thy ===== *)
theory Tapif
  imports Netif_Driver
begin

text \<open>
  The network interface on a tap device of the host (\<open>netif/tapif.c\<close>): sending, receiving,
  the polling thread, the signal handler that wakes it, and initialisation. The host's
  system calls and pico]OS are parameters (\<open>tapx\<close>, \<open>tap_env\<close>).
\<close>

section \<open>The host\<close>

text \<open>
  \<open>tap_read n buf\<close> is \<open>read(tapIf->tap, ethBuf, n)\<close>: the result, whether \<open>errno\<close> is
  \<open>EAGAIN\<close>, the buffer afterwards. \<open>tap_write bs\<close> is a \<open>write\<close> of the bytes \<open>bs\<close>.
  \<open>ethBuf_init\<close> is the indeterminate contents of the local array \<open>ethBuf\<close>.
\<close>

record 'w tapx =
  tap_eth :: "'w ethx"
  tap_read :: "nat \<Rightarrow> u8 list \<Rightarrow> 'w \<Rightarrow> int \<times> bool \<times> u8 list \<times> 'w"
  tap_write :: "u8 list \<Rightarrow> 'w \<Rightarrow> int \<times> 'w"
  ethBuf_init :: "'w \<Rightarrow> u8 list"
  tap_semaWait :: "u32 \<Rightarrow> 'w \<Rightarrow> int \<times> 'w"
  tap_MS :: "u32 \<Rightarrow> u32"

section \<open>Sending\<close>

text \<open>The error code, the packet as it is left, the state.\<close>

definition tap_lowLevelOutput :: "'w tapx \<Rightarrow> pbuf \<Rightarrow> 'w \<Rightarrow> (err_t \<times> pbuf \<times> 'w) res" where
  "tap_lowLevelOutput T p w =
     (let p = drop_pad (tap_eth T) p
      in rbind (gather (chain p) 0 (ethBuf_init T w)) (\<lambda>ethBuf.
         rbind (rd_n ethBuf 0 (tot_len p)) (\<lambda>bytes.
         let (r, w) = tap_write T bytes w
         in if r = - 1 then Inr (ERR_IF, p, w)
            else Inr (ERR_OK, reclaim_pad (tap_eth T) p, LINK_STATS_INC (tap_eth T) Xmit w))))"

section \<open>Receiving\<close>

text \<open>
  The length is an \<open>int\<close>; passing it to \<open>pbuf_alloc\<close> keeps its low 16 bits.
\<close>

definition tap_lowLevelInput :: "'w tapx \<Rightarrow> 'w \<Rightarrow> (pbuf option \<times> 'w) res" where
  "tap_lowLevelInput T w =
     (let (len, again, ethBuf, w) = tap_read T 1514 (ethBuf_init T w) w
      in if len = - 1 \<and> again then Inr (None, w)
         else (let len = len + int (ETH_PAD_SIZE (tap_eth T));
                   (po, w) = pbuf_alloc (tap_eth T) (word_of_int len) w
               in case po of
                    None \<Rightarrow> Inr (None, LINK_STATS_INC (tap_eth T) Drop (LINK_STATS_INC (tap_eth T) Memerr w))
                  | Some p \<Rightarrow>
                      (let p = drop_pad (tap_eth T) p
                       in rbind (scatter (chain p) 0 ethBuf) (\<lambda>qs.
                          Inr (Some (reclaim_pad (tap_eth T) (p\<lparr>chain := qs\<rparr>)),
                            LINK_STATS_INC (tap_eth T) Recv w)))))"

definition tapIfInput :: "'w tapx \<Rightarrow> 'w \<Rightarrow> (bool \<times> 'w) res" where
  "tapIfInput T w = eth_input (tap_lowLevelInput T) (eth_dispatch (tap_eth T)) w"

text \<open>One round of the endless loop of the polling thread, with at most \<open>n\<close> packets.\<close>

definition tapThread_round :: "'w tapx \<Rightarrow> nat \<Rightarrow> 'w \<Rightarrow> 'w res option" where
  "tapThread_round T n w =
     (let (_, w) = tap_semaWait T (tap_MS T 1000) w in drain (tapIfInput T) n w)"

section \<open>Initialisation\<close>

text \<open>What the initialisation asks of the host and of pico]OS, in its order.\<close>

datatype tap_act =
    MemMalloc
  | Open string
  | System string
  | Sigaction
  | FcntlSetown
  | FcntlGetfl
  | FcntlSetfl u32
  | SemaCreate nat string
  | TaskCreate int int string
  | SetPollSema "nat option"

text \<open>
  The answers of the host during initialisation and its constants. The macros
  \<open>ip4_addr1\<close> to \<open>ip4_addr4\<close> give the four bytes of an address.
\<close>

record tap_env = init_env +
  P_ASSERT_on :: bool
  open_result :: int
  getfl_result :: u32
  sema_result :: "nat option"
  ip4_byte :: "nat \<Rightarrow> u32 \<Rightarrow> u8"
  O_ASYNC :: u32
  O_NONBLOCK :: u32

text \<open>\<open>%d\<close> on a value that is not negative.\<close>

fun dec :: "nat \<Rightarrow> string" where
  "dec n = (if n < 10 then [char_of (48 + n)] else dec (n div 10) @ [char_of (48 + n mod 10)])"

declare dec.simps [simp del]

definition dotted :: "tap_env \<Rightarrow> u32 \<Rightarrow> string" where
  "dotted E a = dec (unat (ip4_byte E 1 a)) @ ''.'' @ dec (unat (ip4_byte E 2 a)) @ ''.'' @
     dec (unat (ip4_byte E 3 a)) @ ''.'' @ dec (unat (ip4_byte E 4 a))"

text \<open>
  \<open>sprintf\<close> into the array \<open>ifconfig\<close> of 80 bytes from offset \<open>n\<close> on: the text and a
  terminating 0 must fit.
\<close>

definition sprintf80 :: "string \<Rightarrow> string \<Rightarrow> string res" where
  "sprintf80 before txt =
     (if length before + length txt + 1 \<le> 80 then Inr (before @ txt) else Inl OutOfBounds)"

definition ifconfig_cmd :: "tap_env \<Rightarrow> netif \<Rightarrow> string res" where
  "ifconfig_cmd E n =
     rbind (sprintf80 [] (''ifconfig tap0 '' @ dotted E (gw n) @ '' '')) (\<lambda>s.
     sprintf80 s (''netmask '' @ dotted E (netmask n) @ '' up''))"

definition tap_lowLevelInit :: "tap_env \<Rightarrow> netif \<Rightarrow> (netif \<times> tap_act list) res" where
  "tap_lowLevelInit E n =
     (let n = n\<lparr>hwaddr_len := ETHARP_HWADDR_LEN E, hwaddr := [0, 0xbd, 3, 4, 5, 6], mtu := 1500,
            nif_flags := FLAG_BROADCAST E OR FLAG_ETHARP E OR FLAG_LINK_UP E\<rparr>
      in if P_ASSERT_on E \<and> open_result E = - 1 then Inl AssertFail
         else rbind (ifconfig_cmd E n) (\<lambda>ifconfig.
           Inr (n, [Open ''/dev/tap0'', System ifconfig] @
             (if env_IPV6 E then [System ''ifconfig tap0 inet6 -ifdisabled''] else []) @
             [Sigaction, FcntlSetown, FcntlGetfl,
              FcntlSetfl (getfl_result E OR O_ASYNC E OR O_NONBLOCK E)])))"

text \<open>The argument is \<open>None\<close> for a null pointer; the result holds the actions taken.\<close>

definition tapIfInit :: "tap_env \<Rightarrow> netif option \<Rightarrow> (err_t \<times> netif \<times> tap_act list) res" where
  "tapIfInit E nif =
     (if nif = None \<and> env_debug_assert E then Inl Hang
      else case nif of
        None \<Rightarrow> Inl NullDeref
      | Some n \<Rightarrow>
          (case mem_malloc E of
             None \<Rightarrow> Inr (ERR_MEM, n, [MemMalloc])
           | Some tapIf \<Rightarrow>
               (let n = (if NETIF_HOSTNAME E then n\<lparr>hostname := Some ''lwip''\<rparr> else n);
                    n = n\<lparr>nif_state := Some tapIf, nif_name := ''ta'', nif_output := Some Etharp_output\<rparr>;
                    n = (if env_IPV6 E then n\<lparr>output_ip6 := Some Ethip6_output\<rparr> else n);
                    n = n\<lparr>linkoutput := Some Tap_lowLevelOutput\<rparr>
                in rbind (tap_lowLevelInit E n) (\<lambda>(n, acts).
                   Inr (ERR_OK, n, [MemMalloc] @ acts @
                     [SemaCreate 1 ''tap'', TaskCreate 10 300 ''cs'', SetPollSema (sema_result E)])))))"

section \<open>What the driver relies on\<close>

text \<open>
  \<open>queue w\<close> are the frames waiting in the device. A non-blocking read of an empty device
  answers \<open>EAGAIN\<close>; otherwise it takes the oldest frame and stores at most as many bytes
  as asked for. An allocated packet has the length asked for, room for the padding word in
  its first segment, and a first segment that reaches past the Ethernet header.
\<close>

definition read_ok :: "'w tapx \<Rightarrow> ('w \<Rightarrow> nat) \<Rightarrow> ('w \<Rightarrow> u8 list list) \<Rightarrow> bool" where
  "read_ok T held queue \<longleftrightarrow>
     (\<forall>w n buf. n \<le> length buf \<longrightarrow>
        (case queue w of
           [] \<Rightarrow> (\<exists>buf'. tap_read T n buf w = (- 1, True, buf', w))
         | f # fs \<Rightarrow> (\<exists>w' again. queue w' = fs \<and> held w' = held w \<and>
             tap_read T n buf w = (int (length (take n f)), again, splice buf 0 (take n f), w'))))"

definition pool_ok :: "'w ethx \<Rightarrow> ('w \<Rightarrow> nat) \<Rightarrow> ('w \<Rightarrow> u8 list list) \<Rightarrow> bool" where
  "pool_ok X held queue \<longleftrightarrow>
     (\<forall>n w. queue (snd (pbuf_alloc X n w)) = queue w \<and>
        (case fst (pbuf_alloc X n w) of
           None \<Rightarrow> held (snd (pbuf_alloc X n w)) = held w
         | Some p \<Rightarrow> held (snd (pbuf_alloc X n w)) = Suc (held w) \<and> pbuf_ok p \<and>
             tot_len p = unat n \<and> type_readable X p \<and>
             (ETH_PAD_SIZE X \<le> unat n \<longrightarrow> ETH_PAD_SIZE X \<le> seg_len (hd (chain p)))))"

definition tap_ok :: "'w tapx \<Rightarrow> ('w \<Rightarrow> nat) \<Rightarrow> ('w \<Rightarrow> u8 list list) \<Rightarrow> bool" where
  "tap_ok T held queue \<longleftrightarrow>
     ETH_PAD_SIZE (tap_eth T) < 64 \<and> header_ok (tap_eth T) \<and> stack_ok (tap_eth T) held queue \<and>
     pool_ok (tap_eth T) held queue \<and> read_ok T held queue \<and> (\<forall>w. length (ethBuf_init T w) = 1514)"

section \<open>Receiving one frame\<close>

lemma stats_keep:
  "stack_ok X held queue \<Longrightarrow> held (LINK_STATS_INC X s w) = held w \<and> queue (LINK_STATS_INC X s w) = queue w"
  unfolding stack_ok_def by blast

lemma pool_alloc:
  assumes "pool_ok X held queue" and "pbuf_alloc X n w = (po, w')"
  shows "queue w' = queue w \<and> (case po of None \<Rightarrow> held w' = held w
    | Some p \<Rightarrow> held w' = Suc (held w) \<and> pbuf_ok p \<and> tot_len p = unat n \<and> type_readable X p \<and>
        (ETH_PAD_SIZE X \<le> unat n \<longrightarrow> padded X p))"
proof -
  from assms(1) have "queue (snd (pbuf_alloc X n w)) = queue w \<and>
        (case fst (pbuf_alloc X n w) of
           None \<Rightarrow> held (snd (pbuf_alloc X n w)) = held w
         | Some p \<Rightarrow> held (snd (pbuf_alloc X n w)) = Suc (held w) \<and> pbuf_ok p \<and>
             tot_len p = unat n \<and> type_readable X p \<and>
             (ETH_PAD_SIZE X \<le> unat n \<longrightarrow> ETH_PAD_SIZE X \<le> seg_len (hd (chain p))))"
    unfolding pool_ok_def by blast
  with assms(2) show ?thesis by (auto simp: padded_def split: option.splits)
qed

lemma read_empty:
  "read_ok T held queue \<Longrightarrow> queue w = [] \<Longrightarrow> n \<le> length buf \<Longrightarrow>
   \<exists>buf'. tap_read T n buf w = (- 1, True, buf', w)"
  unfolding read_ok_def by (drule spec [of _ w], drule spec [of _ n], drule spec [of _ buf]) simp

lemma read_frame:
  "read_ok T held queue \<Longrightarrow> queue w = f # fs \<Longrightarrow> n \<le> length buf \<Longrightarrow>
   \<exists>w' again. queue w' = fs \<and> held w' = held w \<and>
     tap_read T n buf w = (int (length (take n f)), again, splice buf 0 (take n f), w')"
  unfolding read_ok_def by (drule spec [of _ w], drule spec [of _ n], drule spec [of _ buf]) simp

text \<open>An empty device: nothing happens.\<close>

lemma tap_receive_empty:
  assumes "tap_ok T held queue" and "queue w = []"
  shows "tap_lowLevelInput T w = Inr (None, w)"
proof -
  from assms have "\<exists>buf'. tap_read T 1514 (ethBuf_init T w) w = (- 1, True, buf', w)"
    using read_empty [of T held queue w 1514] by (simp add: tap_ok_def)
  then show ?thesis by (auto simp: tap_lowLevelInput_def)
qed

text \<open>
  A frame: a packet with exactly its first 1514 bytes behind the padding word, or, when
  there is no memory, nothing.
\<close>

lemma tap_receive_frame:
  assumes ok: "tap_ok T held queue" and q: "queue w = f # fs"
  shows "\<exists>po w'. tap_lowLevelInput T w = Inr (po, w') \<and> queue w' = fs \<and>
    (case po of None \<Rightarrow> held w' = held w
     | Some p \<Rightarrow> held w' = Suc (held w) \<and> padded (tap_eth T) p \<and> type_readable (tap_eth T) p \<and>
         tot_len p = length (take 1514 f) + ETH_PAD_SIZE (tap_eth T) \<and>
         drop (ETH_PAD_SIZE (tap_eth T)) (chain_bytes (chain p)) = take 1514 f)"
proof -
  let ?X = "tap_eth T" and ?f = "take 1514 f"
  let ?k = "ETH_PAD_SIZE ?X"
  from ok have st: "stack_ok ?X held queue" and pool: "pool_ok ?X held queue" and hdr: "header_ok ?X"
    and rd: "read_ok T held queue" and l0: "length (ethBuf_init T w) = 1514" and k: "?k < 64"
    by (simp_all add: tap_ok_def)
  define buf where "buf = splice (ethBuf_init T w) 0 ?f"
  have lf: "length ?f \<le> 1514" by simp
  have lb: "length buf = 1514" "take (length ?f) buf = ?f"
    using l0 splice_same [of 0 ?f "ethBuf_init T w"] by (simp_all add: buf_def)
  from rd q l0 obtain w1 again where w1: "queue w1 = fs" "held w1 = held w"
    and r: "tap_read T 1514 (ethBuf_init T w) w = (int (length ?f), again, buf, w1)"
    using read_frame [OF rd q, of 1514 "ethBuf_init T w"] unfolding buf_def by auto
  let ?n = "word_of_int (int (length ?f) + int ?k) :: u16"
  have n: "unat ?n = length ?f + ?k"
    using k lf by (simp add: unat_of_nat flip: of_nat_add)
  obtain po w2 where a: "pbuf_alloc ?X ?n w1 = (po, w2)" by fastforce
  note al = pool_alloc [OF pool a]
  show ?thesis
  proof (cases po)
    case None
    with r a al w1 stats_keep [OF st] show ?thesis by (simp add: tap_lowLevelInput_def)
  next
    case (Some p)
    with al n have p: "held w2 = Suc (held w1)" "tot_len p = length ?f + ?k" "type_readable ?X p"
      "padded ?X p" "queue w2 = queue w1" by simp_all
    let ?p1 = "drop_pad ?X p"
    have pk: "pbuf_ok p" "?k \<le> seg_len (hd (chain p))" using p(4) by (simp_all add: padded_def)
    note lo = lower_facts [OF pk, folded drop_pad_lower [OF hdr p(4)]]
    have cl: "chain_len (chain ?p1) = length ?f"
      using lo(1,3) p(2) by (simp add: pbuf_ok_def)
    with lo(1) lb obtain qs where s: "scatter (chain ?p1) 0 buf = Inr qs" "same_shape (chain ?p1) qs"
      "chain_bytes qs = ?f"
      using scatter_ok [of "chain ?p1" 0 buf] by (auto simp: pbuf_ok_def)
    let ?p2 = "reclaim_pad ?X (?p1\<lparr>chain := qs\<rparr>)"
    note fl = fill_facts [OF hdr p(4) s(2) refl]
    have "type_readable ?X ?p2"
      using p(3) fl by (auto simp: type_readable_def padded_def pbuf_ok_def)
    with Some r a s p fl w1 stats_keep [OF st] show ?thesis
      by (simp add: tap_lowLevelInput_def)
  qed
qed

section \<open>The driver keeps the contract\<close>

definition tap_inv :: "'w tapx \<Rightarrow> ('w \<Rightarrow> nat) \<Rightarrow> ('w \<Rightarrow> u8 list list) \<Rightarrow> 'w \<Rightarrow> bool" where
  "tap_inv T held queue w \<longleftrightarrow> tap_ok T held queue"

interpretation tap: eth_driver "tap_lowLevelInput T" "eth_dispatch (tap_eth T)" held
  "\<lambda>w. length (queue w)" "type_readable (tap_eth T)" "tap_inv T held queue"
  for T :: "'w tapx" and held queue
proof
  fix w
  assume "tap_inv T held queue w"
  then have ok: "tap_ok T held queue" by (simp add: tap_inv_def)
  show "\<exists>p w'. tap_lowLevelInput T w = Inr (p, w') \<and> tap_inv T held queue w' \<and>
      (case p of None \<Rightarrow> held w' = held w \<and> length (queue w') \<le> length (queue w)
       | Some p \<Rightarrow> type_readable (tap_eth T) p \<and> held w' = Suc (held w) \<and>
           length (queue w') < length (queue w))"
  proof (cases "queue w")
    case Nil
    from tap_receive_empty [OF ok Nil] ok show ?thesis by (simp add: tap_inv_def)
  next
    case (Cons f fs)
    from tap_receive_frame [OF ok Cons] obtain po w' where "tap_lowLevelInput T w = Inr (po, w')"
      "queue w' = fs" "case po of None \<Rightarrow> held w' = held w
       | Some p \<Rightarrow> held w' = Suc (held w) \<and> type_readable (tap_eth T) p"
      by (auto split: option.splits)
    with ok Cons show ?thesis by (cases po) (auto simp: tap_inv_def)
  qed
next
  fix w p
  assume "tap_inv T held queue w" and "type_readable (tap_eth T) p"
  then have "tap_ok T held queue" "stack_ok (tap_eth T) held queue"
    by (simp_all add: tap_inv_def tap_ok_def)
  with eth_dispatch_disposes [OF this(2) \<open>type_readable (tap_eth T) p\<close>, of w]
  show "\<exists>w'. eth_dispatch (tap_eth T) p w = Inr w' \<and> tap_inv T held queue w' \<and>
      held w' = held w - 1 \<and> length (queue w') = length (queue w)"
    by (auto simp: tap_inv_def)
qed

end
