(* ===== verification/Cs8900a_Contract.thy ===== *)
theory Cs8900a_Contract
  imports Cs8900a_Driver Tapif "HOL-Library.Sublist"
begin

text \<open>
  What the CS8900A driver relies on (the chip's answers, lwIP's packets) and the
  interpretation of the driver contract: receiving takes the oldest frame from the chip and
  delivers exactly its bytes, without a bus violation, whatever frames arrive meanwhile; and
  the cycles of sending a packet.
\<close>

section \<open>The chip\<close>

text \<open>The cycles of a poll for received frames, and of reading status and length.\<close>

definition poll_cycles :: "cyc list" where
  "poll_cycles = wr16 ADD_PORT PP_RxEvent @ rd16 DATA_PORT"

definition header_cycles :: "cyc list" where
  "header_cycles = rd16_hi RX_FRAME_PORT @ rd16_hi RX_FRAME_PORT"

lemma no_fault_poll [simp]: "BusFault \<notin> set poll_cycles" "BusFault \<notin> set header_cycles"
  by (simp_all add: poll_cycles_def header_cycles_def)

text \<open>
  The bits RxOK, IndividualAdr and Broadcast of the event a poll reads.
\<close>

definition rx_flag :: "(cyc list \<Rightarrow> u8) \<Rightarrow> cyc list \<Rightarrow> u32" where
  "rx_flag chip B = chip_word chip (B @ wr16 ADD_PORT PP_RxEvent) DATA_PORT AND 0xd00"

text \<open>
  \<open>frames B\<close> are the frames in the chip after the cycles \<open>B\<close>, and \<open>coming B\<close> bounds the number
  of those still to arrive: between \<open>B\<close> and \<open>B'\<close>, frames can be appended to \<open>fs\<close>.
\<close>

definition grows :: "(cyc list \<Rightarrow> u8 list list) \<Rightarrow> (cyc list \<Rightarrow> nat) \<Rightarrow> u8 list list \<Rightarrow> cyc list \<Rightarrow> cyc list \<Rightarrow> bool" where
  "grows frames coming fs B B' \<longleftrightarrow>
     prefix fs (frames B') \<and> length (frames B') + coming B' \<le> length fs + coming B"

text \<open>
  A poll shows one of the bits when there is a frame, and there is one when it does; after
  it, the header gives the length of the oldest frame, which is then no longer waiting, and
  the following reads give its bytes; \<open>Skip_1\<close> discards the rest. All the time frames may
  arrive behind it.
\<close>

definition chip_ok :: "(cyc list \<Rightarrow> u8) \<Rightarrow> (cyc list \<Rightarrow> u8 list list) \<Rightarrow> (cyc list \<Rightarrow> nat) \<Rightarrow> bool" where
  "chip_ok chip frames coming \<longleftrightarrow>
     (\<forall>B. grows frames coming (frames B) B (B @ poll_cycles) \<and>
        (rx_flag chip B = 0 \<longrightarrow> frames B = []) \<and> (rx_flag chip B \<noteq> 0 \<longrightarrow> frames (B @ poll_cycles) \<noteq> [])) \<and>
     (\<forall>B f fs. rx_flag chip B \<noteq> 0 \<and> frames (B @ poll_cycles) = f # fs \<longrightarrow>
        length f \<le> 1518 \<and>
        chip_word_hi chip (B @ poll_cycles @ rd16_hi RX_FRAME_PORT) RX_FRAME_PORT = word_of_nat (length f) \<and>
        (\<forall>i < length f. chip (B @ poll_cycles @ header_cycles @ rx_reads (i + 1)) = f ! i) \<and>
        (\<forall>n. grows frames coming fs (B @ poll_cycles) (B @ poll_cycles @ header_cycles @ rx_reads n)) \<and>
        grows frames coming fs (B @ poll_cycles)
          (B @ poll_cycles @ header_cycles @ skip_cycles chip (B @ poll_cycles @ header_cycles)))"

lemma chip_poll:
  assumes "chip_ok chip frames coming"
  shows "grows frames coming (frames B) B (B @ poll_cycles)"
    "rx_flag chip B = 0 \<Longrightarrow> frames B = []" "rx_flag chip B \<noteq> 0 \<Longrightarrow> frames (B @ poll_cycles) \<noteq> []"
  using assms unfolding chip_ok_def by blast+

lemma chip_frame:
  assumes "chip_ok chip frames coming" and "rx_flag chip B \<noteq> 0" and "frames (B @ poll_cycles) = f # fs"
  shows "length f \<le> 1518"
    "chip_word_hi chip (B @ poll_cycles @ rd16_hi RX_FRAME_PORT) RX_FRAME_PORT = word_of_nat (length f)"
    "i < length f \<Longrightarrow> chip (B @ poll_cycles @ header_cycles @ rx_reads (i + 1)) = f ! i"
    "grows frames coming fs (B @ poll_cycles) (B @ poll_cycles @ header_cycles @ rx_reads n)"
    "grows frames coming fs (B @ poll_cycles)
      (B @ poll_cycles @ header_cycles @ skip_cycles chip (B @ poll_cycles @ header_cycles))"
  using assms unfolding chip_ok_def by blast+

section \<open>lwIP\<close>

text \<open>lwIP does not touch the port.\<close>

definition same_io :: "'w lpc \<Rightarrow> 'w lpc \<Rightarrow> bool" where
  "same_io st st' \<longleftrightarrow> IODIR st' = IODIR st \<and> latch st' = latch st \<and> bus st' = bus st"

definition io_frame :: "'w lpc ethx \<Rightarrow> bool" where
  "io_frame X \<longleftrightarrow>
     (\<forall>n st. same_io st (snd (pbuf_alloc X n st))) \<and> (\<forall>p st. same_io st (pbuf_free X p st)) \<and>
     (\<forall>p st. same_io st (snd (netif_input X p st))) \<and> (\<forall>s st. same_io st (LINK_STATS_INC X s st))"

text \<open>
  The payloads of a packet from the pool, behind the padding word: only the last may be odd,
  and there is room for the byte the 16-bit transfer adds to it.
\<close>

definition even_pool :: "'w lpc ethx \<Rightarrow> bool" where
  "even_pool X \<longleftrightarrow>
     (\<forall>n st p st'. pbuf_alloc X n st = (Some p, st') \<and> ETH_PAD_SIZE X \<le> unat n \<longrightarrow>
        even_chain (chain (drop_pad X p)) \<and>
        (\<forall>q \<in> set (chain (drop_pad X p)). roomy q \<and> seg_len q < 65535))"

definition cs_ok ::
    "'w csx \<Rightarrow> (cyc list \<Rightarrow> u8) \<Rightarrow> (cyc list \<Rightarrow> u8 list list) \<Rightarrow> (cyc list \<Rightarrow> nat) \<Rightarrow> ('w \<Rightarrow> nat) \<Rightarrow> bool" where
  "cs_ok C chip frames coming h \<longleftrightarrow>
     pin_ok (IOPIN C) chip \<and> chip_ok chip frames coming \<and> ETH_PAD_SIZE (cs_eth C) < 64 \<and>
     header_ok (cs_eth C) \<and> io_frame (cs_eth C) \<and> even_pool (cs_eth C) \<and>
     stack_ok (cs_eth C) (\<lambda>st. h (rest st)) (\<lambda>st. frames (bus st)) \<and>
     pool_ok (cs_eth C) (\<lambda>st. h (rest st)) (\<lambda>st. frames (bus st))"

lemma same_io_idle: "same_io st st' \<Longrightarrow> idle st' = idle st"
  by (simp add: same_io_def idle_def)

lemma same_io_trans: "same_io a b \<Longrightarrow> same_io b c \<Longrightarrow> same_io a c"
  by (simp add: same_io_def)

lemma io_frameD:
  assumes "io_frame X"
  shows "same_io st (snd (pbuf_alloc X n st))" "same_io st (pbuf_free X p st)"
    "same_io st (snd (netif_input X p st))" "same_io st (LINK_STATS_INC X s st)"
  using assms unfolding io_frame_def by blast+

lemma dispatch_io:
  assumes "io_frame X" and "eth_dispatch X p st = Inr st'"
  shows "same_io st st'"
proof -
  obtain e st1 where n: "netif_input X p st = (e, st1)" by fastforce
  then have "same_io st st1" using io_frameD(3) [OF assms(1), of st p] by simp
  with assms(2) n show ?thesis
    using io_frameD(2) [OF assms(1), of st p] same_io_trans [OF _ io_frameD(2) [OF assms(1), of st1 p]]
    by (auto simp: eth_dispatch_def rbind_eq_Inr_iff split: if_splits)
qed

section \<open>Receiving\<close>

lemma poll_refines:
  assumes "idle st" and "pin_ok (IOPIN C) chip"
    and "cs8900aRead (IOPIN C) DATA_PORT (cs8900aWrite ADD_PORT PP_RxEvent st) = (v, st1)"
  shows "v = chip_word chip (bus st @ wr16 ADD_PORT PP_RxEvent) DATA_PORT"
    "bus st1 = bus st @ poll_cycles" "idle st1" "rest st1 = rest st"
proof -
  note w = cs8900aWrite_cycles [OF assms(1) port_small(1), where data = PP_RxEvent]
  note r = cs8900aRead_cycles [OF w(2) ports(2) assms(2), unfolded assms(3) fst_conv snd_conv]
  show "v = chip_word chip (bus st @ wr16 ADD_PORT PP_RxEvent) DATA_PORT"
    "bus st1 = bus st @ poll_cycles" "idle st1" "rest st1 = rest st"
    using r w by (simp_all add: poll_cycles_def)
qed

lemma header_refines:
  assumes "idle st" and "pin_ok (IOPIN C) chip"
    and "cs8900aReadAddrHighFirst (IOPIN C) RX_FRAME_PORT st = (s, st1)"
    and "cs8900aReadAddrHighFirst (IOPIN C) RX_FRAME_PORT st1 = (l, st2)"
  shows "l = chip_word_hi chip (bus st @ rd16_hi RX_FRAME_PORT) RX_FRAME_PORT"
    "bus st2 = bus st @ header_cycles" "idle st2" "rest st2 = rest st"
proof -
  note r1 = cs8900aReadAddrHighFirst_cycles [OF assms(1) ports(5) assms(2), unfolded assms(3) fst_conv snd_conv]
  note r2 = cs8900aReadAddrHighFirst_cycles [OF r1(3) ports(5) assms(2), unfolded assms(4) fst_conv snd_conv]
  show "l = chip_word_hi chip (bus st @ rd16_hi RX_FRAME_PORT) RX_FRAME_PORT"
    "bus st2 = bus st @ header_cycles" "idle st2" "rest st2 = rest st"
    using r1 r2 by (simp_all add: header_cycles_def)
qed

text \<open>No frame: the poll is all that happens.\<close>

lemma cs_receive_empty:
  assumes "cs_ok C chip frames coming h" and "idle st" and "rx_flag chip (bus st) = 0"
  shows "\<exists>st'. cs_lowLevelInput C st = Inr (None, st') \<and> bus st' = bus st @ poll_cycles \<and>
    idle st' \<and> rest st' = rest st"
proof -
  have ok: "pin_ok (IOPIN C) chip" using assms(1) by (simp add: cs_ok_def)
  obtain v st1 where r: "cs8900aRead (IOPIN C) DATA_PORT (cs8900aWrite ADD_PORT PP_RxEvent st) = (v, st1)"
    by fastforce
  note p = poll_refines [OF assms(2) ok r]
  have "v AND 0xd00 = 0" using assms(3) p(1) by (simp add: rx_flag_def)
  with r have "cs_lowLevelInput C st = Inr (None, st1)" by (simp add: cs_lowLevelInput_def)
  with p show ?thesis by simp
qed

text \<open>
  Filling an allocated packet from the chip: the frame's bytes are behind the padding word.
\<close>

lemma cs_fill:
  assumes ok: "cs_ok C chip frames coming h" and i: "idle st"
    and q: "rx_flag chip B \<noteq> 0" "frames (B @ poll_cycles) = f # fs"
    and b: "bus st = B @ poll_cycles @ header_cycles"
    and p: "padded (cs_eth C) p" "tot_len p = length f + ETH_PAD_SIZE (cs_eth C)"
    and e: "even_chain (chain (drop_pad (cs_eth C) p))"
      "\<forall>q \<in> set (chain (drop_pad (cs_eth C) p)). roomy q \<and> seg_len q < 65535"
    and s: "st0 = wr_IOSET (push_bit 4 RX_FRAME_PORT) (wr_IOCLR SA_ALL (wr_IODIR (IODIR st AND NOT SD_ALL) st))"
  shows "\<exists>qs st'. cs_rx_chain C (chain (drop_pad (cs_eth C) p)) st0 = Inr (qs, st') \<and> idle st' \<and>
    rest st' = rest st \<and> (\<exists>n. bus st' = bus st @ rx_reads n) \<and> clean (bus st) (bus st') \<and>
    grows frames coming fs (B @ poll_cycles) (bus st') \<and> same_shape (chain (drop_pad (cs_eth C) p)) qs \<and>
    chain_bytes qs = f"
proof -
  have o': "pin_ok (IOPIN C) chip" "chip_ok chip frames coming" "header_ok (cs_eth C)"
    using ok by (simp_all add: cs_ok_def)
  let ?qs = "chain (drop_pad (cs_eth C) p)"
  note st0 = setup_rx [OF i, folded s]
  have pk: "pbuf_ok p" "ETH_PAD_SIZE (cs_eth C) \<le> seg_len (hd (chain p))" using p(1) by (simp_all add: padded_def)
  note lo = lower_facts [OF pk, folded drop_pad_lower [OF o'(3) p(1)]]
  have cl: "chain_len ?qs = length f" using lo(1,3) p(2) by (simp add: pbuf_ok_def)
  from rx_chain_cycles [OF e st0(1,2) o'(1)] obtain qs st' where r: "cs_rx_chain C ?qs st0 = Inr (qs, st')"
    "idle st'" "rest st' = rest st0" "same_shape ?qs qs"
    "bus st' = bus st0 @ rx_reads (even_up (chain_len ?qs))"
    "chain_bytes qs = map (\<lambda>j. chip (bus st0 @ rx_reads (j + 1))) [0..<chain_len ?qs]" by blast
  note c = chip_frame [OF o'(2) q]
  have "chain_bytes qs = f"
    by (rule nth_equalityI) (use r(6) cl c(3) b st0(3) in \<open>simp_all\<close>)
  moreover have "grows frames coming fs (B @ poll_cycles) (bus st')" using r(5) b st0(3) c(4) by simp
  moreover have "clean (bus st) (bus st')" using r(5) st0(3) by simp
  moreover have "\<exists>n. bus st' = bus st @ rx_reads n" using r(5) st0(3) by auto
  ultimately show ?thesis using r st0(4) by auto
qed

lemma cs_receive_frame:
  assumes ok: "cs_ok C chip frames coming h" and i: "idle st"
    and q: "rx_flag chip (bus st) \<noteq> 0" "frames (bus st @ poll_cycles) = f # fs"
  shows "\<exists>po st'. cs_lowLevelInput C st = Inr (po, st') \<and> idle st' \<and> clean (bus st) (bus st') \<and>
    (po = None \<longrightarrow> (\<exists>n st. fst (pbuf_alloc (cs_eth C) n st) = None)) \<and>
    grows frames coming fs (bus st @ poll_cycles) (bus st') \<and>
    (case po of None \<Rightarrow> h (rest st') = h (rest st)
     | Some p \<Rightarrow> h (rest st') = Suc (h (rest st)) \<and> padded (cs_eth C) p \<and> type_readable (cs_eth C) p \<and>
         tot_len p = length f + ETH_PAD_SIZE (cs_eth C) \<and>
         drop (ETH_PAD_SIZE (cs_eth C)) (chain_bytes (chain p)) = f \<and>
         (\<exists>n. bus st' = bus st @ poll_cycles @ header_cycles @ rx_reads n))"
proof -
  let ?X = "cs_eth C" and ?held = "\<lambda>st. h (rest st)" and ?queue = "\<lambda>st. frames (bus st)"
  let ?k = "ETH_PAD_SIZE ?X"
  have o': "pin_ok (IOPIN C) chip" "chip_ok chip frames coming" "?k < 64" "header_ok ?X" "io_frame ?X"
    "even_pool ?X" "stack_ok ?X ?held ?queue" "pool_ok ?X ?held ?queue"
    using ok by (simp_all add: cs_ok_def)
  obtain v st1 where r1: "cs8900aRead (IOPIN C) DATA_PORT (cs8900aWrite ADD_PORT PP_RxEvent st) = (v, st1)"
    by fastforce
  note p1 = poll_refines [OF i o'(1) r1]
  have v: "v AND 0xd00 \<noteq> 0" using q(1) p1(1) by (simp add: rx_flag_def)
  obtain s st2 where r2: "cs8900aReadAddrHighFirst (IOPIN C) RX_FRAME_PORT st1 = (s, st2)" by fastforce
  obtain l st3 where r3: "cs8900aReadAddrHighFirst (IOPIN C) RX_FRAME_PORT st2 = (l, st3)" by fastforce
  note p3 = header_refines [OF p1(3) o'(1) r2 r3]
  note c = chip_frame [OF o'(2) q]
  have l: "l = word_of_nat (length f)" using p3(1) p1(2) c(2) by simp
  let ?n = "(ucast l :: u16) + word_of_nat ?k"
  have n: "unat ?n = length f + ?k"
    using o'(3) c(1) by (simp add: l unsigned_ucast_eq take_bit_eq_mod unat_of_nat unat_word_ariths)
  obtain po st4 where a: "pbuf_alloc ?X ?n st3 = (po, st4)" by fastforce
  note al = pool_alloc [OF o'(8) a]
  have io4: "same_io st3 st4" using io_frameD(1) [OF o'(5), of st3 ?n] a by simp
  then have b4: "bus st4 = bus st @ poll_cycles @ header_cycles" and i4: "idle st4"
    using p1(2) p3(2,3) same_io_idle [OF io4] by (simp_all add: same_io_def)
  have stat: "same_io x (LINK_STATS_INC ?X y x)" "h (rest (LINK_STATS_INC ?X y x)) = h (rest x)" for x y
    using io_frameD(4) [OF o'(5)] stats_keep [OF o'(7)] by blast+
  have stat': "idle (LINK_STATS_INC ?X y x) = idle x" "bus (LINK_STATS_INC ?X y x) = bus x" for x y
    using stat(1) [of x y] same_io_idle [OF stat(1)] by (simp_all add: same_io_def)
  show ?thesis
  proof (cases po)
    case None
    note sk = skip_refines [OF i4 o'(1)]
    have "cs_lowLevelInput C st = Inr (None, LINK_STATS_INC ?X Drop (LINK_STATS_INC ?X Memerr (cs8900aSkipFrame C st4)))"
      using r1 r2 r3 a None v by (simp add: cs_lowLevelInput_def)
    moreover have "grows frames coming fs (bus st @ poll_cycles) (bus (cs8900aSkipFrame C st4))"
      using sk(1) b4 c(5) by simp
    moreover have "clean (bus st) (bus (cs8900aSkipFrame C st4))" using sk(1) b4 by simp
    moreover have "fst (pbuf_alloc ?X ?n st3) = None" using a None by simp
    ultimately show ?thesis using sk al None p1(4) p3(4) stat stat' by auto
  next
    case (Some p)
    with al n have p: "h (rest st4) = Suc (h (rest st3))" "tot_len p = length f + ?k" "type_readable ?X p"
      "padded ?X p" by simp_all
    have e: "even_chain (chain (drop_pad ?X p))" "\<forall>q \<in> set (chain (drop_pad ?X p)). roomy q \<and> seg_len q < 65535"
      using o'(6) a Some n unfolding even_pool_def by (metis le_add2)+
    define st5 where
      "st5 = wr_IOSET (push_bit 4 RX_FRAME_PORT) (wr_IOCLR SA_ALL (wr_IODIR (IODIR st4 AND NOT SD_ALL) st4))"
    from cs_fill [OF ok i4 q b4 p(4,2) e st5_def] obtain qs st6 where
      x: "cs_rx_chain C (chain (drop_pad ?X p)) st5 = Inr (qs, st6)" "idle st6" "rest st6 = rest st4"
        "\<exists>n. bus st6 = bus st4 @ rx_reads n" "clean (bus st4) (bus st6)" "grows frames coming fs (bus st @ poll_cycles) (bus st6)" "same_shape (chain (drop_pad ?X p)) qs" "chain_bytes qs = f" by blast
    let ?p2 = "reclaim_pad ?X ((drop_pad ?X p)\<lparr>chain := qs\<rparr>)"
    note fl = fill_facts [OF o'(4) p(4) x(7) refl]
    have "type_readable ?X ?p2" using p(3) fl by (auto simp: type_readable_def padded_def pbuf_ok_def)
    moreover have "cs_lowLevelInput C st = Inr (Some ?p2, LINK_STATS_INC ?X Recv st6)"
      using r1 r2 r3 a Some v x(1) by (simp add: cs_lowLevelInput_def Let_def flip: st5_def)
    moreover have "clean (bus st) (bus st6)" using x(5) clean_trans [of "bus st" "bus st4"] by (simp add: b4)
    moreover have "\<exists>n. bus st6 = bus st @ poll_cycles @ header_cycles @ rx_reads n" using x(4) by (simp add: b4)
    ultimately show ?thesis using x p fl p1(4) p3(4) stat stat' by simp
  qed
qed

section \<open>Sending, as the bus sees it\<close>

definition sendable :: "'w csx \<Rightarrow> pbuf \<Rightarrow> bool" where
  "sendable C p \<longleftrightarrow> padded (cs_eth C) p \<and> (\<forall>q \<in> set (chain (drop_pad (cs_eth C) p)). roomy q)"

lemma cs_send_cycles:
  assumes i: "idle st" and pin: "pin_ok (IOPIN C) chip" and h: "header_ok (cs_eth C)" and s: "sendable C p"
    and w: "tx_wait_bus chip 8 (bus st @ wr16 TX_CMD_PORT TX_START_ALL_BYTES @
      wr16 TX_LEN_PORT (word_of_nat (tot_len p - ETH_PAD_SIZE (cs_eth C)))) = (ready, B)"
  shows "\<exists>st'. idle st' \<and>
    (if ready then
       cs_lowLevelOutput C p st = Inr (ERR_OK, p, LINK_STATS_INC (cs_eth C) Xmit st') \<and>
       bus st' = B @ tx_cycles (concat (map sent_bytes (chain (drop_pad (cs_eth C) p))))
     else cs_lowLevelOutput C p st = Inr (ERR_IF, drop_pad (cs_eth C) p, st') \<and> bus st' = B)"
proof -
  let ?p = "drop_pad (cs_eth C) p"
  from s have p: "padded (cs_eth C) p" "\<forall>q \<in> set (chain ?p). roomy q" by (simp_all add: sendable_def)
  then have "pbuf_ok p" "ETH_PAD_SIZE (cs_eth C) \<le> seg_len (hd (chain p))" by (simp_all add: padded_def)
  note lo = lower_facts [OF this, folded drop_pad_lower [OF h p(1)]]
  define st1 where "st1 = cs8900aWrite TX_LEN_PORT (word_of_nat (tot_len ?p))
    (cs8900aWrite TX_CMD_PORT TX_START_ALL_BYTES st)"
  note w1 = cs8900aWrite_cycles [OF i port_small(3), where data = TX_START_ALL_BYTES]
  note w2 = cs8900aWrite_cycles [OF w1(2) port_small(4), where data = "word_of_nat (tot_len ?p)", folded st1_def]
  obtain b st2 where t: "cs_tx_wait C 8 st1 = (b, st2)" by fastforce
  from tx_wait_refines [OF w2(2) pin t] w have b: "b = ready" "bus st2 = B" "idle st2"
    by (simp_all add: w1 w2 lo(3))
  from tx_chain_cycles [OF p(2) b(3)] obtain st3 where
    "cs_tx_chain (chain ?p) st2 = Inr st3" "idle st3" "bus st3 = B @ tx_cycles (concat (map sent_bytes (chain ?p)))"
    unfolding b(2) by blast
  with t b reclaim_drop_pad [OF h p(1)] show ?thesis
    by (cases ready) (auto simp: cs_lowLevelOutput_def Let_def simp flip: st1_def)
qed

section \<open>The driver keeps the contract\<close>

text \<open>
  What one call does, in either case: nothing received and nothing waiting before, or the
  oldest frame taken.
\<close>

lemma cs_receive_cases:
  assumes ok: "cs_ok C chip frames coming h" and i: "idle st"
  obtains (none) st' where "cs_lowLevelInput C st = Inr (None, st')" "frames (bus st) = []" "idle st'"
      "rest st' = rest st" "bus st' = bus st @ poll_cycles"
  | (frame) f fs po st' where "frames (bus st @ poll_cycles) = f # fs" "prefix (frames (bus st)) (f # fs)"
      "cs_lowLevelInput C st = Inr (po, st')" "idle st'" "clean (bus st) (bus st')"
      "po = None \<longrightarrow> (\<exists>n st. fst (pbuf_alloc (cs_eth C) n st) = None)"
      "grows frames coming fs (bus st @ poll_cycles) (bus st')"
      "case po of None \<Rightarrow> h (rest st') = h (rest st)
       | Some p \<Rightarrow> h (rest st') = Suc (h (rest st)) \<and> padded (cs_eth C) p \<and> type_readable (cs_eth C) p \<and>
           tot_len p = length f + ETH_PAD_SIZE (cs_eth C) \<and>
           drop (ETH_PAD_SIZE (cs_eth C)) (chain_bytes (chain p)) = f"
proof (cases "rx_flag chip (bus st) = 0")
  case True
  have c: "chip_ok chip frames coming" using ok by (simp add: cs_ok_def)
  from cs_receive_empty [OF ok i True] chip_poll(2) [OF c True] none show ?thesis by blast
next
  case False
  have c: "chip_ok chip frames coming" using ok by (simp add: cs_ok_def)
  from chip_poll(3) [OF c False] obtain f fs where q: "frames (bus st @ poll_cycles) = f # fs"
    by (auto simp: neq_Nil_conv)
  from chip_poll(1) [OF c, of "bus st"] q have "prefix (frames (bus st)) (f # fs)" by (simp add: grows_def)
  moreover from cs_receive_frame [OF ok i False q] obtain po st' where r: "cs_lowLevelInput C st = Inr (po, st')"
    "idle st'" "clean (bus st) (bus st')" "po = None \<longrightarrow> (\<exists>n st. fst (pbuf_alloc (cs_eth C) n st) = None)"
    "grows frames coming fs (bus st @ poll_cycles) (bus st')" and
    c: "case po of None \<Rightarrow> h (rest st') = h (rest st)
       | Some p \<Rightarrow> h (rest st') = Suc (h (rest st)) \<and> padded (cs_eth C) p \<and> type_readable (cs_eth C) p \<and>
           tot_len p = length f + ETH_PAD_SIZE (cs_eth C) \<and>
           drop (ETH_PAD_SIZE (cs_eth C)) (chain_bytes (chain p)) = f" by (fastforce split: option.splits)
  ultimately show ?thesis using frame [OF q _ r c] by blast
qed

definition cs_inv ::
    "'w csx \<Rightarrow> (cyc list \<Rightarrow> u8) \<Rightarrow> (cyc list \<Rightarrow> u8 list list) \<Rightarrow> (cyc list \<Rightarrow> nat) \<Rightarrow> ('w \<Rightarrow> nat) \<Rightarrow> 'w lpc \<Rightarrow> bool" where
  "cs_inv C chip frames coming h st \<longleftrightarrow> cs_ok C chip frames coming h \<and> idle st"

text \<open>The frames a round may have to deal with: those in the chip and those still to arrive.\<close>

definition cs_pending :: "(cyc list \<Rightarrow> u8 list list) \<Rightarrow> (cyc list \<Rightarrow> nat) \<Rightarrow> 'w lpc \<Rightarrow> nat" where
  "cs_pending frames coming st = length (frames (bus st)) + coming (bus st)"

interpretation cs: eth_driver "cs_lowLevelInput C" "eth_dispatch (cs_eth C)" "\<lambda>st. h (rest st)"
  "cs_pending frames coming" "type_readable (cs_eth C)" "cs_inv C chip frames coming h"
  for C :: "'w csx" and chip frames coming h
proof
  fix st
  assume "cs_inv C chip frames coming h st"
  then have ok: "cs_ok C chip frames coming h" and i: "idle st" by (simp_all add: cs_inv_def)
  have "chip_ok chip frames coming" using ok by (simp add: cs_ok_def)
  note g = chip_poll(1) [OF this, of "bus st", unfolded grows_def]
  from ok i show "\<exists>p st'. cs_lowLevelInput C st = Inr (p, st') \<and> cs_inv C chip frames coming h st' \<and>
      (case p of None \<Rightarrow> h (rest st') = h (rest st) \<and> cs_pending frames coming st' \<le> cs_pending frames coming st
       | Some p \<Rightarrow> type_readable (cs_eth C) p \<and> h (rest st') = Suc (h (rest st)) \<and>
           cs_pending frames coming st' < cs_pending frames coming st)"
  proof (cases rule: cs_receive_cases)
    case (none st')
    with g ok show ?thesis by (auto simp: cs_inv_def cs_pending_def)
  next
    case (frame f fs po st')
    then have "cs_pending frames coming st' < cs_pending frames coming st"
      using g by (simp add: cs_pending_def grows_def)
    with frame ok show ?thesis by (cases po) (auto simp: cs_inv_def)
  qed
next
  fix st p
  assume inv: "cs_inv C chip frames coming h st" and t: "type_readable (cs_eth C) p"
  then have ok: "cs_ok C chip frames coming h" and i: "idle st" by (simp_all add: cs_inv_def)
  from ok have st: "stack_ok (cs_eth C) (\<lambda>st. h (rest st)) (\<lambda>st. frames (bus st))" and io: "io_frame (cs_eth C)"
    by (simp_all add: cs_ok_def)
  from eth_dispatch_disposes [OF st t, of st] obtain st' where d: "eth_dispatch (cs_eth C) p st = Inr st'"
    "h (rest st') = h (rest st) - 1" by blast
  from dispatch_io [OF io d(1)] have "same_io st st'" .
  with d ok i show "\<exists>st'. eth_dispatch (cs_eth C) p st = Inr st' \<and> cs_inv C chip frames coming h st' \<and>
      h (rest st') = h (rest st) - 1 \<and> cs_pending frames coming st' = cs_pending frames coming st"
    using same_io_idle [of st st'] by (simp add: cs_inv_def cs_pending_def same_io_def)
qed

end
