(* ===== verification/Cs8900a_Init.thy ===== *)
theory Cs8900a_Init
  imports Cs8900a_Contract
begin

text \<open>
  The initialisation of \<open>netif/cs8900a_lpc_e2129.c\<close> as the chip sees it: the cycles of
  \<open>lowLevelInit\<close>, from a port in its reset state (or one set up before), and how many reads
  the loop that waits for the chip makes.
\<close>

section \<open>Waiting for the chip\<close>

text \<open>\<open>k\<close> reads of the data port, and whether the next one shows \<open>INIT_DONE\<close>.\<close>

definition status_reads :: "nat \<Rightarrow> cyc list" where
  "status_reads k = concat (replicate k (rd16 DATA_PORT))"

definition init_done :: "(cyc list \<Rightarrow> u8) \<Rightarrow> cyc list \<Rightarrow> nat \<Rightarrow> bool" where
  "init_done chip B k \<longleftrightarrow> chip_word chip (B @ status_reads k) DATA_PORT AND INIT_DONE \<noteq> 0"

lemma status_reads_simps: "status_reads 0 = []" "status_reads (Suc k) = rd16 DATA_PORT @ status_reads k"
  by (simp_all add: status_reads_def)

lemma init_done_shift: "init_done chip (B @ rd16 DATA_PORT) k = init_done chip B (Suc k)"
  by (simp add: init_done_def status_reads_simps)

lemma wait_init_cycles:
  "idle st \<Longrightarrow> pin_ok (IOPIN C) chip \<Longrightarrow> k < n \<Longrightarrow> \<forall>i<k. \<not> init_done chip (bus st) i \<Longrightarrow>
   init_done chip (bus st) k \<Longrightarrow>
   \<exists>st'. cs_wait_init C n st = Some st' \<and> bus st' = bus st @ status_reads (Suc k) \<and> idle st' \<and>
     rest st' = rest st"
proof (induction n arbitrary: st k)
  case 0
  then show ?case by simp
next
  case (Suc n)
  obtain v st1 where r: "cs8900aRead (IOPIN C) DATA_PORT st = (v, st1)" by fastforce
  note c = cs8900aRead_cycles [OF Suc.prems(1) ports(2) Suc.prems(2), unfolded r fst_conv snd_conv]
  have v: "v AND INIT_DONE \<noteq> 0 \<longleftrightarrow> init_done chip (bus st) 0"
    by (simp add: c(1) init_done_def status_reads_simps)
  show ?case
  proof (cases k)
    case 0
    with Suc.prems(5) v r c show ?thesis by (simp add: status_reads_simps)
  next
    case (Suc j)
    have "\<forall>i<j. \<not> init_done chip (bus st1) i" "init_done chip (bus st1) j" "j < n"
      using Suc.prems(3-5) Suc by (simp_all add: c(2) init_done_shift)
    with Suc.IH [OF c(3) Suc.prems(2)] obtain st' where "cs_wait_init C n st1 = Some st'"
      "bus st' = bus st1 @ status_reads (Suc j)" "idle st'" "rest st' = rest st1" by blast
    moreover have "v AND INIT_DONE = 0" using v Suc Suc.prems(4) by simp
    ultimately show ?thesis using r c Suc by (simp add: status_reads_simps)
  qed
qed

text \<open>A chip that never comes up keeps the loop running for ever.\<close>

lemma wait_init_never:
  "idle st \<Longrightarrow> pin_ok (IOPIN C) chip \<Longrightarrow> \<forall>i. \<not> init_done chip (bus st) i \<Longrightarrow> cs_wait_init C n st = None"
proof (induction n arbitrary: st)
  case 0
  then show ?case by simp
next
  case (Suc n)
  obtain v st1 where r: "cs8900aRead (IOPIN C) DATA_PORT st = (v, st1)" by fastforce
  note c = cs8900aRead_cycles [OF Suc.prems(1) ports(2) Suc.prems(2), unfolded r fst_conv snd_conv]
  have "\<forall>i. \<not> init_done chip (bus st1) i" using Suc.prems(3) by (simp add: c(2) init_done_shift)
  from Suc.IH [OF c(3) Suc.prems(2) this] Suc.prems(3) r c show ?case
    by (auto simp: init_done_def status_reads_simps dest: spec [of _ 0])
qed

section \<open>The cycles of the initialisation\<close>

text \<open>A port that drives no control line yet, or one that is set up and at rest.\<close>

definition startable :: "'w lpc \<Rightarrow> bool" where
  "startable st \<longleftrightarrow> ctrl_out (IODIR st) \<longrightarrow> strobes_high (latch st)"

lemma strobes_set:
  "strobes_high (l OR (IOR OR IOW))" "addr_of (l OR (IOR OR IOW)) = addr_of l"
  "data_of (l OR (IOR OR IOW)) = data_of l"
  by (auto intro!: bit_word_eqI simp: strobes_high_def pin_bits)

lemma all_out: "ctrl_out (d OR (SD_ALL OR IOR OR IOW OR SA_ALL))"
proof -
  have m: "(0xf :: u32) = mask 4" by (simp add: mask_eq_exp_minus_1)
  have "addr_of (d OR (SD_ALL OR IOR OR IOW OR SA_ALL)) = 0xf"
    unfolding m by (auto intro!: bit_word_eqI simp: pin_bits bit_mask_iff)
  then show ?thesis by (simp add: ctrl_out_def pin_bits)
qed

lemma setup_init:
  assumes "startable st"
    and "st' = wr_IOCLR SD_ALL (wr_IODIR (IODIR (wr_IOSET (IOR OR IOW) st) OR (SD_ALL OR IOR OR IOW OR SA_ALL))
      (wr_IOSET (IOR OR IOW) st))"
  shows "idle st'" "bus st' = bus st" "rest st' = rest st"
proof -
  have s: "strobes_high (l AND NOT SD_ALL) = strobes_high l" for l
    by (simp add: strobes_high_def pin_fields)
  show "idle st'" "rest st' = rest st" "bus st' = bus st"
    using assms(1) all_out [of "IODIR st"] strobes_set [of "latch st"]
    by (auto simp: assms(2) idle_def emit_def startable_def s strobes_high_def clr_data)
qed

text \<open>
  The address words and the table of the source; \<open>init_cycles k\<close>: everything
  \<open>lowLevelInit\<close> sends, where the chip comes up at the read number \<open>k\<close> (from 0).
\<close>

definition address_words :: "(u32 \<times> u32) list" where
  "address_words = [(0x158, 0xbd00), (0x15a, 0x0403), (0x15c, 0x0705)]"

definition reset_cycles :: "cyc list" where
  "reset_cycles = wr16 ADD_PORT PP_SelfCTL @ wr16 DATA_PORT POWER_ON_RESET @ wr16 ADD_PORT PP_SelfST"

definition init_cycles :: "nat \<Rightarrow> cyc list" where
  "init_cycles k = reset_cycles @ status_reads (Suc k) @ program_cycles address_words @ program_cycles InitSeq"

lemma address_words_eq:
  "map (\<lambda>i. (PP_IA + word_of_nat i,
     ucast (cs_hwaddr ! i) + push_bit 8 (ucast (cs_hwaddr ! (i + 1))))) [0, 2, 4] = address_words"
  by (simp add: address_words_def cs_hwaddr_def PP_IA_def)

lemma lowLevelInit_cycles:
  assumes "startable st" and "pin_ok (IOPIN C) chip" and "k < n"
    and "\<forall>i<k. \<not> init_done chip (bus st @ reset_cycles) i" and "init_done chip (bus st @ reset_cycles) k"
  shows "\<exists>nif' st'. cs_lowLevelInit C E n nif st = Some (nif', st') \<and> idle st' \<and> rest st' = rest st \<and>
    bus st' = bus st @ init_cycles k \<and> hwaddr nif' = cs_hwaddr \<and> mtu nif' = 1500"
proof -
  define st0 where "st0 = wr_IOCLR SD_ALL (wr_IODIR (IODIR (wr_IOSET (IOR OR IOW) st) OR
    (SD_ALL OR IOR OR IOW OR SA_ALL)) (wr_IOSET (IOR OR IOW) st))"
  note s0 = setup_init [OF assms(1) st0_def]
  define st1 where "st1 = cs8900aWrite ADD_PORT PP_SelfST
    (cs8900aWrite DATA_PORT POWER_ON_RESET (cs8900aWrite ADD_PORT PP_SelfCTL st0))"
  note w1 = cs8900aWrite_cycles [OF s0(1) port_small(1), where data = PP_SelfCTL]
  note w2 = cs8900aWrite_cycles [OF w1(2) port_small(2), where data = POWER_ON_RESET]
  note w3 = cs8900aWrite_cycles [OF w2(2) port_small(1), where data = PP_SelfST, folded st1_def]
  have b1: "bus st1 = bus st @ reset_cycles" using w1 w2 w3 s0 by (simp add: reset_cycles_def)
  from wait_init_cycles [OF w3(2) assms(2,3)] assms(4,5) b1 obtain st2 where
    w: "cs_wait_init C n st1 = Some st2" "bus st2 = bus st1 @ status_reads (Suc k)" "idle st2"
      "rest st2 = rest st1" by auto
  note p1 = program_refines [OF w(3), of address_words]
  then have "idle (cs_program address_words st2)" by simp
  note p2 = program_refines [OF this, of InitSeq]
  have "cs_lowLevelInit C E n nif st = Some (nif\<lparr>hwaddr_len := ETHARP_HWADDR_LEN E, hwaddr := cs_hwaddr,
      mtu := 1500, nif_flags := FLAG_BROADCAST E OR FLAG_ETHARP E OR FLAG_LINK_UP E\<rparr>,
      cs_program InitSeq (cs_program address_words st2))"
    using w(1) address_words_eq unfolding cs_lowLevelInit_def Let_def st1_def st0_def by simp
  with p1 p2 w b1 w1 w2 w3 s0 show ?thesis by (simp add: init_cycles_def)
qed

end
