(* ===== verification/Tap_Wakeup.thy ===== *)
theory Tap_Wakeup
  imports Tapif
begin

text \<open>
  How the signal of the host and the polling thread of \<open>netif/tapif.c\<close> interact: the handler
  signals \<open>pollSema\<close>, the thread waits on it (for at most a second) and then polls the
  device until it is empty. The interleavings are the steps of \<open>tap_step\<close>; the invariant
  says that a waiting thread never sleeps on a frame without a signal to wake it.
\<close>

section \<open>Handler and thread\<close>

text \<open>
  The semaphore count, whether the thread is in its inner loop, the variable \<open>pollSema\<close>,
  and the rest of the system.
\<close>

record 'w tap_sys =
  pollSema :: "nat option"
  sema_count :: nat
  polling :: bool
  dev :: 'w

text \<open>\<open>nosSemaSignal\<close> on the null handle, before the initialisation is complete, is a fault.\<close>

definition ioReadyContext :: "('w, 'm) tap_sys_scheme \<Rightarrow> ('w, 'm) tap_sys_scheme res" where
  "ioReadyContext s =
     (if pollSema s = None then Inl NullDeref else Inr (s\<lparr>sema_count := sema_count s + 1\<rparr>))"

text \<open>
  The steps of the polling thread: it leaves \<open>nosSemaWait\<close> with a signal or after a second,
  or makes one call of its inner loop. A frame arrives together with its signal.
\<close>

inductive tap_thread :: "'w tapx \<Rightarrow> 'w tap_sys \<Rightarrow> 'w tap_sys \<Rightarrow> bool" for T where
    Wakeup: "\<not> polling s \<Longrightarrow> 0 < sema_count s \<Longrightarrow>
      tap_thread T s (s\<lparr>sema_count := sema_count s - 1, polling := True\<rparr>)"
  | Timeout: "\<not> polling s \<Longrightarrow> tap_thread T s (s\<lparr>polling := True\<rparr>)"
  | Poll: "polling s \<Longrightarrow> tapIfInput T (dev s) = Inr (again, w) \<Longrightarrow>
      tap_thread T s (s\<lparr>dev := w, polling := again\<rparr>)"

inductive tap_arrive :: "('w \<Rightarrow> u8 list list) \<Rightarrow> u8 list \<Rightarrow> 'w tap_sys \<Rightarrow> 'w tap_sys \<Rightarrow> bool"
  for queue where
    Arrive: "queue w = queue (dev s) @ [f] \<Longrightarrow> ioReadyContext (s\<lparr>dev := w\<rparr>) = Inr s' \<Longrightarrow>
      tap_arrive queue f s s'"

inductive_cases tap_threadE: "tap_thread T s s'"

inductive_simps tap_arrive_iff: "tap_arrive queue f s s'"

text \<open>The interleavings.\<close>

inductive tap_step :: "'w tapx \<Rightarrow> ('w \<Rightarrow> u8 list list) \<Rightarrow> 'w tap_sys \<Rightarrow> 'w tap_sys \<Rightarrow> bool"
  for T queue where
    Signal: "tap_arrive queue f s s' \<Longrightarrow> tap_step T queue s s'"
  | Thread: "tap_thread T s s' \<Longrightarrow> tap_step T queue s s'"

inductive_cases tap_stepE: "tap_step T queue s s'"

inductive tap_reach :: "'w tapx \<Rightarrow> ('w \<Rightarrow> u8 list list) \<Rightarrow> 'w tap_sys \<Rightarrow> bool" for T queue where
    Start: "pollSema s \<noteq> None \<Longrightarrow> sema_count s = 1 \<Longrightarrow> \<not> polling s \<Longrightarrow> tap_reach T queue s"
  | Step: "tap_reach T queue s \<Longrightarrow> tap_step T queue s s' \<Longrightarrow> tap_reach T queue s'"

section \<open>No lost wake-up\<close>

definition wake_inv :: "('w \<Rightarrow> u8 list list) \<Rightarrow> 'w tap_sys \<Rightarrow> bool" where
  "wake_inv queue s \<longleftrightarrow> pollSema s \<noteq> None \<and>
     (\<not> polling s \<and> queue (dev s) \<noteq> [] \<longrightarrow> 0 < sema_count s)"

text \<open>
  One call of the inner loop, when there is always memory: on an empty device it ends the
  loop, otherwise it takes the oldest frame and the loop goes on.
\<close>

lemma tapIfInput_empty:
  assumes "tap_ok T held queue" and "queue w = []"
  shows "tapIfInput T w = Inr (False, w)"
  using tap_receive_empty [OF assms] by (simp add: tapIfInput_def eth_input_def)

lemma tap_receive_some:
  assumes "tap_ok T held queue" and "\<And>n w. fst (pbuf_alloc (tap_eth T) n w) \<noteq> None"
    and "queue w = f # fs" and "tap_lowLevelInput T w = Inr (po, w')"
  shows "po \<noteq> None"
proof
  assume "po = None"
  obtain len again buf w2 where t: "tap_read T 1514 (ethBuf_init T w) w = (len, again, buf, w2)"
    by (metis prod_cases4)
  obtain n' po' w3 where a: "n' = word_of_int (len + int (ETH_PAD_SIZE (tap_eth T)))"
    "pbuf_alloc (tap_eth T) n' w2 = (po', w3)" by fastforce
  have "po' \<noteq> None" using assms(2) [of n' w2] a by simp
  moreover have "length (ethBuf_init T w) = 1514" "read_ok T held queue" using assms(1)
    by (simp_all add: tap_ok_def)
  then have "0 \<le> len" using read_frame [of T held queue w f fs 1514 "ethBuf_init T w"] t assms(3) by auto
  ultimately show False using assms(4) \<open>po = None\<close> t a
    by (auto simp: tap_lowLevelInput_def rbind_eq_Inr_iff Let_def)
qed

lemma tapIfInput_frame:
  assumes ok: "tap_ok T held queue" and mem: "\<And>n w. fst (pbuf_alloc (tap_eth T) n w) \<noteq> None"
    and q: "queue w = f # fs"
  shows "\<exists>w'. tapIfInput T w = Inr (True, w') \<and> queue w' = fs"
proof -
  from tap_receive_frame [OF ok q] obtain po w1 where r: "tap_lowLevelInput T w = Inr (po, w1)" "queue w1 = fs"
    "case po of None \<Rightarrow> True | Some p \<Rightarrow> type_readable (tap_eth T) p" by (auto split: option.splits)
  from tap_receive_some [OF ok mem q r(1)] obtain p where p: "po = Some p" by blast
  from ok have st: "stack_ok (tap_eth T) held queue" by (simp add: tap_ok_def)
  from r(3) p have "type_readable (tap_eth T) p" by simp
  from eth_dispatch_disposes [OF st this, of w1] obtain w2 where
    "eth_dispatch (tap_eth T) p w1 = Inr w2" "queue w2 = queue w1" by blast
  with r p show ?thesis by (simp add: tapIfInput_def eth_input_def)
qed

lemma tapIfInput_False:
  assumes "tap_ok T held queue" and "\<And>n w. fst (pbuf_alloc (tap_eth T) n w) \<noteq> None"
    and "tapIfInput T w = Inr (False, w')"
  shows "queue w' = []"
proof (cases "queue w")
  case Nil
  with tapIfInput_empty [OF assms(1) Nil] assms(3) show ?thesis by simp
next
  case (Cons f fs)
  from tapIfInput_frame [OF assms(1,2) Cons] assms(3) show ?thesis by auto
qed

text \<open>No step touches \<open>pollSema\<close>, so the handler finds the semaphore in every state.\<close>

lemma tap_step_pollSema: "tap_step T queue s s' \<Longrightarrow> pollSema s' = pollSema s"
  by (auto elim!: tap_stepE tap_threadE simp: tap_arrive_iff ioReadyContext_def split: if_splits)

lemma tap_reach_pollSema: "tap_reach T queue s \<Longrightarrow> pollSema s \<noteq> None"
  by (induction rule: tap_reach.induct) (auto dest: tap_step_pollSema)

lemma wake_inv_step:
  assumes "tap_ok T held queue" and "\<And>n w. fst (pbuf_alloc (tap_eth T) n w) \<noteq> None"
    and "wake_inv queue s" and "tap_step T queue s s'"
  shows "wake_inv queue s'"
  using assms(4)
proof (cases rule: tap_step.cases)
  case (Signal f)
  with assms(3) show ?thesis by (auto simp: wake_inv_def tap_arrive_iff ioReadyContext_def split: if_splits)
next
  case Thread
  then show ?thesis
  proof (cases rule: tap_thread.cases)
    case (Poll again w)
    then have "\<not> again \<Longrightarrow> queue w = []" using tapIfInput_False [OF assms(1,2), of "dev s" w] by simp
    with Poll assms(3) show ?thesis by (auto simp: wake_inv_def)
  qed (use assms(3) in \<open>auto simp: wake_inv_def\<close>)
qed

lemma wake_inv_reach:
  assumes "tap_ok T held queue" and "\<And>n w. fst (pbuf_alloc (tap_eth T) n w) \<noteq> None"
    and "tap_reach T queue s"
  shows "wake_inv queue s"
  using assms(3)
proof induction
  case (Start s)
  then show ?case by (simp add: wake_inv_def)
next
  case (Step s s')
  from wake_inv_step [OF assms(1,2) Step.IH Step.hyps(2)] show ?case .
qed

section \<open>Every frame is read\<close>

text \<open>
  A run as the sequence of its events, to count the steps of the thread and to name the
  frames that arrive.
\<close>

datatype tap_event = Frame "u8 list" | Thread_step

inductive tap_run ::
    "'w tapx \<Rightarrow> ('w \<Rightarrow> u8 list list) \<Rightarrow> 'w tap_sys \<Rightarrow> tap_event list \<Rightarrow> 'w tap_sys \<Rightarrow> bool"
  for T queue s where
    Begin: "tap_run T queue s [] s"
  | Arrives: "tap_run T queue s es s' \<Longrightarrow> tap_arrive queue f s' s'' \<Longrightarrow>
      tap_run T queue s (es @ [Frame f]) s''"
  | Moves: "tap_run T queue s es s' \<Longrightarrow> tap_thread T s' s'' \<Longrightarrow>
      tap_run T queue s (es @ [Thread_step]) s''"

fun arrivals :: "tap_event list \<Rightarrow> u8 list list" where
  "arrivals [] = []"
| "arrivals (Frame f # es) = f # arrivals es"
| "arrivals (Thread_step # es) = arrivals es"

lemma arrivals_append [simp]: "arrivals (es @ es') = arrivals es @ arrivals es'"
  by (induction es rule: arrivals.induct) simp_all

text \<open>
  The frames left are what remains of all frames after the first \<open>k\<close>; as long as one of the
  first is left, every step of the thread but one has read a frame.
\<close>

lemma tap_run_reads:
  assumes "tap_ok T held queue" and "\<And>n w. fst (pbuf_alloc (tap_eth T) n w) \<noteq> None"
    and "tap_run T queue s es s'"
  shows "\<exists>k. queue (dev s') = drop k (queue (dev s) @ arrivals es) \<and>
    k \<le> length (queue (dev s) @ arrivals es) \<and>
    (k < length (queue (dev s)) \<longrightarrow>
      count_list es Thread_step + (if polling s then 1 else 0) \<le> k + (if polling s' then 1 else 0))"
  using assms(3)
proof induction
  case Begin
  show ?case by (intro exI [of _ 0]) simp
next
  case (Arrives es s' f s'')
  then obtain k where k: "queue (dev s') = drop k (queue (dev s) @ arrivals es)"
    "k \<le> length (queue (dev s) @ arrivals es)"
    "k < length (queue (dev s)) \<longrightarrow>
      count_list es Thread_step + (if polling s then 1 else 0) \<le> k + (if polling s' then 1 else 0)"
    by blast
  from Arrives.hyps(2) have "queue (dev s'') = queue (dev s') @ [f]" "polling s'' = polling s'"
    by (auto simp: tap_arrive_iff ioReadyContext_def split: if_splits)
  with k show ?case by (intro exI [of _ k]) simp
next
  case (Moves es s' s'')
  then obtain k where k: "queue (dev s') = drop k (queue (dev s) @ arrivals es)"
    "k \<le> length (queue (dev s) @ arrivals es)"
    "k < length (queue (dev s)) \<longrightarrow>
      count_list es Thread_step + (if polling s then 1 else 0) \<le> k + (if polling s' then 1 else 0)"
    by blast
  from Moves.hyps(2) show ?case
  proof (cases rule: tap_thread.cases)
    case (Poll again w)
    show ?thesis
    proof (cases "queue (dev s')")
      case Nil
      with k(1,2) have "k = length (queue (dev s) @ arrivals es)"
        by (metis drop_eq_Nil le_antisym)
      moreover have "w = dev s'" using tapIfInput_empty [OF assms(1) Nil] Poll by simp
      ultimately show ?thesis using k(1) Poll by (intro exI [of _ k]) simp
    next
      case (Cons f fs)
      with tapIfInput_frame [OF assms(1,2) Cons] Poll have w: "again" "queue w = fs" by auto
      from Cons k(1) have lt: "k < length (queue (dev s) @ arrivals es)"
        by (metis drop_all list.distinct(1) not_less)
      have "fs = drop (Suc k) (queue (dev s) @ arrivals es)"
        using Cons k(1) by (metis drop_Suc tl_drop list.sel(3))
      with w lt k(3) Poll show ?thesis by (intro exI [of _ "Suc k"]) auto
    qed
  qed (use k in \<open>(intro exI [of _ k]; auto)+\<close>)
qed

text \<open>The thread always has a step.\<close>

lemma tap_thread_enabled:
  assumes "tap_ok T held queue"
  shows "\<exists>s'. tap_thread T s s'"
proof (cases "polling s")
  case True
  from assms have "tap_inv T held queue (dev s)" by (simp add: tap_inv_def)
  from tap.input_keeps [OF this] obtain again w where "tapIfInput T (dev s) = Inr (again, w)"
    by (auto simp: tapIfInput_def [abs_def])
  with True show ?thesis by (blast intro: tap_thread.Poll)
next
  case False
  then show ?thesis by (blast intro: tap_thread.Timeout)
qed

end
