(* ===== verification/Tap_Signal.thy ===== *)
theory Tap_Signal
  imports Tap_Wakeup
begin

text \<open>
  How the signal of the host becomes an interrupt of pico]OS in \<open>netif/tapif.c\<close>: the signal
  handler \<open>ioReady\<close> runs on the stack of whatever task the signal interrupts; it leaves it for
  \<open>ioReadyContext\<close> on a stack of its own, which signals the semaphore, lets pico]OS choose the
  task to go on with, and resumes that task. The abstract view is what each task would go on
  with (\<open>task_view\<close>).
\<close>

section \<open>Contexts\<close>

text \<open>
  A \<open>ucontext_t\<close>: the members the code sets and the saved registers, which stay opaque. The
  signals a context blocks are a predicate on their numbers.
\<close>

record 'r ucontext =
  ss_sp :: nat
  ss_size :: nat
  ss_flags :: int
  uc_link :: "nat option"
  uc_sigmask :: "nat \<Rightarrow> bool"
  uc_regs :: 'r

text \<open>
  The state of the tap driver, what the processor runs at the moment, pico]OS's current task
  and the \<open>ucontext\<close> in every task structure, and the variable \<open>sigContext\<close>.
\<close>

record ('w, 'r) sig_sys = "'w tap_sys" +
  cpu :: "'r ucontext"
  posCurrentTask_g :: nat
  task_ucontext :: "nat \<Rightarrow> 'r ucontext"
  sigContext :: "'r ucontext"

text \<open>
  The host and pico]OS: address and size of the array \<open>sigStack\<close>, the registers
  \<open>makecontext\<close> prepares for \<open>ioReadyContext\<close>, whether \<open>setcontext\<close> succeeds, and the
  two ends of an interrupt.
\<close>

record ('w, 'r) hostx =
  sigStack :: nat
  sizeof_sigStack :: nat
  entry_regs :: "'r ucontext \<Rightarrow> 'r"
  setcontext_works :: "'r ucontext \<Rightarrow> bool"
  c_pos_intEnter :: "('w, 'r) sig_sys \<Rightarrow> ('w, 'r) sig_sys"
  c_pos_intExit :: "('w, 'r) sig_sys \<Rightarrow> ('w, 'r) sig_sys"

text \<open>
  The calls of the host: \<open>getcontext\<close> stores the running context, \<open>makecontext\<close> prepares a
  context to start the handler, \<open>swapcontext\<close> stores the running context with the current
  task and runs the other one, \<open>setcontext\<close> runs a context and returns only when it fails.
\<close>

definition makecontext :: "('w, 'r) hostx \<Rightarrow> 'r ucontext \<Rightarrow> 'r ucontext" where
  "makecontext H c = c\<lparr>uc_regs := entry_regs H c\<rparr>"

definition swapcontext_task :: "'r ucontext \<Rightarrow> ('w, 'r) sig_sys \<Rightarrow> ('w, 'r) sig_sys" where
  "swapcontext_task c s =
     s\<lparr>task_ucontext := (task_ucontext s)(posCurrentTask_g s := cpu s), cpu := c\<rparr>"

section \<open>The handler\<close>

definition ioReady :: "('w, 'r) hostx \<Rightarrow> ('w, 'r) sig_sys \<Rightarrow> ('w, 'r) sig_sys" where
  "ioReady H s =
     (let c = cpu s;
          c = c\<lparr>ss_sp := sigStack H\<rparr>;
          c = c\<lparr>ss_size := sizeof_sigStack H\<rparr>;
          c = c\<lparr>ss_flags := 0\<rparr>;
          c = c\<lparr>uc_link := None\<rparr>;
          c = c\<lparr>uc_sigmask := \<lambda>_. True\<rparr>;
          c = makecontext H c
      in swapcontext_task c (s\<lparr>sigContext := c\<rparr>))"

text \<open>The function \<open>ioReadyContext\<close>, with the interrupt around the signal and the switch back.\<close>

definition ioReadyContext_full :: "('w, 'r) hostx \<Rightarrow> ('w, 'r) sig_sys \<Rightarrow> ('w, 'r) sig_sys res" where
  "ioReadyContext_full H s =
     (let s = c_pos_intEnter H s
      in rbind (ioReadyContext s) (\<lambda>s.
         let s = c_pos_intExit H s;
             c = task_ucontext s (posCurrentTask_g s)
         in if setcontext_works H c then Inr (s\<lparr>cpu := c\<rparr>) else Inl AssertFail))"

definition on_signal :: "('w, 'r) hostx \<Rightarrow> ('w, 'r) sig_sys \<Rightarrow> ('w, 'r) sig_sys res" where
  "on_signal H s = ioReadyContext_full H (ioReady H s)"

section \<open>No task notices\<close>

text \<open>
  What pico]OS promises: entering an interrupt changes nothing the model sees, leaving it at
  most the choice of the current task.
\<close>

definition int_ok :: "('w, 'r) hostx \<Rightarrow> bool" where
  "int_ok H \<longleftrightarrow> (\<forall>s. c_pos_intEnter H s = s) \<and>
     (\<forall>s. c_pos_intExit H s = s\<lparr>posCurrentTask_g := posCurrentTask_g (c_pos_intExit H s)\<rparr>)"

definition task_view :: "('w, 'r) sig_sys \<Rightarrow> nat \<Rightarrow> 'r ucontext" where
  "task_view s t = (if t = posCurrentTask_g s then cpu s else task_ucontext s t)"

text \<open>While the handler runs it has its own stack and no signal can interrupt it.\<close>

lemma ioReady_context:
  "ss_sp (cpu (ioReady H s)) = sigStack H \<and> ss_size (cpu (ioReady H s)) = sizeof_sigStack H \<and>
   (\<forall>n. uc_sigmask (cpu (ioReady H s)) n) \<and> cpu (ioReady H s) = sigContext (ioReady H s) \<and>
   task_ucontext (ioReady H s) (posCurrentTask_g s) = cpu s \<and>
   tap_sys.truncate (ioReady H s) = tap_sys.truncate s"
  by (simp add: ioReady_def swapcontext_task_def makecontext_def Let_def tap_sys.truncate_def)

lemma on_signal_cases:
  assumes "int_ok H" and "on_signal H s = Inr s'"
  shows "\<exists>t. s' = (ioReady H s)\<lparr>sema_count := sema_count s + 1, posCurrentTask_g := t,
      cpu := task_ucontext (ioReady H s) t\<rparr>"
proof -
  let ?s1 = "ioReady H s"
  let ?s2 = "?s1\<lparr>sema_count := sema_count s + 1\<rparr>"
  have p: "sema_count ?s1 = sema_count s"
    by (simp add: ioReady_def swapcontext_task_def Let_def)
  have e: "c_pos_intExit H ?s2 = ?s2\<lparr>posCurrentTask_g := posCurrentTask_g (c_pos_intExit H ?s2)\<rparr>"
    using assms(1) unfolding int_ok_def by blast
  have "s' = (c_pos_intExit H ?s2)\<lparr>cpu := task_ucontext (c_pos_intExit H ?s2) (posCurrentTask_g (c_pos_intExit H ?s2))\<rparr>"
    using assms p by (auto simp: on_signal_def ioReadyContext_full_def ioReadyContext_def int_ok_def
        Let_def split: if_splits)
  then show ?thesis by (subst (asm) (1 2) e) (auto intro!: exI [of _ "posCurrentTask_g (c_pos_intExit H ?s2)"])
qed

lemma on_signal_total:
  assumes "int_ok H" and "\<And>c. setcontext_works H c" and "pollSema s \<noteq> None"
  shows "\<exists>s'. on_signal H s = Inr s'"
proof -
  have "pollSema (ioReady H s) = pollSema s" by (simp add: ioReady_def swapcontext_task_def Let_def)
  with assms show ?thesis
    by (auto simp: on_signal_def ioReadyContext_full_def ioReadyContext_def int_ok_def Let_def)
qed

end
