(* ===== verification/Tapif_Properties.thy ===== *)
theory Tapif_Properties
  imports Tap_Signal
begin

text \<open>
  What \<open>netif/tapif.c\<close> promises: frames go out and come in unchanged, the polling thread
  empties the device and keeps no packet, no wake-up is lost, every frame is read and the
  signal handler is invisible to the tasks; and where it breaks: packets
  longer than the frame buffer, read errors, a failed write. \<open>ex_tap\<close> is a small host: a
  list of frames to read, a list of frames written and the number of packets held.
\<close>

section \<open>An instance\<close>

type_synonym ex_dev = "u8 list list \<times> u8 list list \<times> nat"

definition ex_pbuf :: "nat \<Rightarrow> pbuf" where
  "ex_pbuf n = \<lparr>chain = [\<lparr>seg_mem = replicate (n + 16) 0, payload = 0, seg_len = n\<rparr>], tot_len = n\<rparr>"

definition ex_eth :: "ex_dev ethx" where
  "ex_eth =
     \<lparr> ETH_PAD_SIZE = 2, PPPOE_SUPPORT = False, ETHTYPE_IP = 0x0800, ETHTYPE_IPV6 = 0x86DD,
       ETHTYPE_ARP = 0x0806, ETHTYPE_PPPOEDISC = 0x8863, ETHTYPE_PPPOE = 0x8864, eth_type_off = 14,
       pbuf_header = (\<lambda>k p. if k < 0 then lower (nat (- k)) p else raise_hdr (nat k) p),
       pbuf_alloc = (\<lambda>n (q, s, h). (Some (ex_pbuf (unat n)), (q, s, Suc h))),
       pbuf_free = (\<lambda>_ (q, s, h). (q, s, h - 1)),
       netif_input = (\<lambda>_ (q, s, h). (ERR_OK, (q, s, h - 1))),
       LINK_STATS_INC = (\<lambda>_ w. w) \<rparr>"

definition ex_tap :: "ex_dev tapx" where
  "ex_tap =
     \<lparr> tap_eth = ex_eth,
       tap_read = (\<lambda>n buf (q, s, h). case q of [] \<Rightarrow> (- 1, True, buf, (q, s, h))
         | f # fs \<Rightarrow> (int (length (take n f)), False, splice buf 0 (take n f), (fs, s, h))),
       tap_write = (\<lambda>bs (q, s, h). (int (length bs), (q, s @ [bs], h))),
       ethBuf_init = (\<lambda>_. replicate 1514 0xAA),
       tap_semaWait = (\<lambda>_ w. (0, w)), tap_MS = (\<lambda>t. t) \<rparr>"

abbreviation ex_held :: "ex_dev \<Rightarrow> nat" where "ex_held w \<equiv> snd (snd w)"

lemma lower_0: "chain p = q # qs \<Longrightarrow> lower 0 p = p" "chain p = q # qs \<Longrightarrow> raise_hdr 0 p = p"
  by (cases p; simp add: lower_def raise_hdr_def)+

lemma ex_header_ok: "header_ok ex_eth"
  by (auto simp: header_ok_def ex_eth_def lower_0)

lemma ex_tap_ok: "tap_ok ex_tap ex_held fst"
proof -
  have "stack_ok ex_eth ex_held fst" by (auto simp: stack_ok_def ex_eth_def)
  moreover have "pool_ok ex_eth ex_held fst"
    by (auto simp: pool_ok_def ex_eth_def ex_pbuf_def pbuf_ok_def seg_ok_def type_readable_def)
  moreover have "read_ok ex_tap ex_held fst"
    by (auto simp: read_ok_def ex_tap_def split: list.splits)
  moreover have "ETH_PAD_SIZE ex_eth < 64" by (simp add: ex_eth_def)
  ultimately show ?thesis
    using ex_header_ok by (auto simp: tap_ok_def ex_tap_def)
qed

text \<open>An ARP packet of 20 bytes behind the padding word, in two segments.\<close>

definition ex_frame :: "u8 list" where
  "ex_frame = replicate 12 7 @ [0x08, 0x06, 1, 2, 3, 4, 5, 6]"

definition ex_packet :: pbuf where
  "ex_packet =
     \<lparr> chain = [\<lparr>seg_mem = [0, 0] @ take 13 ex_frame, payload = 0, seg_len = 15\<rparr>,
         \<lparr>seg_mem = drop 13 ex_frame, payload = 0, seg_len = 7\<rparr>], tot_len = 22 \<rparr>"

lemma ex_packet_padded: "padded ex_eth ex_packet"
  by (simp add: padded_def pbuf_ok_def ex_packet_def seg_ok_def ex_eth_def ex_frame_def)

lemma ex_packet_bytes: "drop 2 (chain_bytes (chain ex_packet)) = ex_frame"
  by (simp add: ex_packet_def seg_bytes_def ex_frame_def)

section \<open>Sending\<close>

text \<open>C21: Sending a packet whose frame (the packet without its padding word) fits the 1514 byte
  buffer writes exactly the frame's bytes, in order and whatever the segments; on success the
  packet is as before, otherwise \<open>ERR_IF\<close> is returned and the padding word stays dropped. A
  longer packet is written past the end of the buffer.\<close>

theorem tap_send_correct:
  assumes "header_ok (tap_eth T)" and "length (ethBuf_init T w) = 1514" and "padded (tap_eth T) p"
  shows "if tot_len p - ETH_PAD_SIZE (tap_eth T) \<le> 1514 then
      (case tap_write T (drop (ETH_PAD_SIZE (tap_eth T)) (chain_bytes (chain p))) w of (r, w') \<Rightarrow>
        tap_lowLevelOutput T p w =
          (if r = - 1 then Inr (ERR_IF, lower (ETH_PAD_SIZE (tap_eth T)) p, w')
           else Inr (ERR_OK, p, LINK_STATS_INC (tap_eth T) Xmit w')))
    else tap_lowLevelOutput T p w = Inl OutOfBounds"
proof -
  let ?k = "ETH_PAD_SIZE (tap_eth T)"
  have p: "pbuf_ok p" "?k \<le> seg_len (hd (chain p))" using assms(3) by (simp_all add: padded_def)
  note d = drop_pad_lower [OF assms(1,3)]
  note l = lower_facts [OF p]
  have segs: "\<forall>q \<in> set (chain (lower ?k p)). seg_ok q" "tot_len (lower ?k p) = chain_len (chain (lower ?k p))"
    using l(1) by (simp_all add: pbuf_ok_def)
  have r: "reclaim_pad (tap_eth T) (lower ?k p) = p" by (rule reclaim_lower [OF assms(1,3)])
  show ?thesis
  proof (cases "tot_len p - ?k \<le> 1514")
    case True
    let ?bs = "chain_bytes (chain (lower ?k p))"
    have len: "length ?bs = tot_len (lower ?k p)" "tot_len (lower ?k p) \<le> 1514"
      using length_chain_bytes [OF segs(1)] segs(2) l(3) True by simp_all
    have g: "gather (chain (lower ?k p)) 0 (ethBuf_init T w) = Inr (splice (ethBuf_init T w) 0 ?bs)"
      using gather_ok [OF segs(1), of 0 "ethBuf_init T w"] segs(2) len assms(2) by simp
    have "rd_n (splice (ethBuf_init T w) 0 ?bs) 0 (tot_len (lower ?k p)) = Inr ?bs"
      using splice_same [of 0 ?bs "ethBuf_init T w"] len assms(2) by (simp add: rd_n_def)
    with True g r l(2) show ?thesis
      by (auto simp: tap_lowLevelOutput_def d Let_def split: prod.splits)
  next
    case False
    then have "gather (chain (lower ?k p)) 0 (ethBuf_init T w) = Inl OutOfBounds"
      using gather_overflow [OF segs(1), of 0 "ethBuf_init T w"] segs(2) l(3) assms(2) by simp
    with False show ?thesis by (simp add: tap_lowLevelOutput_def d)
  qed
qed

theorem tap_send_correct_witness:
  "tap_lowLevelOutput ex_tap ex_packet ([], [], 0) = Inr (ERR_OK, ex_packet, ([], [ex_frame], 0)) \<and>
   tap_lowLevelOutput ex_tap (ex_pbuf 1517) ([], [], 0) = Inl OutOfBounds"
proof -
  have h: "header_ok (tap_eth ex_tap)" "length (ethBuf_init ex_tap ([], [], 0)) = 1514"
    "padded (tap_eth ex_tap) ex_packet" "padded (tap_eth ex_tap) (ex_pbuf 1517)"
    using ex_header_ok ex_packet_padded
    by (simp_all add: ex_tap_def padded_def pbuf_ok_def ex_pbuf_def seg_ok_def ex_eth_def)
  have e: "ETH_PAD_SIZE (tap_eth ex_tap) = 2" "tot_len ex_packet = 22" "tot_len (ex_pbuf 1517) = 1517"
    by (simp_all add: ex_tap_def ex_eth_def ex_packet_def ex_pbuf_def)
  from tap_send_correct [OF h(1,2,3)] tap_send_correct [OF h(1,2,4)] show ?thesis
    unfolding e ex_packet_bytes by (simp add: ex_tap_def ex_eth_def)
qed

section \<open>Receiving\<close>

text \<open>C22: Receiving from an empty device yields nothing and changes nothing; otherwise it takes
  the oldest frame and yields a well-formed packet whose bytes behind the padding word are
  the frame's (cut off at 1514 bytes), or, when lwIP has no memory, nothing.\<close>

theorem tap_receive_correct:
  assumes "tap_ok T held queue"
  shows "case queue w of
      [] \<Rightarrow> tap_lowLevelInput T w = Inr (None, w)
    | f # fs \<Rightarrow> \<exists>po w'. tap_lowLevelInput T w = Inr (po, w') \<and> queue w' = fs \<and>
        (case po of None \<Rightarrow> held w' = held w
         | Some p \<Rightarrow> held w' = Suc (held w) \<and> padded (tap_eth T) p \<and>
             tot_len p = length (take 1514 f) + ETH_PAD_SIZE (tap_eth T) \<and>
             drop (ETH_PAD_SIZE (tap_eth T)) (chain_bytes (chain p)) = take 1514 f)"
proof (cases "queue w")
  case Nil
  with tap_receive_empty [OF assms Nil] show ?thesis by simp
next
  case (Cons f fs)
  from tap_receive_frame [OF assms Cons] show ?thesis
    unfolding Cons by (fastforce split: option.splits)
qed

theorem tap_receive_correct_witness:
  "\<exists>p w'. tap_lowLevelInput ex_tap ([ex_frame], [], 0) = Inr (Some p, w') \<and>
    drop 2 (chain_bytes (chain p)) = ex_frame \<and> tot_len p = 22"
proof -
  have l: "take 1514 ex_frame = ex_frame" "length ex_frame = 20" by (simp_all add: ex_frame_def)
  have e: "ETH_PAD_SIZE (tap_eth ex_tap) = 2" by (simp add: ex_tap_def ex_eth_def)
  from tap_receive_correct [OF ex_tap_ok, of "([ex_frame], [], 0)"] obtain po w'
    where r: "tap_lowLevelInput ex_tap ([ex_frame], [], 0) = Inr (po, w')" "fst w' = []"
      "case po of None \<Rightarrow> ex_held w' = 0
         | Some p \<Rightarrow> ex_held w' = 1 \<and> tot_len p = 22 \<and> drop 2 (chain_bytes (chain p)) = ex_frame"
    unfolding e by (fastforce simp: l split: option.splits)
  have "po \<noteq> None"
    using r(1) by (auto simp: tap_lowLevelInput_def ex_tap_def ex_eth_def Let_def rbind_eq_Inr_iff)
  with r show ?thesis by (cases w') auto
qed





text \<open>C36: Every packet the tap driver hands to lwIP, to take or to free, is well-formed: its
  segments lie in their memory and add up to its length, the first one holds the padding word,
  and the Ethernet type can be read. An lwIP that treats any other packet differently makes no
  difference to a call.\<close>

theorem tap_packets_typed:
  assumes "tap_ok T held queue"
    and "\<And>p. padded (tap_eth T) p \<Longrightarrow> type_readable (tap_eth T) p \<Longrightarrow>
      f p = netif_input (tap_eth T) p \<and> g p = pbuf_free (tap_eth T) p"
  shows "tapIfInput (T\<lparr>tap_eth := lwip_with f g (tap_eth T)\<rparr>) w = tapIfInput T w"
proof -
  have same: "tap_lowLevelInput (T\<lparr>tap_eth := lwip_with f g (tap_eth T)\<rparr>) = tap_lowLevelInput T"
    by (simp add: tap_lowLevelInput_def fun_eq_iff split_beta Let_def cong: if_cong option.case_cong)
  have "\<exists>po w'. tap_lowLevelInput T w = Inr (po, w') \<and>
      (case po of None \<Rightarrow> True | Some p \<Rightarrow> padded (tap_eth T) p \<and> type_readable (tap_eth T) p)"
  proof (cases "queue w")
    case Nil
    with tap_receive_empty [OF assms(1) Nil] show ?thesis by simp
  next
    case (Cons q qs)
    from tap_receive_frame [OF assms(1) Cons] show ?thesis by (fastforce split: option.splits)
  qed
  then obtain po w' where r: "tap_lowLevelInput T w = Inr (po, w')"
    "case po of None \<Rightarrow> True | Some p \<Rightarrow> padded (tap_eth T) p \<and> type_readable (tap_eth T) p" by blast
  have "case po of None \<Rightarrow> True | Some p \<Rightarrow> f p = netif_input (tap_eth T) p \<and> g p = pbuf_free (tap_eth T) p"
    using r(2) assms(2) by (auto split: option.splits)
  from input_with [where receive = "tap_lowLevelInput T", OF r(1) this] show ?thesis
    by (simp add: tapIfInput_def same)
qed

text \<open>An lwIP that loses count on malformed packets.\<close>

definition ex_picky :: "pbuf \<Rightarrow> ex_dev \<Rightarrow> ex_dev" where
  "ex_picky p w = (if padded ex_eth p then pbuf_free ex_eth p w else (fst w, fst (snd w), 99))"

theorem tap_packets_typed_witness:
  "tapIfInput (ex_tap\<lparr>tap_eth := lwip_with (netif_input ex_eth) ex_picky ex_eth\<rparr>) ([replicate 20 0], [], 0) =
    tapIfInput ex_tap ([replicate 20 0], [], 0)"
proof -
  have e: "tap_eth ex_tap = ex_eth" by (simp add: ex_tap_def)
  show ?thesis
    using tap_packets_typed [OF ex_tap_ok, of "netif_input ex_eth" ex_picky "([replicate 20 0], [], 0)"]
    by (simp add: e ex_picky_def fun_eq_iff)
qed

text \<open>A read error other than \<open>EAGAIN\<close> is taken for a packet of length -1: with no padding
  word lwIP is asked for 65535 bytes, and when it has them the copying loop reads past the
  end of the 1514 byte buffer.\<close>

theorem tap_read_error_overrun:
  assumes "ETH_PAD_SIZE (tap_eth T) = 0"
    and "tap_read T 1514 (ethBuf_init T w) w = (- 1, False, buf, w')" and "length buf = 1514"
    and "pbuf_alloc (tap_eth T) 65535 w' = (Some p, w'')" and "pbuf_ok p" and "tot_len p = 65535"
  shows "tap_lowLevelInput T w = Inl OutOfBounds"
proof -
  have "scatter (chain p) 0 buf = Inl OutOfBounds"
    using assms(3,5,6) scatter_overrun [of "chain p" buf 0] by (simp add: pbuf_ok_def)
  moreover have e: "(65535 :: u16) = - 1" by simp
  ultimately show ?thesis
    using assms(1,2) assms(4) [unfolded e] by (simp add: tap_lowLevelInput_def drop_pad_def)
qed

theorem tap_read_error_overrun_witness:
  "tap_lowLevelInput (ex_tap\<lparr>tap_eth := ex_eth\<lparr>ETH_PAD_SIZE := 0\<rparr>,
     tap_read := \<lambda>n buf w. (- 1, False, buf, w)\<rparr>) ([], [], 0) = Inl OutOfBounds"
proof -
  let ?T = "ex_tap\<lparr>tap_eth := ex_eth\<lparr>ETH_PAD_SIZE := 0\<rparr>, tap_read := \<lambda>n buf w. (- 1, False, buf, w)\<rparr>"
  have h: "ETH_PAD_SIZE (tap_eth ?T) = 0"
    "tap_read ?T 1514 (ethBuf_init ?T ([], [], 0)) ([], [], 0) = (- 1, False, replicate 1514 0xAA, ([], [], 0))"
    "pbuf_alloc (tap_eth ?T) 65535 ([], [], 0) = (Some (ex_pbuf 65535), ([], [], 1))"
    by (simp_all add: ex_tap_def ex_eth_def)
  have p: "pbuf_ok (ex_pbuf 65535)" "tot_len (ex_pbuf 65535) = 65535"
    by (simp_all add: ex_pbuf_def pbuf_ok_def seg_ok_def)
  show ?thesis by (rule tap_read_error_overrun [OF h(1,2) _ h(3) p]) simp
qed

section \<open>The polling thread\<close>

text \<open>A round of the polling thread ends, without a fault, whatever the thread is woken
  with: its inner loop makes at most one more call than there are frames in the device, and
  afterwards the driver holds exactly the packets it held before (every received packet was
  taken by lwIP or freed).\<close>

theorem tap_round_ends:
  assumes "tap_ok T held queue" and "tap_semaWait T (tap_MS T 1000) w = (r, w1)"
    and "length (queue w1) < n"
  shows "\<exists>w'. tapThread_round T n w = Some (Inr w') \<and> held w' = held w1 \<and>
    length (queue w') \<le> length (queue w1)"
proof -
  have "tap_inv T held queue w1" using assms(1) by (simp add: tap_inv_def)
  from tap.drain_ends [OF this assms(3)] assms(2) show ?thesis
    by (auto simp: tapThread_round_def tapIfInput_def [abs_def])
qed

theorem tap_round_ends_witness:
  "\<exists>w'. tapThread_round ex_tap 3 ([ex_frame, [1, 2, 3]], [], 0) = Some (Inr w') \<and> ex_held w' = 0"
proof -
  have "tap_semaWait ex_tap (tap_MS ex_tap 1000) ([ex_frame, [1, 2, 3]], [], 0) =
    (0, ([ex_frame, [1, 2, 3]], [], 0))" by (simp add: ex_tap_def)
  from tap_round_ends [OF ex_tap_ok this, of 3] show ?thesis by auto
qed

text \<open>C20: No wake-up is lost: in every interleaving of arriving frames (each signalled once by
  the handler), the thread's waits, time-outs and polls, when memory does not run out, a
  thread that waits while a frame is in the device has a signal that wakes it at once.\<close>

theorem no_lost_wakeup:
  assumes "tap_ok T held queue" and "\<And>n w. fst (pbuf_alloc (tap_eth T) n w) \<noteq> None"
    and "tap_reach T queue s" and "\<not> polling s" and "queue (dev s) \<noteq> []"
  shows "tap_step T queue s (s\<lparr>sema_count := sema_count s - 1, polling := True\<rparr>) \<and> 0 < sema_count s"
proof -
  have "0 < sema_count s" using wake_inv_reach [OF assms(1-3)] assms(4,5) by (simp add: wake_inv_def)
  with tap_step.Thread [OF tap_thread.Wakeup [OF assms(4) this]] show ?thesis by blast
qed

definition ex_sys :: "nat \<Rightarrow> u8 list list \<Rightarrow> ex_dev tap_sys" where
  "ex_sys c fs = \<lparr>pollSema = Some 1, sema_count = c, polling = False, dev = (fs, [], 0)\<rparr>"

theorem no_lost_wakeup_witness:
  "tap_reach ex_tap fst (ex_sys 2 [ex_frame]) \<and> 0 < sema_count (ex_sys 2 [ex_frame])"
proof -
  have s: "tap_reach ex_tap fst (ex_sys 1 [])" by (rule tap_reach.Start) (simp_all add: ex_sys_def)
  have "tap_step ex_tap fst (ex_sys 1 []) (ex_sys 2 [ex_frame])"
    by (rule tap_step.Signal [where f = ex_frame], rule tap_arrive.Arrive [where w = "([ex_frame], [], 0)"])
      (simp_all add: ex_sys_def ioReadyContext_def)
  with s have r: "tap_reach ex_tap fst (ex_sys 2 [ex_frame])" by (rule tap_reach.Step)
  have m: "fst (pbuf_alloc (tap_eth ex_tap) n w) \<noteq> None" for n w
    by (cases w) (simp add: ex_tap_def ex_eth_def)
  have "\<not> polling (ex_sys 2 [ex_frame])" "fst (dev (ex_sys 2 [ex_frame])) \<noteq> []"
    by (simp_all add: ex_sys_def)
  with no_lost_wakeup [OF ex_tap_ok m r] r show ?thesis by blast
qed

text \<open>C14: Every frame is read: in every interleaving of arriving frames and steps of the polling
  thread, when memory does not run out, one more step of the thread than there were frames in
  the device at the start reads all of them, oldest first and whatever arrives meanwhile; and
  the thread can always take a step.\<close>

theorem frames_are_read:
  assumes "tap_ok T held queue" and "\<And>n w. fst (pbuf_alloc (tap_eth T) n w) \<noteq> None"
    and "tap_run T queue s es s'" and "length (queue (dev s)) < count_list es Thread_step"
  shows "(\<exists>k. length (queue (dev s)) \<le> k \<and>
      queue (dev s') = drop k (queue (dev s) @ arrivals es)) \<and> (\<exists>s''. tap_thread T s' s'')"
proof -
  from tap_run_reads [OF assms(1-3)] obtain k where
    k: "queue (dev s') = drop k (queue (dev s) @ arrivals es)" "k < length (queue (dev s)) \<longrightarrow>
      count_list es Thread_step + (if polling s then 1 else 0) \<le> k + (if polling s' then 1 else 0)"
    by blast
  have "length (queue (dev s)) \<le> k"
    using k(2) assms(4) by (cases "polling s'") (auto simp: not_le)
  with k(1) tap_thread_enabled [OF assms(1), of s'] show ?thesis by blast
qed

theorem frames_are_read_witness:
  "\<exists>s'. tap_run ex_tap fst (ex_sys 1 [ex_frame]) [Thread_step, Thread_step] s' \<and> fst (dev s') = []"
proof -
  have m: "fst (pbuf_alloc (tap_eth ex_tap) n w) \<noteq> None" for n w
    by (cases w) (simp add: ex_tap_def ex_eth_def)
  obtain s1 where "tap_thread ex_tap (ex_sys 1 [ex_frame]) s1"
    using tap_thread_enabled [OF ex_tap_ok] by blast
  moreover obtain s2 where "tap_thread ex_tap s1 s2" using tap_thread_enabled [OF ex_tap_ok] by blast
  ultimately have r: "tap_run ex_tap fst (ex_sys 1 [ex_frame]) [Thread_step, Thread_step] s2"
    using tap_run.Moves [OF tap_run.Moves [OF tap_run.Begin]] by fastforce
  have "length (fst (dev (ex_sys 1 [ex_frame]))) < count_list [Thread_step, Thread_step] Thread_step"
    by (simp add: ex_sys_def)
  from frames_are_read [OF ex_tap_ok m r this] r show ?thesis by (auto simp: ex_sys_def)
qed

section \<open>The signal handler\<close>

text \<open>C26: A signal is invisible to the tasks: the handler, with its switches of contexts, does to
  the driver exactly one signal of the semaphore (it implements the atomic step of the
  interleaving model), runs on its own stack with all signals blocked, and leaves every task,
  the interrupted one and whichever pico]OS resumes, with the context it would have gone on
  with; the assertion behind the switch is never reached.\<close>

theorem signal_implements_step:
  assumes "int_ok H" and "\<And>c. setcontext_works H c" and "pollSema s \<noteq> None"
  shows "\<exists>s'. on_signal H s = Inr s' \<and> task_view s' = task_view s \<and>
    ioReadyContext (tap_sys.truncate s) = Inr (tap_sys.truncate s') \<and>
    cpu s' = task_ucontext s' (posCurrentTask_g s') \<and>
    ss_sp (cpu (ioReady H s)) = sigStack H \<and> (\<forall>n. uc_sigmask (cpu (ioReady H s)) n)"
proof -
  from on_signal_total [OF assms] obtain s' where s': "on_signal H s = Inr s'" by blast
  from on_signal_cases [OF assms(1) s'] obtain t where t: "s' = (ioReady H s)\<lparr>sema_count := sema_count s + 1,
    posCurrentTask_g := t, cpu := task_ucontext (ioReady H s) t\<rparr>" by blast
  have "task_ucontext (ioReady H s) = (task_ucontext s)(posCurrentTask_g s := cpu s)"
    by (simp add: ioReady_def swapcontext_task_def Let_def)
  then have "task_view s' = task_view s" by (auto simp: t task_view_def)
  moreover have "ioReadyContext (tap_sys.truncate s) = Inr (tap_sys.truncate s')"
    using assms(3) ioReady_context [of H s]
    by (simp add: t ioReadyContext_def tap_sys.truncate_def)
  ultimately show ?thesis using s' ioReady_context [of H s] by (auto simp: t)
qed

text \<open>A host whose interrupts always go on with task 7.\<close>

definition ex_host :: "(ex_dev, nat) hostx" where
  "ex_host = \<lparr>sigStack = 4096, sizeof_sigStack = 2048, entry_regs = (\<lambda>_. 99), setcontext_works = (\<lambda>_. True),
     c_pos_intEnter = (\<lambda>s. s), c_pos_intExit = (\<lambda>s. s\<lparr>posCurrentTask_g := 7\<rparr>)\<rparr>"

definition ex_context :: "nat \<Rightarrow> nat ucontext" where
  "ex_context r = \<lparr>ss_sp = r, ss_size = 300, ss_flags = 0, uc_link = None, uc_sigmask = (\<lambda>_. False), uc_regs = r\<rparr>"

definition ex_sig :: "(ex_dev, nat) sig_sys" where
  "ex_sig = tap_sys.extend (ex_sys 0 [ex_frame]) \<lparr>cpu = ex_context 3, posCurrentTask_g = 3,
     task_ucontext = ex_context, sigContext = ex_context 0\<rparr>"

theorem signal_implements_step_witness:
  "\<exists>s'. on_signal ex_host ex_sig = Inr s' \<and> task_view s' 3 = ex_context 3 \<and> sema_count s' = 1"
proof -
  have h: "int_ok ex_host" "setcontext_works ex_host c" "pollSema ex_sig \<noteq> None" for c
    by (simp_all add: int_ok_def ex_host_def ex_sig_def ex_sys_def tap_sys.extend_def)
  from signal_implements_step [OF h] obtain s' where s': "on_signal ex_host ex_sig = Inr s'"
    "task_view s' = task_view ex_sig" "ioReadyContext (tap_sys.truncate ex_sig) = Inr (tap_sys.truncate s')"
    by blast
  have "task_view ex_sig 3 = ex_context 3"
    by (simp add: task_view_def ex_sig_def tap_sys.extend_def)
  moreover have "sema_count s' = 1" using s'(3)
    by (simp add: ioReadyContext_def ex_sig_def ex_sys_def tap_sys.extend_def tap_sys.truncate_def)
  ultimately show ?thesis using s' by auto
qed

section \<open>Initialisation\<close>

lemma length_dec_byte: "n < 256 \<Longrightarrow> length (dec n) \<le> 3"
  by (simp add: dec.simps [of n] dec.simps [of "n div 10"] dec.simps [of "n div 10 div 10"])

lemma length_dotted: "length (dotted E a) \<le> 15"
proof -
  have "length (dec (unat (b :: u8))) \<le> 3" for b
    using unsigned_less [of b, where 'a = nat] by (intro length_dec_byte) simp
  from this [of "ip4_byte E 1 a"] this [of "ip4_byte E 2 a"] this [of "ip4_byte E 3 a"]
    this [of "ip4_byte E 4 a"] show ?thesis by (simp add: dotted_def)
qed

text \<open>The command the driver composes with \<open>sprintf\<close> fits its 80 byte buffer for every
  gateway and netmask (it never has more than 56 characters).\<close>

theorem ifconfig_fits:
  "\<exists>cmd. ifconfig_cmd E n = Inr cmd \<and> length cmd \<le> 56 \<and>
    cmd = ''ifconfig tap0 '' @ dotted E (gw n) @ '' '' @ ''netmask '' @ dotted E (netmask n) @ '' up''"
  using length_dotted [of E "gw n"] length_dotted [of E "netmask n"]
  by (simp add: ifconfig_cmd_def sprintf80_def)

text \<open>A successful initialisation enables the host's signals (the last \<open>fcntl\<close>) before it
  stores the semaphore the signal handler signals: after every prefix of its actions that
  ends between the two, a signal finds \<open>pollSema\<close> null.\<close>

theorem tap_init_signal_window:
  assumes "tapIfInit E (Some n) = Inr (ERR_OK, n', acts)"
  shows "\<exists>before. acts = before @ [FcntlSetfl (getfl_result E OR O_ASYNC E OR O_NONBLOCK E),
      SemaCreate 1 ''tap'', TaskCreate 10 300 ''cs'', SetPollSema (sema_result E)] \<and>
    (\<forall>s. SetPollSema s \<notin> set before) \<and>
    linkoutput n' = Some Tap_lowLevelOutput \<and> nif_state n' = mem_malloc E \<and> mtu n' = 1500 \<and>
    ioReadyContext \<lparr>pollSema = None, sema_count = 0, polling = False, dev = w\<rparr> = Inl NullDeref"
proof -
  from assms obtain h where m: "mem_malloc E = Some h" by (auto simp: tapIfInit_def split: option.splits)
  have "\<exists>cmd. ifconfig_cmd E n0 = Inr cmd" for n0
    using length_dotted [of E "gw n0"] length_dotted [of E "netmask n0"]
    by (simp add: ifconfig_cmd_def sprintf80_def)
  with assms m show ?thesis
    by (auto simp: tapIfInit_def tap_lowLevelInit_def Let_def rbind_eq_Inr_iff ioReadyContext_def
        split: if_splits)
qed

definition ex_env :: tap_env where
  "ex_env =
     \<lparr> env_debug_assert = True, mem_malloc = Some 5, env_IPV6 = False, NETIF_HOSTNAME = True,
       ETHARP_HWADDR_LEN = 6, FLAG_BROADCAST = 2, FLAG_ETHARP = 8, FLAG_LINK_UP = 4,
       P_ASSERT_on = True, open_result = 3, getfl_result = 2, sema_result = Some 9,
       ip4_byte = (\<lambda>i a. ucast (drop_bit (8 * (4 - i)) a)), O_ASYNC = 0x2000, O_NONBLOCK = 0x800 \<rparr>"

definition ex_netif :: netif where
  "ex_netif =
     \<lparr> gw = 0x0A000001, netmask = 0xFFFFFF00, hwaddr_len = 0, hwaddr = [], mtu = 0, nif_flags = 0,
       nif_name = [], hostname = None, nif_output = None, output_ip6 = None, linkoutput = None,
       nif_state = None \<rparr>"

theorem tap_init_signal_window_witness:
  "\<exists>n' acts. tapIfInit ex_env (Some ex_netif) = Inr (ERR_OK, n', acts) \<and> mtu n' = 1500 \<and>
    SetPollSema (Some 9) \<in> set acts"
proof -
  have e: "mem_malloc ex_env = Some 5" "open_result ex_env = 3" "NETIF_HOSTNAME ex_env"
    "\<not> env_IPV6 ex_env" by (simp_all add: ex_env_def)
  obtain cmd where "\<And>n0. gw n0 = gw ex_netif \<Longrightarrow> netmask n0 = netmask ex_netif \<Longrightarrow> ifconfig_cmd ex_env n0 = Inr cmd"
    using length_dotted [of ex_env "gw ex_netif"] length_dotted [of ex_env "netmask ex_netif"]
    by (simp add: ifconfig_cmd_def sprintf80_def)
  then obtain n' acts where i: "tapIfInit ex_env (Some ex_netif) = Inr (ERR_OK, n', acts)"
    by (simp add: tapIfInit_def tap_lowLevelInit_def e)
  have "sema_result ex_env = Some 9" by (simp add: ex_env_def)
  with tap_init_signal_window [OF i, where w = "()"] i show ?thesis by auto
qed

end
