(* ===== verification/Cs8900a_Properties.thy ===== *)
theory Cs8900a_Properties
  imports Cs8900a_Init Tapif_Properties
begin

text \<open>
  What \<open>netif/cs8900a_lpc_e2129.c\<close> promises: every access makes the bus cycles it means to,
  without a protocol violation and without touching pins of others; initialisation programs
  the chip; frames go out and come in unchanged; sending gives up after nine polls; and where
  it breaks, packets with a segment of odd length. \<open>ex_chip\<close> is a small chip for the
  witnesses: a pointer, the waiting frames and the frame being read; a second frame arrives
  while the driver polls it for the first time.
\<close>

section \<open>A small chip\<close>

record chip_state =
  ptr :: "u32 \<times> u32"
  waiting :: "u8 list list"
  later :: nat
  phase :: nat
  current :: "u8 list"
  answer :: u8

definition chip_data :: "u32 \<Rightarrow> chip_state \<Rightarrow> chip_state" where
  "chip_data a s =
     (if ptr s = (0x24, 0x01) then
        (if a = 12 then s\<lparr>phase := 0, current := [], answer := 0\<rparr>
         else s\<lparr>answer := (if waiting s = [] then 0 else 1),
           waiting := waiting s @ replicate (min 1 (later s)) ex_frame, later := later s - 1\<rparr>)
      else s\<lparr>answer := (if ptr s = (0x36, 0x01) \<and> a = 12 then 0x80
                       else if ptr s = (0x38, 0x01) \<and> a = 13 then 1 else 0)\<rparr>)"

definition chip_frame_port :: "chip_state \<Rightarrow> chip_state" where
  "chip_frame_port s =
     (if phase s < 2 then s\<lparr>phase := phase s + 1, answer := 0\<rparr>
      else if phase s = 2 then
        s\<lparr>phase := 3, answer := word_of_nat (length (hd (waiting s)) div 256)\<rparr>
      else if phase s = 3 then
        s\<lparr>phase := 4, answer := word_of_nat (length (hd (waiting s))), current := hd (waiting s),
          waiting := tl (waiting s)\<rparr>
      else s\<lparr>answer := hd (current s @ [0]), current := tl (current s)\<rparr>)"

fun chip_cyc :: "chip_state \<Rightarrow> cyc \<Rightarrow> chip_state" where
  "chip_cyc s (BusWrite a d) =
     (if a = 10 then s\<lparr>ptr := (d, snd (ptr s))\<rparr> else if a = 11 then s\<lparr>ptr := (fst (ptr s), d)\<rparr> else s)"
| "chip_cyc s (BusRead a) =
     (if a = 12 \<or> a = 13 then chip_data a s else if a = 0 \<or> a = 1 then chip_frame_port s else s)"
| "chip_cyc s BusFault = s"

definition chip_run :: "cyc list \<Rightarrow> chip_state" where
  "chip_run B = foldl chip_cyc \<lparr>ptr = (0, 0), waiting = [ex_frame], later = 1, phase = 0, current = [], answer = 0\<rparr> B"

definition ex_chip :: "cyc list \<Rightarrow> u8" where "ex_chip B = answer (chip_run B)"
definition ex_frames :: "cyc list \<Rightarrow> u8 list list" where "ex_frames B = waiting (chip_run B)"
definition ex_coming :: "cyc list \<Rightarrow> nat" where "ex_coming B = later (chip_run B)"

lemma chip_run_append: "chip_run (B @ cs) = foldl chip_cyc (chip_run B) cs"
  by (simp add: chip_run_def)

lemma chip_cyc_waiting: "set (waiting (chip_cyc s c)) \<subseteq> insert ex_frame (set (waiting s))"
  by (cases c; cases "waiting s") (auto simp: chip_data_def chip_frame_port_def)

lemma ex_frames_only: "set (ex_frames B) \<subseteq> {ex_frame}"
proof (induction B rule: rev_induct)
  case Nil
  then show ?case by (simp add: ex_frames_def chip_run_def)
next
  case (snoc c B)
  then show ?case
    using chip_cyc_waiting [of "chip_run B" c] by (auto simp: ex_frames_def chip_run_append)
qed

lemmas port_numbers = ADD_PORT_def DATA_PORT_def RX_FRAME_PORT_def TX_CMD_PORT_def TX_LEN_PORT_def
  TX_FRAME_PORT_def PP_RxEvent_def PP_RxCFG_def PP_BusST_def PP_SelfST_def PP_SelfCTL_def

text \<open>
  After a poll the chip's pointer is at \<open>RxEvent\<close>, no frame is being read, and the second frame
  has arrived.
\<close>

lemma chip_after_poll:
  "chip_run (B @ poll_cycles) = (chip_run B)\<lparr>ptr := (0x24, 0x01), phase := 0, current := [],
     answer := (if ex_frames B = [] then 0 else 1),
     waiting := ex_frames B @ replicate (min 1 (ex_coming B)) ex_frame, later := ex_coming B - 1\<rparr>"
  by (simp add: chip_run_append poll_cycles_def wr16_def rd16_def port_numbers chip_data_def ex_frames_def
      ex_coming_def)

lemma chip_poll_word: "rx_flag ex_chip B = (if ex_frames B = [] then 0 else 0x100)"
  by (simp add: rx_flag_def chip_word_def ex_chip_def chip_run_append wr16_def port_numbers chip_data_def
      ex_frames_def)

lemma chip_after_header:
  assumes "ex_frames (B @ poll_cycles) = f # fs"
  shows "chip_run (B @ poll_cycles @ header_cycles) = (chip_run (B @ poll_cycles))\<lparr>phase := 4,
     current := f, waiting := fs, answer := word_of_nat (length f)\<rparr>"
proof -
  have "waiting (chip_run (B @ poll_cycles)) = f # fs" "phase (chip_run (B @ poll_cycles)) = 0"
    using assms by (simp_all add: ex_frames_def chip_after_poll)
  then show ?thesis
    by (simp only: append_assoc [symmetric] chip_run_append [of "B @ poll_cycles"])
      (simp add: header_cycles_def rd16_hi_def port_numbers chip_frame_port_def)
qed

lemma chip_reads:
  "phase s = 4 \<Longrightarrow>
   waiting (foldl chip_cyc s (rx_reads n)) = waiting s \<and> phase (foldl chip_cyc s (rx_reads n)) = 4 \<and>
   later (foldl chip_cyc s (rx_reads n)) = later s \<and>
   current (foldl chip_cyc s (rx_reads n)) = drop n (current s) \<and>
   (\<forall>i. n = Suc i \<and> i < length (current s) \<longrightarrow> answer (foldl chip_cyc s (rx_reads n)) = current s ! i)"
proof (induction n)
  case 0
  then show ?case by (simp add: rx_reads_simps)
next
  case (Suc n)
  have "rx_reads (Suc n) = rx_reads n @ [BusRead (if even n then 0 else 1)]" by (simp add: rx_reads_def)
  with Suc show ?case
    by (auto simp: chip_frame_port_def drop_Suc tl_drop hd_append hd_drop_conv_nth)
qed

lemma ex_chip_frame:
  assumes "ex_frames (B @ poll_cycles) = f # fs"
  shows "length f \<le> 1518"
    "chip_word_hi ex_chip (B @ poll_cycles @ rd16_hi RX_FRAME_PORT) RX_FRAME_PORT = word_of_nat (length f)"
    "i < length f \<Longrightarrow> ex_chip (B @ poll_cycles @ header_cycles @ rx_reads (i + 1)) = f ! i"
    "grows ex_frames ex_coming fs (B @ poll_cycles) (B @ poll_cycles @ header_cycles @ rx_reads n)"
    "grows ex_frames ex_coming fs (B @ poll_cycles)
      (B @ poll_cycles @ header_cycles @ skip_cycles ex_chip (B @ poll_cycles @ header_cycles))"
proof -
  have f: "f = ex_frame" using ex_frames_only [of "B @ poll_cycles"] assms by auto
  then have lf: "length f = 20" by (simp add: ex_frame_def)
  then show "length f \<le> 1518" by simp
  note h = chip_after_header [OF assms]
  have run: "chip_run (B @ poll_cycles @ header_cycles @ cs) =
      foldl chip_cyc (chip_run (B @ poll_cycles @ header_cycles)) cs" for cs
    using chip_run_append [of "B @ poll_cycles @ header_cycles" cs] by simp
  have p: "phase (chip_run (B @ poll_cycles @ header_cycles)) = 4" unfolding h by simp
  note r = chip_reads [OF p, folded run]
  show "i < length f \<Longrightarrow> ex_chip (B @ poll_cycles @ header_cycles @ rx_reads (i + 1)) = f ! i"
    using r [of "i + 1"] by (simp add: ex_chip_def h)
  show "grows ex_frames ex_coming fs (B @ poll_cycles) (B @ poll_cycles @ header_cycles @ rx_reads n)"
    using r [of n] by (simp add: grows_def ex_frames_def ex_coming_def h)
  have q: "waiting (chip_run (B @ poll_cycles)) = f # fs" "phase (chip_run (B @ poll_cycles)) = 0"
    using assms by (simp_all add: ex_frames_def chip_after_poll)
  have "chip_run ((B @ poll_cycles) @ cs) = foldl chip_cyc (chip_run (B @ poll_cycles)) cs" for cs
    by (rule chip_run_append)
  with q lf show "chip_word_hi ex_chip (B @ poll_cycles @ rd16_hi RX_FRAME_PORT) RX_FRAME_PORT = word_of_nat (length f)"
    by (simp add: chip_word_hi_def ex_chip_def rd16_hi_def port_numbers chip_frame_port_def)
  show "grows ex_frames ex_coming fs (B @ poll_cycles)
      (B @ poll_cycles @ header_cycles @ skip_cycles ex_chip (B @ poll_cycles @ header_cycles))"
    unfolding grows_def ex_frames_def ex_coming_def run unfolding h
    by (simp add: skip_cycles_def wr16_def rd16_def port_numbers chip_data_def)
qed

lemma ex_chip_ok: "chip_ok ex_chip ex_frames ex_coming"
proof -
  have "grows ex_frames ex_coming (ex_frames B) B (B @ poll_cycles)" for B
    by (simp add: grows_def ex_frames_def [of "B @ poll_cycles"] ex_coming_def [of "B @ poll_cycles"] chip_after_poll)
  moreover have "rx_flag ex_chip B = 0 \<longrightarrow> ex_frames B = []" for B by (simp add: chip_poll_word)
  moreover have "rx_flag ex_chip B \<noteq> 0 \<longrightarrow> ex_frames (B @ poll_cycles) \<noteq> []" for B
    by (simp add: chip_poll_word ex_frames_def [of "B @ poll_cycles"] chip_after_poll)
  ultimately show ?thesis using ex_chip_frame unfolding chip_ok_def by blast
qed

section \<open>An instance of the driver\<close>

text \<open>The rest of the system is the number of packets held.\<close>

definition ex_cs_eth :: "nat lpc ethx" where
  "ex_cs_eth =
     \<lparr> ETH_PAD_SIZE = 2, PPPOE_SUPPORT = False, ETHTYPE_IP = 0x0800, ETHTYPE_IPV6 = 0x86DD,
       ETHTYPE_ARP = 0x0806, ETHTYPE_PPPOEDISC = 0x8863, ETHTYPE_PPPOE = 0x8864, eth_type_off = 14,
       pbuf_header = (\<lambda>k p. if k < 0 then lower (nat (- k)) p else raise_hdr (nat k) p),
       pbuf_alloc = (\<lambda>n st. (Some (ex_pbuf (unat n)), st\<lparr>rest := Suc (rest st)\<rparr>)),
       pbuf_free = (\<lambda>_ st. st\<lparr>rest := rest st - 1\<rparr>),
       netif_input = (\<lambda>_ st. (ERR_OK, st\<lparr>rest := rest st - 1\<rparr>)),
       LINK_STATS_INC = (\<lambda>_ st. st) \<rparr>"

definition ex_cs :: "nat csx" where
  "ex_cs = \<lparr>cs_eth = ex_cs_eth, IOPIN = (\<lambda>st. push_bit 16 (ucast (ex_chip (bus st)))),
     posTaskSleep = (\<lambda>_ st. st), cs_MS = (\<lambda>t. t)\<rparr>"

text \<open>The port as the processor leaves it after reset, and as the driver leaves it.\<close>

definition ex_reset :: "nat lpc" where
  "ex_reset = \<lparr>IODIR = 0, latch = 0, bus = [], rest = 0\<rparr>"

definition ex_idle :: "nat lpc" where
  "ex_idle = \<lparr>IODIR = SD_ALL OR IOR OR IOW OR SA_ALL, latch = IOR OR IOW, bus = [], rest = 0\<rparr>"

lemma ex_idle_idle: "idle ex_idle"
  using all_out [of 0] by (simp add: ex_idle_def idle_def strobes_high_def pin_bits)

lemma ex_pin_ok: "pin_ok (IOPIN ex_cs) ex_chip"
proof -
  have "data_of (push_bit 16 (ucast b)) = ucast (b :: u8)" for b
    using set_data(1) [of 0 "ucast b"] by (simp add: ucast_u8 data_of_def)
  then show ?thesis by (simp add: pin_ok_def ex_cs_def)
qed

lemma ex_pbuf_even:
  fixes n :: u16
  assumes "2 \<le> unat n"
  shows "even_chain (chain (lower 2 (ex_pbuf (unat n)))) \<and>
    (\<forall>q \<in> set (chain (lower 2 (ex_pbuf (unat n)))). roomy q \<and> seg_len q < 65535)"
proof -
  have "unat n < 65536" using unsigned_less [of n, where 'a = nat] by simp
  moreover have "even_up (unat n - 2) \<le> unat n - 1" using even_up_ge(2) [of "unat n - 2"] assms by simp
  ultimately show ?thesis by (auto simp: ex_pbuf_def lower_def even_chain_def roomy_def)
qed

lemma ex_cs_ok: "cs_ok ex_cs ex_chip ex_frames ex_coming (\<lambda>h. h)"
proof -
  have hdr: "header_ok ex_cs_eth" by (auto simp: header_ok_def ex_cs_eth_def lower_0)
  have "pool_ok ex_cs_eth (\<lambda>st. rest st) (\<lambda>st. ex_frames (bus st))"
    by (auto simp: pool_ok_def ex_cs_eth_def ex_pbuf_def pbuf_ok_def seg_ok_def type_readable_def)
  moreover have "stack_ok ex_cs_eth (\<lambda>st. rest st) (\<lambda>st. ex_frames (bus st))"
    by (auto simp: stack_ok_def ex_cs_eth_def)
  moreover have "io_frame ex_cs_eth" by (simp add: io_frame_def same_io_def ex_cs_eth_def)
  moreover have "even_pool ex_cs_eth"
    unfolding even_pool_def using ex_pbuf_even by (simp add: drop_pad_def ex_cs_eth_def)
  moreover have "ETH_PAD_SIZE ex_cs_eth < 64" by (simp add: ex_cs_eth_def)
  ultimately show ?thesis
    using hdr ex_pin_ok ex_chip_ok by (simp add: cs_ok_def) (simp add: ex_cs_def)
qed

section \<open>The bus\<close>

text \<open>C11: From a port at rest, the access functions make exactly the bus cycles of a 16-bit
  access: two write cycles with the low and the high byte, or two read cycles whose answers,
  in either order, make up the value; no cycle violates the protocol (the strobes are never
  low together, address and data are stable while one is low, the data port is driven in
  write cycles only), and the port is at rest afterwards.\<close>

theorem bus_accesses:
  assumes "idle st" and "port addr" and "pin_ok pin chip"
  shows "bus (cs8900aWrite addr data st) = bus st @
      [BusWrite addr (take_bit 8 data), BusWrite (addr + 1) (take_bit 8 (drop_bit 8 data))] \<and>
    idle (cs8900aWrite addr data st) \<and>
    (\<exists>st'. cs8900aRead pin addr st =
        (ucast (chip (bus st @ [BusRead addr])) OR
         push_bit 8 (ucast (chip (bus st @ [BusRead addr, BusRead (addr + 1)]))), st') \<and>
      bus st' = bus st @ [BusRead addr, BusRead (addr + 1)] \<and> idle st') \<and>
    (\<exists>st'. cs8900aReadAddrHighFirst pin addr st =
        (push_bit 8 (ucast (chip (bus st @ [BusRead (addr + 1)]))) OR
         ucast (chip (bus st @ [BusRead (addr + 1), BusRead addr])), st') \<and>
      bus st' = bus st @ [BusRead (addr + 1), BusRead addr] \<and> idle st')"
proof -
  note p = port_facts [OF assms(2)]
  note w = cs8900aWrite_cycles [OF assms(1) p(1), where data = data]
  note r = cs8900aRead_cycles [OF assms]
  note h = cs8900aReadAddrHighFirst_cycles [OF assms]
  show ?thesis
    unfolding p(2) using w r h
    by (cases "cs8900aRead pin addr st"; cases "cs8900aReadAddrHighFirst pin addr st")
      (simp add: wr16_def rd16_def rd16_hi_def chip_word_def chip_word_hi_def)
qed

theorem bus_accesses_witness:
  "bus (cs8900aWrite 0xA 0x0124 ex_idle) = [BusWrite 0xA 0x24, BusWrite 0xB 0x01]"
proof -
  have "port 0xA" using ports(1) by (simp add: ADD_PORT_def)
  from bus_accesses [OF ex_idle_idle this ex_pin_ok, of "0x0124"] show ?thesis
    by (simp add: ex_idle_def)
qed

lemma two_bytes:
  "take_bit 8 (ucast (b0 :: u8) OR push_bit 8 (ucast (b1 :: u8)) :: u32) = ucast b0"
  "take_bit 8 (drop_bit 8 (ucast b0 OR push_bit 8 (ucast b1) :: u32)) = ucast b1"
proof -
  have "\<not> bit b (8 + n)" "bit b n \<Longrightarrow> n < 8" "bit b n \<Longrightarrow> n < 24" for b :: u8 and n
    using bit_imp_le_length [of b "8 + n"] bit_imp_le_length [of b n] by auto
  then show "take_bit 8 (ucast b0 OR push_bit 8 (ucast b1) :: u32) = ucast b0"
    "take_bit 8 (drop_bit 8 (ucast b0 OR push_bit 8 (ucast b1) :: u32)) = ucast b1"
    by (auto intro!: bit_word_eqI simp: bit_simps)
qed

text \<open>C30: The two unrolled functions for frame data are the general ones without the setting-up of
  the port: once the address is on the bus (its lowest line in either state) and the data port
  has the right direction, writing two bytes makes the same cycles as a 16-bit write of them,
  and reading two bytes the same cycles, and gets the same value, as a 16-bit read.\<close>

theorem frame_access_equivalent:
  assumes "idle st" and "port addr" and "addr_of (latch st) AND NOT 1 = addr" and "pin_ok pin chip"
  shows "(data_of (IODIR st) = 0xff \<longrightarrow>
      bus (cs8900aWriteTxBuf b0 b1 st) = bus (cs8900aWrite addr (ucast b0 OR push_bit 8 (ucast b1)) st) \<and>
      addr_of (latch (cs8900aWriteTxBuf b0 b1 st)) AND NOT 1 = addr) \<and>
    (data_of (IODIR st) = 0 \<longrightarrow>
      (case cs8900aReadRxBuf pin st of (c0, c1, st') \<Rightarrow>
        fst (cs8900aRead pin addr st) = ucast c0 OR push_bit 8 (ucast c1) \<and>
        bus st' = bus (snd (cs8900aRead pin addr st)) \<and> addr_of (latch st') AND NOT 1 = addr))"
proof -
  note p = port_facts [OF assms(2)]
  note w = cs8900aWrite_cycles [OF assms(1) p(1)] and r = cs8900aRead_cycles [OF assms(1,2,4)]
  obtain c0 c1 st' where b: "cs8900aReadRxBuf pin st = (c0, c1, st')" by (metis prod_cases3)
  define v :: u32 where "v = ucast b0 OR push_bit 8 (ucast b1)"
  note v = v_def [symmetric] two_bytes [of b0 b1, folded v_def]
  note tx = cs8900aWriteTxBuf_cycles [OF assms(1), unfolded assms(3)]
  note rx = cs8900aReadRxBuf_cycles [OF assms(1) _ assms(4) b, unfolded assms(3)]
  show ?thesis
    unfolding b v(1) prod.case
  proof (intro conjI impI)
    assume d: "data_of (IODIR st) = 0xff"
    show "bus (cs8900aWriteTxBuf b0 b1 st) = bus (cs8900aWrite addr v st)"
      by (simp only: tx(1) [OF d] w(1) wr16_def v(2,3))
    show "addr_of (latch (cs8900aWriteTxBuf b0 b1 st)) AND NOT 1 = addr"
      by (simp only: tx(5) [OF d] p(4))
  next
    assume d: "data_of (IODIR st) = 0"
    show "fst (cs8900aRead pin addr st) = ucast c0 OR push_bit 8 (ucast c1)"
      by (simp only: r(1) chip_word_def rx(1,2,3) [OF d])
    show "bus st' = bus (snd (cs8900aRead pin addr st))"
      by (simp only: r(2) rx(1) [OF d] rd16_def)
    show "addr_of (latch st') AND NOT 1 = addr" by (simp only: rx(7) [OF d] p(4))
  qed
qed

theorem frame_access_equivalent_witness:
  "bus (cs8900aWriteTxBuf 0x24 0x01 (ex_idle\<lparr>IODIR := IODIR ex_idle OR SD_ALL\<rparr>)) =
   bus (cs8900aWrite 0 (ucast (0x24 :: u8) OR push_bit 8 (ucast (0x01 :: u8))) (ex_idle\<lparr>IODIR := IODIR ex_idle OR SD_ALL\<rparr>))"
proof -
  let ?st = "ex_idle\<lparr>IODIR := IODIR ex_idle OR SD_ALL\<rparr>"
  have i: "idle ?st" using ex_idle_idle by (simp add: idle_def ctrl_out_dir)
  have z: "port 0" "addr_of (latch ?st) AND NOT 1 = 0"
    by (simp add: port_def) (simp add: ex_idle_def addr_of_def IOR_def IOW_def)
  have "data_of (IODIR ?st) = 0xff" by (simp add: dir_out)
  with frame_access_equivalent [OF i z ex_pin_ok, of "0x24" "0x01"] show ?thesis by blast
qed

text \<open>The pins the driver owns: \<open>SA0\<close> to \<open>SA3\<close>, the strobes, \<open>SD0\<close> to \<open>SD7\<close>.\<close>

definition owned :: "nat \<Rightarrow> bool" where
  "owned n \<longleftrightarrow> 4 \<le> n \<and> n < 8 \<or> n = 12 \<or> n = 13 \<or> 16 \<le> n \<and> n < 24"

text \<open>The access functions change no pin but the address, strobe and data lines, as long as
  the data of a write has 16 bits: output level and direction of every other pin of the
  port are what they were.\<close>

theorem other_pins_untouched:
  assumes "port addr" and "take_bit 16 data = data" and "\<not> owned n"
  shows "bit (latch (cs8900aWrite addr data st)) n = bit (latch st) n \<and>
    bit (IODIR (cs8900aWrite addr data st)) n = bit (IODIR st) n \<and>
    bit (latch (snd (cs8900aRead pin addr st))) n = bit (latch st) n \<and>
    bit (IODIR (snd (cs8900aRead pin addr st))) n = bit (IODIR st) n"
proof -
  have a: "4 \<le> n \<Longrightarrow> \<not> bit addr (n - 4)"
    using small_bit [OF port_facts(1) [OF assms(1)], of "n - 4"] assms(3) by (auto simp: owned_def)
  have d: "16 \<le> n \<Longrightarrow> \<not> bit data (n - 16 + 8)"
    using small_bit [OF assms(2), of "n - 16 + 8"] assms(3) by (auto simp: owned_def)
  have m: "\<not> bit (push_bit 16 (data AND 0xff)) n"
    using assms(3) by (auto simp: mask_ff bit_push_bit_iff bit_and_iff bit_mask_iff owned_def)
  have h: "\<not> bit (push_bit 16 (drop_bit 8 data)) n" "\<not> bit (push_bit 4 addr) n"
    using a d by (auto simp: bit_push_bit_iff bit_drop_bit_eq add.commute)
  have l: "bit (x OR y) n = bit x n" "bit (x AND NOT z) n = bit x n"
    if "\<not> bit y n" "\<not> bit z n" for x y z :: u32
    using that bit_imp_le_length [of x n] by (auto simp: bit_or_iff bit_and_iff bit_not_iff)
  have k: "\<not> bit IOR n" "\<not> bit IOW n" "\<not> bit SA_0 n" "\<not> bit SA_ALL n" "\<not> bit SD_ALL n"
    using assms(3) by (auto simp: bit_masks owned_def)
  show ?thesis
    unfolding cs8900aWrite_def cs8900aRead_def Let_def snd_conv
    by (simp only: wr_simps l [OF m k(1)] l [OF h(1) k(1)] l [OF h(2) k(1)] l [OF k(1) k(1)]
        l [OF k(2) k(2)] l [OF k(3) k(3)] l [OF k(4) k(4)] l [OF k(5) k(5)] simp_thms)
qed

theorem other_pins_untouched_witness:
  "bit (latch (cs8900aWrite 0xA 0x0124 (ex_idle\<lparr>latch := 0x80000000\<rparr>))) 31"
proof -
  have "port 0xA" using ports(1) by (simp add: ADD_PORT_def)
  moreover have "take_bit 16 (0x0124 :: u32) = 0x0124" "\<not> owned 31" by (simp_all add: owned_def)
  ultimately show ?thesis
    using other_pins_untouched [of "0xA" "0x0124" 31 "ex_idle\<lparr>latch := 0x80000000\<rparr>"] by simp
qed

section \<open>Registers\<close>

lemmas driver_registers = PP_RxCFG_def PP_RxCTL_def PP_LineCTL_def PP_SelfCTL_def PP_RxEvent_def
  PP_SelfST_def PP_BusST_def PP_LAF_def PP_IA_def

lemmas driver_flags = SKIP_1_def RX_OK_ACCEPT_def RX_MULTCAST_ACCEPT_def RX_IA_ACCEPT_def
  RX_BROADCAST_ACCEPT_def SERIAL_RX_ON_def SERIAL_TX_ON_def POWER_ON_RESET_def INIT_DONE_def
  READY_FOR_TX_NOW_def TX_START_ALL_BYTES_def

lemmas driver_tables = RxCFG_bits_def RxCTL_bits_def LineCTL_bits_def SelfCTL_bits_def RxEvent_bits_def
  SelfST_bits_def BusST_bits_def TxCMD_start_def

text \<open>The packet page is laid out in different even addresses below 4096, the ports in even
  addresses below 16; the configuration table writes these registers.\<close>

lemma register_use:
  "distinct (map fst PP_registers) \<and> distinct (map snd PP_registers) \<and>
   list_all (\<lambda>x. snd x < 0x1000 \<and> \<not> bit (snd x) 0) PP_registers \<and>
   list_all (\<lambda>x. port (snd x)) IO_ports \<and>
   map fst InitSeq = [PP_LineCTL, PP_LAF, PP_LAF + 2, PP_LAF + 4, PP_LAF + 6, PP_RxCTL]"
proof (intro conjI)
  show "distinct (map fst PP_registers)" "distinct (map snd PP_registers)"
    by (simp_all add: PP_registers_def)
  show "list_all (\<lambda>x. snd x < 0x1000 \<and> \<not> bit (snd x) 0) PP_registers"
    by (simp add: PP_registers_def)
  show "list_all (\<lambda>x. port (snd x)) IO_ports" by (simp add: IO_ports_def port_def)
  show "map fst InitSeq = [PP_LineCTL, PP_LAF, PP_LAF + 2, PP_LAF + 4, PP_LAF + 6, PP_RxCTL]"
    by (simp add: InitSeq_def)
qed

text \<open>The constants of the driver's model are those of the header.\<close>

lemma driver_constants:
  "map_of PP_registers ''PP_RxCFG'' = Some PP_RxCFG" "map_of PP_registers ''PP_RxCTL'' = Some PP_RxCTL"
  "map_of PP_registers ''PP_LineCTL'' = Some PP_LineCTL" "map_of PP_registers ''PP_SelfCTL'' = Some PP_SelfCTL"
  "map_of PP_registers ''PP_RxEvent'' = Some PP_RxEvent" "map_of PP_registers ''PP_SelfST'' = Some PP_SelfST"
  "map_of PP_registers ''PP_BusST'' = Some PP_BusST" "map_of PP_registers ''PP_LAF'' = Some PP_LAF"
  "map_of PP_registers ''PP_IA'' = Some PP_IA" "map_of RxCFG_bits ''SKIP_1'' = Some SKIP_1"
  "map_of SelfCTL_bits ''POWER_ON_RESET'' = Some POWER_ON_RESET"
  "map_of SelfST_bits ''INIT_DONE'' = Some INIT_DONE"
  "map_of BusST_bits ''READY_FOR_TX_NOW'' = Some READY_FOR_TX_NOW"
  "map_of TxCMD_start ''TX_START_ALL_BYTES'' = Some TX_START_ALL_BYTES"
  by (simp_all add: PP_registers_def driver_registers driver_flags driver_tables)

section \<open>Initialisation\<close>

text \<open>C39: When the chip shows \<open>INIT_DONE\<close> at some read, the initialisation ends there and has
  sent exactly: the reset, that many status reads, the Ethernet address 00:bd:03:04:05:07 as
  three words to \<open>PP_IA\<close>, and the configuration table; it returns \<open>ERR_OK\<close> with the
  interface structure filled in, one polling thread created and the bus at rest.\<close>

theorem cs_init_programs:
  assumes "startable st" and "pin_ok (IOPIN C) chip" and "mem_malloc E = Some m" and "k < n"
    and "\<forall>i<k. \<not> init_done chip (bus st @ reset_cycles) i" and "init_done chip (bus st @ reset_cycles) k"
  shows "\<exists>nif' st'. cs8900aIfInit C E n (Some nif) st = Some (Inr (ERR_OK, nif', st', [(1, 300, ''cs'')])) \<and>
    bus st' = bus st @ reset_cycles @ status_reads (Suc k) @
      program_cycles [(0x158, 0xbd00), (0x15a, 0x0403), (0x15c, 0x0705)] @ program_cycles InitSeq \<and>
    idle st' \<and> rest st' = rest st \<and> hwaddr nif' = [0, 0xbd, 3, 4, 5, 7] \<and> mtu nif' = 1500"
proof -
  from assms(3) obtain nif0 where n0: "cs8900aIfInit C E n (Some nif) st =
      (case cs_lowLevelInit C E n nif0 st of None \<Rightarrow> None
       | Some (nif, st) \<Rightarrow> Some (Inr (ERR_OK, nif, st, [(1, 300, ''cs'')])))"
    by (simp add: cs8900aIfInit_def Let_def)
  from lowLevelInit_cycles [OF assms(1,2,4-6), of E nif0] n0 show ?thesis
    by (auto simp: init_cycles_def address_words_def cs_hwaddr_def)
qed

definition ex_init_env :: init_env where
  "ex_init_env =
     \<lparr> env_debug_assert = True, mem_malloc = Some 5, env_IPV6 = False, NETIF_HOSTNAME = True,
       ETHARP_HWADDR_LEN = 6, FLAG_BROADCAST = 2, FLAG_ETHARP = 8, FLAG_LINK_UP = 4 \<rparr>"

theorem cs_init_programs_witness:
  "\<exists>nif' st'. cs8900aIfInit ex_cs ex_init_env 1 (Some ex_netif) ex_reset =
      Some (Inr (ERR_OK, nif', st', [(1, 300, ''cs'')])) \<and> mtu nif' = 1500 \<and> idle st'"
proof -
  have "startable ex_reset" by (simp add: startable_def ex_reset_def ctrl_out_def)
  moreover have "mem_malloc ex_init_env = Some 5" by (simp add: ex_init_env_def)
  moreover have "init_done ex_chip (bus ex_reset @ reset_cycles) 0"
    by (simp add: init_done_def status_reads_simps chip_word_def ex_chip_def chip_run_def ex_reset_def
        reset_cycles_def wr16_def port_numbers chip_data_def INIT_DONE_def POWER_ON_RESET_def)
  ultimately show ?thesis
    using cs_init_programs [of ex_reset ex_cs ex_chip ex_init_env 5 0 1 ex_netif] ex_pin_ok by auto
qed

section \<open>Sending\<close>

text \<open>C19: Sending announces the length of the frame, polls the chip for buffer space at most nine
  times (skipping a received frame between two polls), and then either returns
  \<open>ERR_IF\<close> with no byte of the frame sent and the padding word still dropped, or sends the frame's
  bytes in order, and at most one more to make the number even, and leaves the packet as it
  was; for packets where only the last segment may have an odd length.\<close>

theorem cs_send_correct:
  assumes "idle st" and "pin_ok (IOPIN C) chip" and "header_ok (cs_eth C)" and "padded (cs_eth C) p"
    and "even_chain (chain (drop_pad (cs_eth C) p))" and "\<forall>q \<in> set (chain (drop_pad (cs_eth C) p)). roomy q"
    and "tx_wait_bus chip 8 (bus st @ wr16 TX_CMD_PORT TX_START_ALL_BYTES @
      wr16 TX_LEN_PORT (word_of_nat (tot_len p - ETH_PAD_SIZE (cs_eth C)))) = (ready, B)"
  shows "\<exists>st' extra. length B \<le> length (bus st) + 88 \<and> length extra \<le> 1 \<and> idle st' \<and>
    (if ready then
       cs_lowLevelOutput C p st = Inr (ERR_OK, p, LINK_STATS_INC (cs_eth C) Xmit st') \<and>
       bus st' = B @ tx_cycles (drop (ETH_PAD_SIZE (cs_eth C)) (chain_bytes (chain p)) @ extra)
     else cs_lowLevelOutput C p st = Inr (ERR_IF, lower (ETH_PAD_SIZE (cs_eth C)) p, st') \<and> bus st' = B)"
proof -
  let ?k = "ETH_PAD_SIZE (cs_eth C)" and ?qs = "chain (drop_pad (cs_eth C) p)"
  have p: "pbuf_ok p" "?k \<le> seg_len (hd (chain p))" "sendable C p"
    using assms(4,6) by (simp_all add: padded_def sendable_def)
  note d = drop_pad_lower [OF assms(3,4)]
  note l = lower_facts [OF p(1,2), folded d]
  from cs_send_cycles [OF assms(1-3) p(3) assms(7)] obtain st' where st': "idle st'"
    "if ready then cs_lowLevelOutput C p st = Inr (ERR_OK, p, LINK_STATS_INC (cs_eth C) Xmit st') \<and>
       bus st' = B @ tx_cycles (concat (map sent_bytes ?qs))
     else cs_lowLevelOutput C p st = Inr (ERR_IF, lower ?k p, st') \<and> bus st' = B" unfolding d by blast
  define sent where "sent = concat (map sent_bytes ?qs)"
  define extra where "extra = drop (chain_len ?qs) sent"
  have f: "take (chain_len ?qs) sent = chain_bytes ?qs" "length sent = even_up (chain_len ?qs)"
    using sent_frame [OF assms(5,6)] unfolding sent_def by blast+
  then have "sent = drop ?k (chain_bytes (chain p)) @ extra"
    unfolding extra_def l(2) [symmetric] f(1) [symmetric] by simp
  moreover have "length extra \<le> 1" using f(2) even_up_ge(2) [of "chain_len ?qs"] by (simp add: extra_def)
  moreover have "length B \<le> length (bus st) + 88"
    using tx_wait_bounded [of chip 8 "bus st @ wr16 TX_CMD_PORT TX_START_ALL_BYTES @
      wr16 TX_LEN_PORT (word_of_nat (tot_len p - ?k))"] assms(7) by (simp add: wr16_def)
  ultimately show ?thesis using st' by (intro exI [of _ st'] exI [of _ extra]) (simp add: sent_def)
qed

text \<open>A packet of one segment, 20 bytes behind the padding word.\<close>

definition ex_single :: pbuf where
  "ex_single = \<lparr>chain = [\<lparr>seg_mem = [0, 0] @ ex_frame, payload = 0, seg_len = 22\<rparr>], tot_len = 22\<rparr>"

theorem cs_send_correct_witness:
  "\<exists>st' B. cs_lowLevelOutput ex_cs ex_single ex_idle = Inr (ERR_OK, ex_single, st') \<and>
    bus st' = B @ tx_cycles ex_frame"
proof -
  have e: "ETH_PAD_SIZE (cs_eth ex_cs) = 2" "tot_len ex_single = 22" "LINK_STATS_INC (cs_eth ex_cs) Xmit st = st" for st
    by (simp_all add: ex_cs_def ex_cs_eth_def ex_single_def)
  have h: "header_ok (cs_eth ex_cs)" using ex_cs_ok by (simp add: cs_ok_def)
  have p: "padded (cs_eth ex_cs) ex_single"
    by (simp add: padded_def pbuf_ok_def seg_ok_def e) (simp add: ex_single_def ex_frame_def)
  have c: "even_chain (chain (drop_pad (cs_eth ex_cs) ex_single))"
    "\<forall>q \<in> set (chain (drop_pad (cs_eth ex_cs) ex_single)). roomy q"
    unfolding drop_pad_lower [OF h p] e
    by (simp_all add: ex_single_def lower_def even_chain_def roomy_def ex_frame_def)
  obtain ready B where t: "tx_wait_bus ex_chip 8 (bus ex_idle @ wr16 TX_CMD_PORT TX_START_ALL_BYTES @
      wr16 TX_LEN_PORT (word_of_nat (tot_len ex_single - ETH_PAD_SIZE (cs_eth ex_cs)))) = (ready, B)"
    by fastforce
  have "ready"
    using t by (simp add: tx_wait_bus.simps [of _ 8] chip_word_def ex_chip_def chip_run_def ex_idle_def
      wr16_def port_numbers chip_data_def READY_FOR_TX_NOW_def Let_def split: if_splits)
  moreover have "drop 2 (chain_bytes (chain ex_single)) = ex_frame"
    by (simp add: ex_single_def seg_bytes_def ex_frame_def)
  moreover obtain st' extra where
    "bus st' = B @ tx_cycles (ex_frame @ extra)" "length extra \<le> 1"
    "cs_lowLevelOutput ex_cs ex_single ex_idle = Inr (ERR_OK, ex_single, st')"
    using cs_send_correct [OF ex_idle_idle ex_pin_ok h p c t] \<open>ready\<close> \<open>drop 2 _ = _\<close> by (auto simp: e)
  moreover have "tx_cycles (ex_frame @ extra) = tx_cycles ex_frame"
    using \<open>length extra \<le> 1\<close> by (subst tx_cycles_append) (simp_all add: ex_frame_def length_Suc_conv le_Suc_eq, auto)
  ultimately show ?thesis by metis
qed

text \<open>The transfer is in 16-bit units for every segment: after a segment of odd length the
  driver sends the byte behind its payload before the next segment, which shifts the rest of
  the frame; when the payload ends where its memory ends, it reads past the end.\<close>

theorem cs_odd_segment:
  assumes "odd (seg_len q)" and "idle st"
  shows "(roomy q \<and> roomy q' \<longrightarrow> (\<exists>st'. cs_tx_chain [q, q'] st = Inr st' \<and>
      bus st' = bus st @ tx_cycles (seg_bytes q @ [seg_mem q ! (payload q + seg_len q)] @ sent_bytes q'))) \<and>
    (seg_len q = 1 \<and> payload q + 1 = length (seg_mem q) \<longrightarrow> cs_tx_chain (q # qs) st = Inl OutOfBounds)"
proof (intro conjI impI)
  assume r: "roomy q \<and> roomy q'"
  then have "payload q + seg_len q < length (seg_mem q)" using assms(1) by (simp add: roomy_def)
  then have "sent_bytes q = seg_bytes q @ [seg_mem q ! (payload q + seg_len q)]"
    using assms(1) by (simp add: sent_bytes_def seg_bytes_def take_Suc_conv_app_nth)
  with tx_chain_cycles [of "[q, q']" st] r assms(2)
  show "\<exists>st'. cs_tx_chain [q, q'] st = Inr st' \<and>
      bus st' = bus st @ tx_cycles (seg_bytes q @ [seg_mem q ! (payload q + seg_len q)] @ sent_bytes q')"
    by auto
next
  assume "seg_len q = 1 \<and> payload q + 1 = length (seg_mem q)"
  then show "cs_tx_chain (q # qs) st = Inl OutOfBounds"
    by (simp add: cs_tx_seg.simps [of q 0] rd_def Let_def)
qed

theorem cs_odd_segment_witness:
  "\<exists>st'. cs_tx_chain [\<lparr>seg_mem = [1, 2, 3, 9], payload = 0, seg_len = 3\<rparr>,
      \<lparr>seg_mem = [4, 5], payload = 0, seg_len = 2\<rparr>] ex_idle = Inr st' \<and>
    bus st' = tx_cycles [1, 2, 3, 9, 4, 5]"
proof -
  let ?q = "\<lparr>seg_mem = [1, 2, 3, 9], payload = 0, seg_len = 3\<rparr>" and ?q' = "\<lparr>seg_mem = [4, 5], payload = 0, seg_len = 2\<rparr>"
  have "odd (seg_len ?q)" "roomy ?q" "roomy ?q'" by (simp_all add: roomy_def)
  with cs_odd_segment [of ?q ex_idle ?q'] ex_idle_idle show ?thesis
    by (auto simp: seg_bytes_def sent_bytes_def ex_idle_def numeral_eq_Suc)
qed

section \<open>Receiving\<close>

text \<open>C5: Receiving polls the chip. Either it receives nothing, and no frame was waiting, or the oldest
  frame is taken from the chip, by reading it into a well-formed packet whose bytes behind
  the padding word are exactly the frame's, or, when lwIP has no memory, by skipping it; the
  other frames, and those that arrive meanwhile, stay in the chip in their order; the bus sees
  no violation of its protocol and is at rest afterwards.\<close>

theorem cs_receive_correct:
  assumes "cs_ok C chip frames coming h" and "idle st"
  shows "\<exists>po st'. cs_lowLevelInput C st = Inr (po, st') \<and> idle st' \<and> clean (bus st) (bus st') \<and>
    (po = None \<and> rest st' = rest st \<and> frames (bus st) = [] \<or>
     (\<exists>f fs new. frames (bus st @ poll_cycles) = f # fs \<and> prefix (frames (bus st)) (f # fs) \<and>
       frames (bus st') = fs @ new \<and>
       (case po of None \<Rightarrow> h (rest st') = h (rest st)
        | Some p \<Rightarrow> h (rest st') = Suc (h (rest st)) \<and> padded (cs_eth C) p \<and>
            tot_len p = length f + ETH_PAD_SIZE (cs_eth C) \<and>
            drop (ETH_PAD_SIZE (cs_eth C)) (chain_bytes (chain p)) = f)))"
  using assms
proof (cases rule: cs_receive_cases)
  case (none st')
  then show ?thesis by simp
next
  case (frame f fs po st')
  then obtain new where "frames (bus st') = fs @ new" by (auto simp: grows_def prefix_def)
  with frame show ?thesis by (cases po) auto
qed

theorem cs_receive_correct_witness:
  "\<exists>p st'. cs_lowLevelInput ex_cs ex_idle = Inr (Some p, st') \<and>
    drop 2 (chain_bytes (chain p)) = ex_frame \<and> tot_len p = 22 \<and> prefix [ex_frame] (ex_frames (bus st'))"
proof -
  have q: "ex_frames (bus ex_idle) = [ex_frame]" "ex_coming (bus ex_idle) = 1"
    by (simp_all add: ex_frames_def ex_coming_def chip_run_def ex_idle_def)
  have q': "ex_frames (bus ex_idle @ poll_cycles) = [ex_frame, ex_frame]"
    by (simp add: ex_frames_def [of "bus ex_idle @ poll_cycles"] chip_after_poll q)
  have e: "ETH_PAD_SIZE (cs_eth ex_cs) = 2" "length ex_frame = 20"
    by (simp_all add: ex_cs_def ex_cs_eth_def ex_frame_def)
  from cs_receive_correct [OF ex_cs_ok ex_idle_idle] q(1) q' obtain po st' new where
    r: "cs_lowLevelInput ex_cs ex_idle = Inr (po, st')" "ex_frames (bus st') = ex_frame # new"
    and c: "case po of None \<Rightarrow> True
        | Some p \<Rightarrow> tot_len p = length ex_frame + ETH_PAD_SIZE (cs_eth ex_cs) \<and>
            drop (ETH_PAD_SIZE (cs_eth ex_cs)) (chain_bytes (chain p)) = ex_frame"
    by (fastforce split: option.splits)
  obtain v st1 where v: "cs8900aRead (IOPIN ex_cs) DATA_PORT (cs8900aWrite ADD_PORT PP_RxEvent ex_idle) = (v, st1)"
    by fastforce
  have v1: "v AND 0xd00 = 0x100" using poll_refines(1) [OF ex_idle_idle ex_pin_ok v] q
      chip_poll_word [of "bus ex_idle"] by (simp add: rx_flag_def)
  obtain x st2 where r2: "cs8900aReadAddrHighFirst (IOPIN ex_cs) RX_FRAME_PORT st1 = (x, st2)" by fastforce
  obtain l st3 where r3: "cs8900aReadAddrHighFirst (IOPIN ex_cs) RX_FRAME_PORT st2 = (l, st3)" by fastforce
  obtain p st4 where a: "pbuf_alloc (cs_eth ex_cs) ((ucast l :: u16) + 2) st3 = (Some p, st4)"
    by (simp add: ex_cs_def ex_cs_eth_def)
  have "po \<noteq> None"
    using r v v1 r2 r3 a by (auto simp: cs_lowLevelInput_def e rbind_eq_Inr_iff Let_def)
  with r c show ?thesis by (cases po) (auto simp: e)
qed

text \<open>C37: Every packet the CS8900A driver hands to lwIP, to take or to free, is well-formed: its
  segments lie in their memory and add up to its length, the first one holds the padding word,
  and the Ethernet type can be read. An lwIP that treats any other packet differently makes no
  difference to a call.\<close>

theorem cs_packets_typed:
  assumes "cs_ok C chip frames coming h" and "idle st"
    and "\<And>p. padded (cs_eth C) p \<Longrightarrow> type_readable (cs_eth C) p \<Longrightarrow>
      f p = netif_input (cs_eth C) p \<and> g p = pbuf_free (cs_eth C) p"
  shows "cs8900aIfInput (C\<lparr>cs_eth := lwip_with f g (cs_eth C)\<rparr>) st = cs8900aIfInput C st"
proof -
  let ?C = "C\<lparr>cs_eth := lwip_with f g (cs_eth C)\<rparr>"
  have chain: "cs_rx_chain ?C = cs_rx_chain C" by (intro ext rx_chain_pin) simp
  have same: "cs_lowLevelInput ?C = cs_lowLevelInput C"
    by (simp add: cs_lowLevelInput_def cs8900aSkipFrame_def fun_eq_iff split_beta Let_def chain
        cong: if_cong option.case_cong)
  have "\<exists>po st'. cs_lowLevelInput C st = Inr (po, st') \<and>
      (case po of None \<Rightarrow> True | Some p \<Rightarrow> padded (cs_eth C) p \<and> type_readable (cs_eth C) p)"
    using assms(1,2)
  proof (cases rule: cs_receive_cases)
    case (none st')
    then show ?thesis by simp
  next
    case (frame q qs po st')
    then show ?thesis by (auto split: option.splits)
  qed
  then obtain po st' where r: "cs_lowLevelInput C st = Inr (po, st')"
    "case po of None \<Rightarrow> True | Some p \<Rightarrow> padded (cs_eth C) p \<and> type_readable (cs_eth C) p" by blast
  have "case po of None \<Rightarrow> True | Some p \<Rightarrow> f p = netif_input (cs_eth C) p \<and> g p = pbuf_free (cs_eth C) p"
    using r(2) assms(3) by (auto split: option.splits)
  from input_with [where receive = "cs_lowLevelInput C", OF r(1) this] show ?thesis
    by (simp add: cs8900aIfInput_def same)
qed

text \<open>An lwIP that loses count on malformed packets.\<close>

definition ex_cs_picky :: "pbuf \<Rightarrow> nat lpc \<Rightarrow> err_t \<times> nat lpc" where
  "ex_cs_picky p st = (if padded ex_cs_eth p then netif_input ex_cs_eth p st else (ERR_OK, st\<lparr>rest := 99\<rparr>))"

theorem cs_packets_typed_witness:
  "cs8900aIfInput (ex_cs\<lparr>cs_eth := lwip_with ex_cs_picky (pbuf_free ex_cs_eth) ex_cs_eth\<rparr>) ex_idle =
    cs8900aIfInput ex_cs ex_idle"
proof -
  have e: "cs_eth ex_cs = ex_cs_eth" by (simp add: ex_cs_def)
  show ?thesis
    using cs_packets_typed [OF ex_cs_ok ex_idle_idle, of ex_cs_picky "pbuf_free ex_cs_eth"]
    by (simp add: e ex_cs_picky_def fun_eq_iff)
qed

text \<open>C40: A round of the polling thread ends without a fault, also when frames keep arriving: it
  makes at most one more call than there are frames in the chip and still to come; afterwards
  the driver holds exactly the packets it held before and the bus is at rest.\<close>

theorem cs_round_ends:
  assumes "cs_ok C chip frames coming h" and "posTaskSleep C (cs_MS C 10) st0 = st" and "idle st"
    and "length (frames (bus st)) + coming (bus st) < n"
  shows "\<exists>st'. cs8900aThread_round C n st0 = Some (Inr st') \<and> idle st' \<and> h (rest st') = h (rest st) \<and>
    length (frames (bus st')) + coming (bus st') \<le> length (frames (bus st)) + coming (bus st)"
proof -
  have "cs_inv C chip frames coming h st" using assms(1,3) by (simp add: cs_inv_def)
  from cs.drain_ends [OF this] assms(2,4) show ?thesis
    by (auto simp: cs8900aThread_round_def cs8900aIfInput_def [abs_def] cs_inv_def cs_pending_def)
qed

theorem cs_round_ends_witness:
  "\<exists>st'. cs8900aThread_round ex_cs 3 ex_idle = Some (Inr st') \<and> rest st' = 0"
proof -
  have "posTaskSleep ex_cs (cs_MS ex_cs 10) ex_idle = ex_idle" by (simp add: ex_cs_def)
  moreover have "length (ex_frames (bus ex_idle)) + ex_coming (bus ex_idle) < 3"
    by (simp add: ex_frames_def ex_coming_def chip_run_def ex_idle_def)
  ultimately show ?thesis
    using cs_round_ends [OF ex_cs_ok _ ex_idle_idle, of ex_idle 3] by (auto simp: ex_idle_def)
qed

end
