(* ===== verification/Tasks.thy ===== *)
theory Tasks
  imports Prelude
begin

text \<open>
  Functions that other tasks can interrupt, as resumptions: a task is done, with a result, or
  has one more step to make, which acts on the state all tasks share and leaves the rest of
  the task. \<open>alone\<close> is a run without interruption, \<open>interleave\<close> a run of two tasks under a
  schedule.
\<close>

datatype ('s, 'r) task = Done 'r | Act "'s \<Rightarrow> ('s, 'r) task \<times> 's"

primrec alone :: "('s, 'r) task \<Rightarrow> 's \<Rightarrow> 'r \<times> 's" where
  "alone (Done r) = (\<lambda>s. (r, s))"
| "alone (Act f) = (\<lambda>s. case map_prod alone id (f s) of (k, s') \<Rightarrow> k s')"

primrec task_bind :: "('s, 'r) task \<Rightarrow> ('r \<Rightarrow> ('s, 'q) task) \<Rightarrow> ('s, 'q) task" where
  "task_bind (Done r) k = k r"
| "task_bind (Act f) k = Act (\<lambda>s. map_prod (\<lambda>t. task_bind t k) id (f s))"

lemma task_induct [case_names Done Act]:
  assumes "\<And>r. P (Done r)" and "\<And>f. (\<And>s t s'. f s = (t, s') \<Longrightarrow> P t) \<Longrightarrow> P (Act f)"
  shows "P t"
proof (induction t)
  case (Act f)
  have "P t'" if "f s = (t', s')" for s t' s'
    by (rule Act.IH [OF rangeI [of f s]]) (simp add: that)
  then show ?case by (rule assms(2))
qed (rule assms(1))

text \<open>Steps that change the state, or get a value as well; and faults as results.\<close>

definition act :: "('s \<Rightarrow> 's) \<Rightarrow> ('s, unit) task" where
  "act f = Act (\<lambda>s. (Done (), f s))"

definition ask :: "('s \<Rightarrow> 'r \<times> 's) \<Rightarrow> ('s, 'r) task" where
  "ask f = Act (\<lambda>s. case f s of (r, s') \<Rightarrow> (Done r, s'))"

definition task_rbind :: "('s, 'r res) task \<Rightarrow> ('r \<Rightarrow> ('s, 'q res) task) \<Rightarrow> ('s, 'q res) task" where
  "task_rbind t k = task_bind t (\<lambda>r. case r of Inl e \<Rightarrow> Done (Inl e) | Inr x \<Rightarrow> k x)"

section \<open>Without interruption\<close>

lemma alone_Act: "alone (Act f) s = (case f s of (t, s') \<Rightarrow> alone t s')"
  by (simp add: split_beta)

declare alone.simps(2) [simp del]

lemma alone_bind [simp]: "alone (task_bind t k) s = (case alone t s of (r, s') \<Rightarrow> alone (k r) s')"
proof (induction t arbitrary: s rule: task_induct)
  case (Act f)
  obtain t s1 where f: "f s = (t, s1)" by fastforce
  with Act.IH [OF f, of s1] show ?case by (simp add: alone_Act)
qed simp

lemma alone_act [simp]: "alone (act f) s = ((), f s)"
  by (simp add: act_def alone_Act)

lemma alone_ask [simp]: "alone (ask f) s = f s"
  by (simp add: ask_def alone_Act split_beta)

lemma alone_rbind [simp]:
  "alone (task_rbind t k) s =
     (case alone t s of (r, s') \<Rightarrow> (case r of Inl e \<Rightarrow> (Inl e, s') | Inr x \<Rightarrow> alone (k x) s'))"
  by (simp add: task_rbind_def split_beta split: sum.splits)

text \<open>A task as the function it is without interruption; a fault hides the state.\<close>

definition as_call :: "('s, 'r res) task \<Rightarrow> 's \<Rightarrow> ('r \<times> 's) res" where
  "as_call t s = (case alone t s of (Inl e, _) \<Rightarrow> Inl e | (Inr r, s') \<Rightarrow> Inr (r, s'))"

lemma as_call_simps [simp]:
  "as_call (Done (Inl e)) s = Inl e" "as_call (Done (Inr r)) s = Inr (r, s)"
  "as_call (task_bind t k) s = (case alone t s of (r, s') \<Rightarrow> as_call (k r) s')"
  by (simp_all add: as_call_def split_beta)

lemma as_call_rbind [simp]: "as_call (task_rbind t' k') s = rbind (as_call t' s) (\<lambda>(r, s'). as_call (k' r) s')"
  by (auto simp: as_call_def task_rbind_def split: prod.splits sum.splits)

section \<open>Reaching a point inside a task\<close>

text \<open>\<open>takes t s t' s'\<close>: some steps of \<open>t\<close> from \<open>s\<close> on lead to \<open>s'\<close>, with \<open>t'\<close> left to do.\<close>

inductive takes :: "('s, 'r) task \<Rightarrow> 's \<Rightarrow> ('s, 'r) task \<Rightarrow> 's \<Rightarrow> bool" where
    Stay: "takes t s t s"
  | Step: "f s = (t, s1) \<Longrightarrow> takes t s1 t' s' \<Longrightarrow> takes (Act f) s t' s'"

lemma takes_trans: "takes t s t1 s1 \<Longrightarrow> takes t1 s1 t2 s2 \<Longrightarrow> takes t s t2 s2"
  by (induction rule: takes.induct) (auto intro: takes.intros)

lemma takes_bind: "takes t s t' s' \<Longrightarrow> takes (task_bind t k) s (task_bind t' k) s'"
  by (induction rule: takes.induct) (auto intro: takes.intros)

lemma takes_rbind: "takes t s t' s' \<Longrightarrow> takes (task_rbind t k) s (task_rbind t' k) s'"
  unfolding task_rbind_def by (rule takes_bind)

lemma task_rbind_Done [simp]: "task_rbind (Done (Inr x)) k = k x" "task_rbind (Done (Inl e)) k = Done (Inl e)"
  by (simp_all add: task_rbind_def)

lemma takes_act: "takes (k ()) (f s) t' s' \<Longrightarrow> takes (task_bind (act f) k) s t' s'"
  by (auto simp: act_def intro: takes.intros)

lemma takes_ask: "f s = (r, s1) \<Longrightarrow> takes (k r) s1 t' s' \<Longrightarrow> takes (task_bind (ask f) k) s t' s'"
  by (auto simp: ask_def intro: takes.intros)

lemma takes_alone: "alone t s = (r, s') \<Longrightarrow> takes t s (Done r) s'"
proof (induction t arbitrary: s rule: task_induct)
  case (Act f)
  obtain t1 s1 where f: "f s = (t1, s1)" by fastforce
  with Act.prems have "alone t1 s1 = (r, s')" by (simp add: alone_Act)
  with Act.IH [OF f] have "takes t1 s1 (Done r) s'" .
  with f show ?case by (rule takes.Step)
qed (simp add: takes.Stay)

lemma takes_call: "as_call t s = Inr (r, s') \<Longrightarrow> takes t s (Done (Inr r)) s'"
  by (rule takes_alone) (auto simp: as_call_def split: prod.splits sum.splits)

section \<open>Two tasks\<close>

text \<open>A schedule says whose step is next; a task that is done lets its turns pass.\<close>

fun turn :: "('s, 'r) task \<Rightarrow> 's \<Rightarrow> ('s, 'r) task \<times> 's" where
  "turn (Done r) s = (Done r, s)"
| "turn (Act f) s = f s"

datatype who = First | Second

fun interleave ::
    "who list \<Rightarrow> ('s, 'r) task \<times> ('s, 'q) task \<times> 's \<Rightarrow> ('s, 'r) task \<times> ('s, 'q) task \<times> 's" where
  "interleave [] c = c"
| "interleave (First # ws) (t, u, s) = (case turn t s of (t', s') \<Rightarrow> interleave ws (t', u, s'))"
| "interleave (Second # ws) (t, u, s) = (case turn u s of (u', s') \<Rightarrow> interleave ws (t, u', s'))"

lemma interleave_append: "interleave (ws @ vs) c = interleave vs (interleave ws c)"
proof (induction ws arbitrary: c)
  case (Cons w ws)
  then show ?case by (cases c; cases w) (simp_all add: split_beta)
qed simp

lemma interleave_first:
  "takes t s t' s' \<Longrightarrow> \<exists>ws. interleave ws (t, u, s) = (t', u, s')"
proof (induction rule: takes.induct)
  case (Stay t s)
  show ?case by (rule exI [of _ "[]"]) simp
next
  case (Step f s t s1 t' s')
  then obtain ws where "interleave ws (t, u, s1) = (t', u, s')" by blast
  with Step(1) show ?case by (intro exI [of _ "First # ws"]) simp
qed

lemma interleave_second:
  "takes u s u' s' \<Longrightarrow> \<exists>ws. interleave ws (t, u, s) = (t, u', s')"
proof (induction rule: takes.induct)
  case (Stay u s)
  show ?case by (rule exI [of _ "[]"]) simp
next
  case (Step f s u s1 u' s')
  then obtain ws where "interleave ws (t, u, s1) = (t, u', s')" by blast
  with Step(1) show ?case by (intro exI [of _ "Second # ws"]) simp
qed

text \<open>The first task is interrupted, for some steps of the second one or for all of it.\<close>

lemma interleave_switch:
  assumes "takes t s t1 s1" and "takes u s1 u1 s2" and "takes t1 s2 t2 s3"
  shows "\<exists>ws. interleave ws (t, u, s) = (t2, u1, s3)"
proof -
  from interleave_first [OF assms(1)] obtain a where a: "interleave a (t, u, s) = (t1, u, s1)" by blast
  from interleave_second [OF assms(2)] obtain b where b: "interleave b (t1, u, s1) = (t1, u1, s2)" by blast
  from interleave_first [OF assms(3)] obtain c where c: "interleave c (t1, u1, s2) = (t2, u1, s3)" by blast
  from a b c show ?thesis by (intro exI [of _ "a @ b @ c"]) (simp add: interleave_append)
qed

lemma interleave_interrupt:
  "takes t s t1 s1 \<Longrightarrow> alone u s1 = (q, s2) \<Longrightarrow> alone t1 s2 = (r, s3) \<Longrightarrow>
   \<exists>ws. interleave ws (t, u, s) = (Done r, Done q, s3)"
  by (rule interleave_switch [OF _ takes_alone takes_alone])

end
