(* ===== verification/Cs8900a_Tasks.thy ===== *)
theory Cs8900a_Tasks
  imports Cs8900a_Contract Tasks
begin

text \<open>
  Sending and receiving of \<open>netif/cs8900a_lpc_e2129.c\<close> run in different tasks, \<open>lowLevelOutput\<close>
  in the one that sends and \<open>lowLevelInput\<close> in the polling thread, and nothing keeps one from
  interrupting the other. Here each is the sequence of its accesses to the port; without
  interruption it is the function of theory \<open>Cs8900a\<close>. The lemmas show what an interruption
  in the middle of a frame does.
\<close>

section \<open>Sending and receiving, access by access\<close>

definition skip_task :: "'w csx \<Rightarrow> ('w lpc, unit) task" where
  "skip_task C =
     task_bind (act (cs8900aWrite ADD_PORT PP_RxCFG)) (\<lambda>_.
     task_bind (ask (cs8900aRead (IOPIN C) DATA_PORT)) (\<lambda>v.
     act (cs8900aWrite DATA_PORT (v OR SKIP_1))))"

fun tx_wait_task :: "'w csx \<Rightarrow> nat \<Rightarrow> ('w lpc, bool) task" where
  "tx_wait_task C u =
     task_bind (act (cs8900aWrite ADD_PORT PP_BusST)) (\<lambda>_.
     task_bind (ask (cs8900aRead (IOPIN C) DATA_PORT)) (\<lambda>v.
     if v AND READY_FOR_TX_NOW \<noteq> 0 then Done True
     else (case u of 0 \<Rightarrow> Done False | Suc u \<Rightarrow> task_bind (skip_task C) (\<lambda>_. tx_wait_task C u))))"

declare tx_wait_task.simps [simp del]

text \<open>Reading memory is part of the access that uses the bytes.\<close>

function tx_seg_task :: "seg \<Rightarrow> nat \<Rightarrow> ('w lpc, unit res) task" where
  "tx_seg_task q u =
     (if u < seg_len q then
        (case rd (seg_mem q) (payload q + u) of
           Inl e \<Rightarrow> Done (Inl e)
         | Inr b0 \<Rightarrow>
             (case rd (seg_mem q) (payload q + u + 1) of
                Inl e \<Rightarrow> Done (Inl e)
              | Inr b1 \<Rightarrow> task_bind (act (cs8900aWriteTxBuf b0 b1)) (\<lambda>_. tx_seg_task q (u + 2))))
      else Done (Inr ()))"
  by pat_completeness auto

termination
  by (relation "measure (\<lambda>(q, u). seg_len q - u)") auto

declare tx_seg_task.simps [simp del]

fun tx_chain_task :: "seg list \<Rightarrow> ('w lpc, unit res) task" where
  "tx_chain_task [] = Done (Inr ())"
| "tx_chain_task (q # qs) =
     task_bind (act (\<lambda>st. wr_IODIR (IODIR st OR SD_ALL) st)) (\<lambda>_.
     task_bind (act (wr_IOCLR SA_ALL)) (\<lambda>_.
     task_bind (act (wr_IOSET (push_bit 4 TX_FRAME_PORT))) (\<lambda>_.
     task_rbind (tx_seg_task q 0) (\<lambda>_. tx_chain_task qs))))"

definition send_task :: "'w csx \<Rightarrow> pbuf \<Rightarrow> ('w lpc, (err_t \<times> pbuf) res) task" where
  "send_task C p =
     (let p = drop_pad (cs_eth C) p
      in task_bind (act (cs8900aWrite TX_CMD_PORT TX_START_ALL_BYTES)) (\<lambda>_.
         task_bind (act (cs8900aWrite TX_LEN_PORT (word_of_nat (tot_len p)))) (\<lambda>_.
         task_bind (tx_wait_task C 8) (\<lambda>ready.
         if \<not> ready then Done (Inr (ERR_IF, p))
         else task_rbind (tx_chain_task (chain p)) (\<lambda>_.
           task_bind (act (LINK_STATS_INC (cs_eth C) Xmit)) (\<lambda>_.
           Done (Inr (ERR_OK, reclaim_pad (cs_eth C) p))))))))"

function rx_seg_task :: "'w csx \<Rightarrow> seg \<Rightarrow> nat \<Rightarrow> ('w lpc, seg res) task" where
  "rx_seg_task C q u =
     (if u < seg_len q then
        task_bind (ask (\<lambda>st. case cs8900aReadRxBuf (IOPIN C) st of (b0, b1, st) \<Rightarrow> ((b0, b1), st))) (\<lambda>(b0, b1).
          case wr_n (seg_mem q) (payload q + u) [b0, b1] of
            Inl e \<Rightarrow> Done (Inl e)
          | Inr m \<Rightarrow>
              if u + 2 < 65536 then rx_seg_task C (q\<lparr>seg_mem := m\<rparr>) (u + 2) else Done (Inl Hang))
      else Done (Inr q))"
  by pat_completeness auto

termination
  by (relation "measure (\<lambda>(_, q, u). seg_len q - u)") auto

declare rx_seg_task.simps [simp del]

fun rx_chain_task :: "'w csx \<Rightarrow> seg list \<Rightarrow> ('w lpc, seg list res) task" where
  "rx_chain_task C [] = Done (Inr [])"
| "rx_chain_task C (q # qs) =
     task_rbind (rx_seg_task C q 0) (\<lambda>q.
     task_rbind (rx_chain_task C qs) (\<lambda>qs. Done (Inr (q # qs))))"

definition receive_task :: "'w csx \<Rightarrow> ('w lpc, pbuf option res) task" where
  "receive_task C =
     task_bind (act (cs8900aWrite ADD_PORT PP_RxEvent)) (\<lambda>_.
     task_bind (ask (cs8900aRead (IOPIN C) DATA_PORT)) (\<lambda>v.
     if v AND 0xd00 = 0 then Done (Inr None)
     else
       task_bind (ask (cs8900aReadAddrHighFirst (IOPIN C) RX_FRAME_PORT)) (\<lambda>_.
       task_bind (ask (cs8900aReadAddrHighFirst (IOPIN C) RX_FRAME_PORT)) (\<lambda>l.
       task_bind (ask (pbuf_alloc (cs_eth C) ((ucast l :: u16) + word_of_nat (ETH_PAD_SIZE (cs_eth C))))) (\<lambda>po.
       case po of
         None \<Rightarrow>
           task_bind (skip_task C) (\<lambda>_.
           task_bind (act (LINK_STATS_INC (cs_eth C) Memerr)) (\<lambda>_.
           task_bind (act (LINK_STATS_INC (cs_eth C) Drop)) (\<lambda>_. Done (Inr None))))
       | Some p \<Rightarrow>
           (let p = drop_pad (cs_eth C) p
            in task_bind (act (\<lambda>st. wr_IODIR (IODIR st AND NOT SD_ALL) st)) (\<lambda>_.
               task_bind (act (wr_IOCLR SA_ALL)) (\<lambda>_.
               task_bind (act (wr_IOSET (push_bit 4 RX_FRAME_PORT))) (\<lambda>_.
               task_rbind (rx_chain_task C (chain p)) (\<lambda>qs.
               task_bind (act (LINK_STATS_INC (cs_eth C) Recv)) (\<lambda>_.
               Done (Inr (Some (reclaim_pad (cs_eth C) (p\<lparr>chain := qs\<rparr>)))))))))))))))"

section \<open>Without interruption\<close>

lemma skip_alone: "alone (skip_task C) st = ((), cs8900aSkipFrame C st)"
  by (simp add: skip_task_def cs8900aSkipFrame_def split_beta Let_def)

lemma tx_wait_alone: "alone (tx_wait_task C u) st = cs_tx_wait C u st"
proof (induction u arbitrary: st)
  case 0
  show ?case by (simp add: tx_wait_task.simps [of C 0] cs_tx_wait.simps [of C 0] split_beta Let_def)
next
  case (Suc u)
  then show ?case
    by (simp add: tx_wait_task.simps [of C "Suc u"] cs_tx_wait.simps [of C "Suc u"] skip_alone split_beta Let_def)
qed

lemma tx_seg_call: "as_call (tx_seg_task q u) st = rbind (cs_tx_seg q u st) (\<lambda>st. Inr ((), st))"
proof (induction q u st rule: cs_tx_seg.induct)
  case (1 q u st)
  show ?case
  proof (cases "u < seg_len q")
    case True
    with 1 show ?thesis
      by (cases "rd (seg_mem q) (payload q + u)"; cases "rd (seg_mem q) (payload q + u + 1)")
        (simp_all add: tx_seg_task.simps [of q u] cs_tx_seg.simps [of q u])
  qed (simp add: tx_seg_task.simps [of q u] cs_tx_seg.simps [of q u])
qed

lemma tx_chain_call: "as_call (tx_chain_task qs) st = rbind (cs_tx_chain qs st) (\<lambda>st. Inr ((), st))"
  by (induction qs arbitrary: st) (simp_all add: tx_seg_call rbind_assoc Let_def)

lemma send_call:
  "rbind (as_call (send_task C p) st) (\<lambda>((e, p), st). Inr (e, p, st)) = cs_lowLevelOutput C p st"
  by (simp add: send_task_def cs_lowLevelOutput_def tx_wait_alone tx_chain_call rbind_assoc Let_def split_beta)

lemma rx_seg_call: "as_call (rx_seg_task C q u) st = cs_rx_seg C q u st"
proof (induction C q u st rule: cs_rx_seg.induct)
  case (1 C q u st)
  obtain b0 b1 st1 where r: "cs8900aReadRxBuf (IOPIN C) st = (b0, b1, st1)" by (metis prod_cases3)
  show ?case
  proof (cases "u < seg_len q")
    case True
    with 1 r show ?thesis
      by (cases "wr_n (seg_mem q) (payload q + u) [b0, b1]")
        (simp_all add: rx_seg_task.simps [of C q u] cs_rx_seg.simps [of C q u])
  qed (simp add: rx_seg_task.simps [of C q u] cs_rx_seg.simps [of C q u])
qed

lemma rx_chain_call: "as_call (rx_chain_task C qs) st = cs_rx_chain C qs st"
  by (induction qs arbitrary: st) (simp_all add: rx_seg_call rbind_assoc split_beta)

lemma receive_call: "as_call (receive_task C) st = cs_lowLevelInput C st"
  by (simp add: receive_task_def cs_lowLevelInput_def skip_alone rx_chain_call rbind_assoc Let_def split_beta
      split: option.splits)

section \<open>Interrupted in the middle of a segment\<close>

text \<open>
  The sender up to an offset \<open>u'\<close> of a segment: it has sent the bytes before it.
\<close>

lemma tx_seg_until:
  assumes "roomy q" and "even u" and "even u'" and "u \<le> u'" and "u' \<le> even_up (seg_len q)"
    and "at_frame_port st" and "data_of (IODIR st) = 0xff"
  shows "\<exists>st'. takes (tx_seg_task q u) st (tx_seg_task q u') st' \<and> at_frame_port st' \<and>
    data_of (IODIR st') = 0xff \<and> rest st' = rest st \<and>
    bus st' = bus st @ tx_cycles (take (u' - u) (drop (payload q + u) (seg_mem q)))"
  using assms
proof (induction "u' - u" arbitrary: u st rule: less_induct)
  case less
  show ?case
  proof (cases "u = u'")
    case True
    with less.prems show ?thesis by (auto intro: takes.Stay)
  next
    case False
    with less.prems(2-4) have u2: "u + 2 \<le> u'" by (cases "u' = Suc u") auto
    with less.prems(5) even_up_ge(2) [of "seg_len q"] have ul: "u < seg_len q" by linarith
    from less.prems(1,5) u2 have l: "payload q + u + 2 \<le> length (seg_mem q)" by (simp add: roomy_def)
    let ?m = "seg_mem q" and ?i = "payload q + u"
    have r: "rd ?m ?i = Inr (?m ! ?i)" "rd ?m (?i + 1) = Inr (?m ! (?i + 1))" using l by (simp_all add: rd_in)
    let ?st = "cs8900aWriteTxBuf (?m ! ?i) (?m ! (?i + 1)) st"
    note b = tx_buf_step [OF less.prems(6,7), of "?m ! ?i" "?m ! (?i + 1)"]
    have "u' - (u + 2) < u' - u" "even (u + 2)" using u2 less.prems(2) by simp_all
    from less.hyps [OF this(1) less.prems(1) this(2) less.prems(3) u2 less.prems(5) b(2,4)] obtain st' where
      t: "takes (tx_seg_task q (u + 2)) ?st (tx_seg_task q u') st'" "at_frame_port st'"
        "data_of (IODIR st') = 0xff" "rest st' = rest ?st"
        "bus st' = bus ?st @ tx_cycles (take (u' - (u + 2)) (drop (payload q + (u + 2)) ?m))" by blast
    have e: "tx_seg_task q u = task_bind (act (cs8900aWriteTxBuf (?m ! ?i) (?m ! (?i + 1)))) (\<lambda>_. tx_seg_task q (u + 2))"
      using ul r by (simp add: tx_seg_task.simps [of q u])
    have "takes (tx_seg_task q u) st (tx_seg_task q u') st'"
      unfolding e by (rule takes_act) (rule t(1))
    moreover have "drop ?i ?m = ?m ! ?i # ?m ! (?i + 1) # drop (?i + 2) ?m"
      using l by (simp add: Cons_nth_drop_Suc [symmetric])
    moreover have "u' - u = Suc (Suc (u' - (u + 2)))" using u2 by simp
    ultimately show ?thesis using t b(1,3) by (intro exI [of _ st']) (simp add: add.assoc)
  qed
qed

text \<open>
  With the data port as input a write access is two violations of the bus protocol, whatever
  the bytes; and it does not put the port right.
\<close>

lemma tx_buf_undriven:
  assumes "idle st" and "data_of (IODIR st) = 0"
  shows "bus (cs8900aWriteTxBuf b0 b1 st) = bus st @ [BusFault, BusFault]"
    "idle (cs8900aWriteTxBuf b0 b1 st)" "rest (cs8900aWriteTxBuf b0 b1 st) = rest st"
    "data_of (IODIR (cs8900aWriteTxBuf b0 b1 st)) = 0"
  using assms
  by (simp_all add: cs8900aWriteTxBuf_def Let_def idle_def emit_def strobes_high_def pin_fields)

lemma tx_seg_undriven:
  "roomy q \<Longrightarrow> even u \<Longrightarrow> idle st \<Longrightarrow> data_of (IODIR st) = 0 \<Longrightarrow>
   \<exists>st'. alone (tx_seg_task q u) st = (Inr (), st') \<and> idle st' \<and> rest st' = rest st \<and>
     bus st' = bus st @ replicate (even_up (seg_len q) - u) BusFault"
proof (induction q u st rule: cs_tx_seg.induct)
  case (1 q u st)
  show ?case
  proof (cases "u < seg_len q")
    case True
    have e: "u + 2 \<le> even_up (seg_len q)" using even_room [OF 1(3) True] .
    with 1(2) have l: "payload q + u + 2 \<le> length (seg_mem q)" by (simp add: roomy_def)
    let ?m = "seg_mem q" and ?i = "payload q + u"
    have r: "rd ?m ?i = Inr (?m ! ?i)" "rd ?m (?i + 1) = Inr (?m ! (?i + 1))" using l by (simp_all add: rd_in)
    note b = tx_buf_undriven [OF 1(4,5), of "?m ! ?i" "?m ! (?i + 1)"]
    from 1(1) [OF True r 1(2) _ b(2,4)] 1(3) obtain st' where
      "alone (tx_seg_task q (u + 2)) (cs8900aWriteTxBuf (?m ! ?i) (?m ! (?i + 1)) st) = (Inr (), st')" "idle st'"
      "rest st' = rest st" "bus st' = bus st @ BusFault # BusFault # replicate (even_up (seg_len q) - (u + 2)) BusFault"
      using b by auto
    moreover have "even_up (seg_len q) - u = Suc (Suc (even_up (seg_len q) - (u + 2)))" using e by simp
    ultimately show ?thesis using True r by (simp add: tx_seg_task.simps [of q u])
  next
    case False
    then have "even_up (seg_len q) - u = 0" using even_up_le [OF 1(3)] by simp
    with False 1(4,5) show ?thesis by (simp add: tx_seg_task.simps [of q u])
  qed
qed

text \<open>Whole segments, and the frame up to a point inside a segment.\<close>

lemma tx_chain_until:
  "\<forall>q \<in> set qs. roomy q \<Longrightarrow> idle st \<Longrightarrow>
   \<exists>st'. takes (tx_chain_task (qs @ rs)) st (tx_chain_task rs) st' \<and> idle st' \<and> rest st' = rest st \<and>
     bus st' = bus st @ tx_cycles (concat (map sent_bytes qs))"
proof (induction qs arbitrary: st)
  case Nil
  then show ?case by (auto intro: takes.Stay)
next
  case (Cons q qs)
  define st0 where
    "st0 = wr_IOSET (push_bit 4 TX_FRAME_PORT) (wr_IOCLR SA_ALL (wr_IODIR (IODIR st OR SD_ALL) st))"
  note s = setup_tx [OF Cons.prems(2), folded st0_def]
  from Cons.prems(1) have q: "roomy q" by simp
  from tx_seg_cycles [OF q _ s(1,2), of 0] obtain st1 where st1: "cs_tx_seg q 0 st0 = Inr st1"
    "at_frame_port st1" "rest st1 = rest st" "bus st1 = bus st @ tx_cycles (sent_bytes q)"
    by (auto simp: s(3,4) sent_bytes_def)
  have "takes (tx_chain_task ((q # qs) @ rs)) st (task_rbind (tx_seg_task q 0) (\<lambda>_. tx_chain_task (qs @ rs))) st0"
    unfolding st0_def append_Cons tx_chain_task.simps by (intro takes_act takes.Stay)
  moreover have "takes (tx_seg_task q 0) st0 (Done (Inr ())) st1"
    by (rule takes_call) (simp add: tx_seg_call st1)
  from takes_rbind [OF this] have
    "takes (task_rbind (tx_seg_task q 0) (\<lambda>_. tx_chain_task (qs @ rs))) st0 (tx_chain_task (qs @ rs)) st1"
    by (simp add: task_rbind_def)
  ultimately have t: "takes (tx_chain_task ((q # qs) @ rs)) st (tx_chain_task (qs @ rs)) st1" by (rule takes_trans)
  have i: "idle st1" using st1(2) by (simp add: at_frame_port_def)
  from Cons.IH [OF _ i] Cons.prems(1) obtain st' where u: "takes (tx_chain_task (qs @ rs)) st1 (tx_chain_task rs) st'"
    "idle st'" "rest st' = rest st1" "bus st' = bus st1 @ tx_cycles (concat (map sent_bytes qs))" by auto
  moreover have "even (length (sent_bytes q))" using q by (simp add: sent_bytes_def roomy_def)
  ultimately show ?case using st1 takes_trans [OF t u(1)] by (auto simp: tx_cycles_append)
qed

lemma tx_chain_inside:
  assumes "\<forall>q \<in> set (qs @ [q]). roomy q" and "idle st" and "even u" and "u \<le> even_up (seg_len q)"
  shows "\<exists>st'. takes (tx_chain_task (qs @ q # rs)) st (task_rbind (tx_seg_task q u) (\<lambda>_. tx_chain_task rs)) st' \<and>
    idle st' \<and> rest st' = rest st \<and>
    bus st' = bus st @ tx_cycles (concat (map sent_bytes qs) @ take u (drop (payload q) (seg_mem q)))"
proof -
  from tx_chain_until [OF _ assms(2), of qs "q # rs"] assms(1) obtain st1 where
    t1: "takes (tx_chain_task (qs @ q # rs)) st (tx_chain_task (q # rs)) st1" "idle st1" "rest st1 = rest st"
      "bus st1 = bus st @ tx_cycles (concat (map sent_bytes qs))" by auto
  define st2 where
    "st2 = wr_IOSET (push_bit 4 TX_FRAME_PORT) (wr_IOCLR SA_ALL (wr_IODIR (IODIR st1 OR SD_ALL) st1))"
  note s = setup_tx [OF t1(2), folded st2_def]
  have "takes (tx_chain_task (q # rs)) st1 (task_rbind (tx_seg_task q 0) (\<lambda>_. tx_chain_task rs)) st2"
    unfolding st2_def tx_chain_task.simps by (intro takes_act takes.Stay)
  note t2 = takes_trans [OF t1(1) this]
  from tx_seg_until [of q 0 u, OF _ _ assms(3) _ assms(4) s(1,2)] assms(1) obtain st3 where
    t3: "takes (tx_seg_task q 0) st2 (tx_seg_task q u) st3" "at_frame_port st3" "rest st3 = rest st2"
      "bus st3 = bus st2 @ tx_cycles (take u (drop (payload q) (seg_mem q)))" by auto
  have "even (length (concat (map sent_bytes qs)))" using assms(1)
    by (induction qs) (auto simp: sent_bytes_def roomy_def)
  with t1(3,4) t3(2-4) s(3,4) takes_trans [OF t2 takes_rbind [OF t3(1)]] show ?thesis
    by (auto simp: tx_cycles_append at_frame_port_def)
qed

end
