(* ===== verification/Cs8900a_Session.thy ===== *)
theory Cs8900a_Session
  imports Cs8900a_Contract
begin

text \<open>
  Sequences of calls of the CS8900A driver, sending and polling in any order, each call
  complete before the next one (\<open>netif/cs8900a_lpc_e2129.c\<close>): which frames are taken out of
  the chip, and that the bus protocol is kept throughout.
\<close>

section \<open>Frames taken out of the chip\<close>

text \<open>Between \<open>B\<close> and \<open>B'\<close> the frames \<open>taken\<close> left the chip at the front, others arrived behind.\<close>

definition moved ::
    "(cyc list \<Rightarrow> u8 list list) \<Rightarrow> (cyc list \<Rightarrow> nat) \<Rightarrow> u8 list list \<Rightarrow> cyc list \<Rightarrow> cyc list \<Rightarrow> bool" where
  "moved frames coming taken B B' \<longleftrightarrow>
     prefix (frames B) (taken @ frames B') \<and>
     length taken + length (frames B') + coming B' \<le> length (frames B) + coming B"

lemma moved_refl [simp]: "moved frames coming [] B B"
  by (simp add: moved_def)

lemma moved_trans:
  assumes "moved frames coming xs A B" and "moved frames coming ys B C"
  shows "moved frames coming (xs @ ys) A C"
proof -
  from assms obtain a b where "xs @ frames B = frames A @ a" "ys @ frames C = frames B @ b"
    by (auto simp: moved_def prefix_def)
  then have "(xs @ ys) @ frames C = frames A @ a @ b" by (metis append.assoc)
  then have "prefix (frames A) ((xs @ ys) @ frames C)" by (metis prefixI)
  with assms show ?thesis by (simp add: moved_def)
qed

lemma grows_moved: "grows frames coming (frames B) B B' \<Longrightarrow> moved frames coming [] B B'"
  by (simp add: grows_def moved_def)

lemma taken_moved: "frames B = f # fs \<Longrightarrow> grows frames coming fs B B' \<Longrightarrow> moved frames coming [f] B B'"
  by (simp add: grows_def moved_def)

text \<open>
  The chip while the driver sends: the accesses of a transmission take no frame out of it,
  except that skipping may discard the oldest.
\<close>

definition chip_tx_ok :: "(cyc list \<Rightarrow> u8) \<Rightarrow> (cyc list \<Rightarrow> u8 list list) \<Rightarrow> (cyc list \<Rightarrow> nat) \<Rightarrow> bool" where
  "chip_tx_ok chip frames coming \<longleftrightarrow>
     (\<forall>B. moved frames coming [] B (B @ wr16 ADD_PORT PP_BusST @ rd16 DATA_PORT)) \<and>
     (\<forall>B v. moved frames coming [] B (B @ wr16 TX_CMD_PORT v)) \<and>
     (\<forall>B v. moved frames coming [] B (B @ wr16 TX_LEN_PORT v)) \<and>
     (\<forall>B bs. moved frames coming [] B (B @ tx_cycles bs)) \<and>
     (\<forall>B. \<exists>d. length d \<le> 1 \<and> moved frames coming d B (B @ skip_cycles chip B))"

lemma chip_txD:
  assumes "chip_tx_ok chip frames coming"
  shows "moved frames coming [] B (B @ wr16 ADD_PORT PP_BusST @ rd16 DATA_PORT)"
    "moved frames coming [] B (B @ wr16 TX_CMD_PORT v)" "moved frames coming [] B (B @ wr16 TX_LEN_PORT v)"
    "moved frames coming [] B (B @ tx_cycles bs)"
    "\<exists>d. length d \<le> 1 \<and> moved frames coming d B (B @ skip_cycles chip B)"
  using assms unfolding chip_tx_ok_def by blast+

lemma tx_wait_moved:
  assumes "chip_tx_ok chip frames coming"
  shows "tx_wait_bus chip u B = (r, B') \<Longrightarrow>
    \<exists>lost. length lost \<le> u \<and> moved frames coming lost B B' \<and> clean B B'"
proof (induction u arbitrary: B)
  case 0
  then have "B' = B @ wr16 ADD_PORT PP_BusST @ rd16 DATA_PORT"
    by (auto simp: tx_wait_bus.simps [of chip 0] Let_def split: if_splits)
  with chip_txD(1) [OF assms, of B] show ?case by auto
next
  case (Suc u)
  let ?B = "B @ wr16 ADD_PORT PP_BusST @ rd16 DATA_PORT"
  note m = chip_txD(1) [OF assms, of B]
  show ?case
  proof (cases "B' = ?B")
    case True
    with m show ?thesis by (intro exI [of _ "[]"]) simp
  next
    case False
    with Suc.prems have "tx_wait_bus chip u (?B @ skip_cycles chip ?B) = (r, B')"
      by (auto simp: tx_wait_bus.simps [of chip "Suc u"] Let_def split: if_splits)
    from Suc.IH [OF this] obtain lost where
      l: "length lost \<le> u" "moved frames coming lost (?B @ skip_cycles chip ?B) B'"
        "clean (?B @ skip_cycles chip ?B) B'" by blast
    from chip_txD(5) [OF assms, of ?B] obtain d where
      d: "length d \<le> 1" "moved frames coming d ?B (?B @ skip_cycles chip ?B)" by blast
    from moved_trans [OF moved_trans [OF m d(2)] l(2)] l(1) d(1)
    have "moved frames coming (d @ lost) B B'" "length (d @ lost) \<le> Suc u" by simp_all
    moreover have "clean B (?B @ skip_cycles chip ?B)" by simp
    ultimately show ?thesis using clean_trans l(3) by blast
  qed
qed

lemma cs_send_moved:
  assumes ok: "cs_ok C chip frames coming h" and tx: "chip_tx_ok chip frames coming" and i: "idle st"
    and s: "sendable C p"
  shows "\<exists>e p' st' lost. cs_lowLevelOutput C p st = Inr (e, p', st') \<and> idle st' \<and> clean (bus st) (bus st') \<and>
    length lost \<le> 8 \<and> moved frames coming lost (bus st) (bus st')"
proof -
  have o': "pin_ok (IOPIN C) chip" "header_ok (cs_eth C)" "io_frame (cs_eth C)" using ok by (simp_all add: cs_ok_def)
  let ?l = "wr16 TX_LEN_PORT (word_of_nat (tot_len p - ETH_PAD_SIZE (cs_eth C)))"
  let ?B = "bus st @ wr16 TX_CMD_PORT TX_START_ALL_BYTES @ ?l"
  obtain r B where w: "tx_wait_bus chip 8 ?B = (r, B)" by fastforce
  from tx_wait_moved [OF tx w] obtain lost where
    l: "length lost \<le> 8" "moved frames coming lost ?B B" "clean ?B B" by blast
  have "moved frames coming [] (bus st) ?B"
    using moved_trans [OF chip_txD(2,3) [OF tx]] by fastforce
  from moved_trans [OF this l(2)] have m: "moved frames coming lost (bus st) B" by simp
  have c: "clean (bus st) B" using clean_trans [of "bus st" ?B B] l(3) by simp
  from cs_send_cycles [OF i o'(1,2) s w] obtain st1 where st1: "idle st1"
    "if r then cs_lowLevelOutput C p st = Inr (ERR_OK, p, LINK_STATS_INC (cs_eth C) Xmit st1) \<and>
       bus st1 = B @ tx_cycles (concat (map sent_bytes (chain (drop_pad (cs_eth C) p))))
     else cs_lowLevelOutput C p st = Inr (ERR_IF, drop_pad (cs_eth C) p, st1) \<and> bus st1 = B" by blast
  show ?thesis
  proof (cases r)
    case True
    let ?st = "LINK_STATS_INC (cs_eth C) Xmit st1"
    have "same_io st1 ?st" by (rule io_frameD(4) [OF o'(3)])
    then have st: "bus ?st = bus st1" "idle ?st" using st1(1) same_io_idle by (auto simp: same_io_def)
    have "moved frames coming lost (bus st) (bus st1)"
      using moved_trans [OF m chip_txD(4) [OF tx]] st1(2) True by simp
    moreover have "clean (bus st) (bus st1)" using clean_trans [OF c] st1(2) True by simp
    ultimately show ?thesis using True st1 st l(1) by auto
  next
    case False
    with st1 m c l(1) show ?thesis by auto
  qed
qed

section \<open>Sequences of calls\<close>

datatype cs_op = Send pbuf | Poll

text \<open>The packets received, in order; each is passed to lwIP or freed before the next call.\<close>

fun cs_run :: "'w csx \<Rightarrow> cs_op list \<Rightarrow> 'w lpc \<Rightarrow> (pbuf list \<times> 'w lpc) res" where
  "cs_run C [] st = Inr ([], st)"
| "cs_run C (Send p # ops) st = rbind (cs_lowLevelOutput C p st) (\<lambda>(_, _, st). cs_run C ops st)"
| "cs_run C (Poll # ops) st =
     rbind (cs_lowLevelInput C st) (\<lambda>(po, st).
     case po of
       None \<Rightarrow> cs_run C ops st
     | Some p \<Rightarrow>
         rbind (eth_dispatch (cs_eth C) p st) (\<lambda>st.
         rbind (cs_run C ops st) (\<lambda>(ps, st). Inr (p # ps, st))))"

abbreviation frame_of :: "'w csx \<Rightarrow> pbuf \<Rightarrow> u8 list" where
  "frame_of C p \<equiv> pbuf_frame (cs_eth C) p"

definition sends :: "cs_op list \<Rightarrow> nat" where
  "sends ops = length (filter (\<lambda>x. x \<noteq> Poll) ops)"

lemma cs_poll_moved:
  assumes ok: "cs_ok C chip frames coming h" and i: "idle st"
    and mem: "\<And>n st. fst (pbuf_alloc (cs_eth C) n st) \<noteq> None"
  shows "\<exists>po st'. cs_lowLevelInput C st = Inr (po, st') \<and> idle st' \<and> clean (bus st) (bus st') \<and>
    (case po of None \<Rightarrow> moved frames coming [] (bus st) (bus st')
     | Some p \<Rightarrow> type_readable (cs_eth C) p \<and> moved frames coming [frame_of C p] (bus st) (bus st'))"
  using ok i
proof (cases rule: cs_receive_cases)
  case (none st')
  have "chip_ok chip frames coming" using ok by (simp add: cs_ok_def)
  from grows_moved [of frames coming, OF chip_poll(1) [OF this]] none show ?thesis by simp
next
  case (frame f fs po st')
  have "chip_ok chip frames coming" using ok by (simp add: cs_ok_def)
  from moved_trans [OF grows_moved [of frames coming, OF chip_poll(1) [OF this]] taken_moved [OF frame(1,7)]]
  have "moved frames coming [f] (bus st) (bus st')" by simp
  moreover obtain p where "po = Some p" using frame(6) mem by (cases po) auto
  ultimately show ?thesis using frame by (auto simp: pbuf_frame_def)
qed

lemma cs_run_moved:
  assumes ok: "cs_ok C chip frames coming h" and tx: "chip_tx_ok chip frames coming"
    and mem: "\<And>n st. fst (pbuf_alloc (cs_eth C) n st) \<noteq> None"
  shows "idle st \<Longrightarrow> \<forall>p. Send p \<in> set ops \<longrightarrow> sendable C p \<Longrightarrow>
    \<exists>ps st' taken. cs_run C ops st = Inr (ps, st') \<and> idle st' \<and> clean (bus st) (bus st') \<and>
      moved frames coming taken (bus st) (bus st') \<and> subseq (map (frame_of C) ps) taken \<and>
      length taken \<le> length ps + 8 * sends ops"
proof (induction ops arbitrary: st)
  case Nil
  then show ?case by (auto simp: sends_def intro!: exI [of _ "[]"])
next
  case (Cons x ops)
  have rest: "\<forall>p. Send p \<in> set ops \<longrightarrow> sendable C p" using Cons.prems(2) by simp
  show ?case
  proof (cases x)
    case (Send p)
    with Cons.prems(2) have "sendable C p" by simp
    from cs_send_moved [OF ok tx Cons.prems(1) this] obtain e p' st1 lost where
      s: "cs_lowLevelOutput C p st = Inr (e, p', st1)" "idle st1" "clean (bus st) (bus st1)"
        "length lost \<le> 8" "moved frames coming lost (bus st) (bus st1)" by blast
    from Cons.IH [OF s(2) rest] obtain ps st' taken where
      r: "cs_run C ops st1 = Inr (ps, st')" "idle st'" "clean (bus st1) (bus st')"
        "moved frames coming taken (bus st1) (bus st')" "subseq (map (frame_of C) ps) taken"
        "length taken \<le> length ps + 8 * sends ops" by blast
    have "length (lost @ taken) \<le> length ps + 8 * sends (x # ops)"
      using r(6) s(4) Send by (simp add: sends_def)
    moreover have "subseq (map (frame_of C) ps) (lost @ taken)" using r(5) by (rule list_emb_append2)
    ultimately show ?thesis
      using s(1) r(1,2) clean_trans [OF s(3) r(3)] moved_trans [OF s(5) r(4)] Send by auto
  next
    case Poll
    from cs_poll_moved [OF ok Cons.prems(1) mem] obtain po st1 where
      p: "cs_lowLevelInput C st = Inr (po, st1)" "idle st1" "clean (bus st) (bus st1)"
        "case po of None \<Rightarrow> moved frames coming [] (bus st) (bus st1)
         | Some p \<Rightarrow> type_readable (cs_eth C) p \<and> moved frames coming [frame_of C p] (bus st) (bus st1)" by blast
    show ?thesis
    proof (cases po)
      case None
      from Cons.IH [OF p(2) rest] obtain ps st' taken where
        r: "cs_run C ops st1 = Inr (ps, st')" "idle st'" "clean (bus st1) (bus st')"
          "moved frames coming taken (bus st1) (bus st')" "subseq (map (frame_of C) ps) taken"
          "length taken \<le> length ps + 8 * sends ops" by blast
      from p(4) None have "moved frames coming [] (bus st) (bus st1)" by simp
      from moved_trans [OF this r(4)] p(1) r(1,2,5,6) clean_trans [OF p(3) r(3)] None Poll show ?thesis
        by (auto simp: sends_def)
    next
      case (Some q)
      from p(4) Some have q: "type_readable (cs_eth C) q" "moved frames coming [frame_of C q] (bus st) (bus st1)"
        by simp_all
      have st: "stack_ok (cs_eth C) (\<lambda>st. h (rest st)) (\<lambda>st. frames (bus st))" "io_frame (cs_eth C)"
        using ok by (simp_all add: cs_ok_def)
      from eth_dispatch_disposes [OF st(1) q(1), of st1] obtain st2 where
        d: "eth_dispatch (cs_eth C) q st1 = Inr st2" by blast
      from dispatch_io [OF st(2) d] have s2: "bus st2 = bus st1" "idle st2" using p(2) same_io_idle
        by (auto simp: same_io_def)
      from Cons.IH [OF s2(2) rest] obtain ps st' taken where
        r: "cs_run C ops st2 = Inr (ps, st')" "idle st'" "clean (bus st1) (bus st')"
          "moved frames coming taken (bus st1) (bus st')" "subseq (map (frame_of C) ps) taken"
          "length taken \<le> length ps + 8 * sends ops" unfolding s2(1) by blast
      have "subseq (map (frame_of C) (q # ps)) ([frame_of C q] @ taken)" using r(5) by simp
      moreover have "length ([frame_of C q] @ taken) \<le> length (q # ps) + 8 * sends (x # ops)"
        using r(6) Poll by (simp add: sends_def)
      moreover have "cs_run C (x # ops) st = Inr (q # ps, st')" using p(1) Some d r(1) Poll by simp
      ultimately show ?thesis using r(2) clean_trans [OF p(3) r(3)] moved_trans [OF q(2) r(4)] by blast
    qed
  qed
qed

end
