(* ===== verification/Cs8900a_Sharing.thy ===== *)
theory Cs8900a_Sharing
  imports Cs8900a_Properties Cs8900a_Tasks Cs8900a_Session
begin

text \<open>
  The CS8900A driver between the sending task and the polling thread
  (\<open>netif/cs8900a_lpc_e2129.c\<close>): one call after the other, frames arrive in order and the bus
  protocol is kept; a poll in the middle of a frame, or between choosing a register and
  reading it, breaks both.
\<close>

section \<open>One call at a time\<close>

text \<open>A call that is not interrupted, made access by access, is the function: sending and
  receiving as sequences of steps give the same result, fault included, and leave the same
  state as \<open>lowLevelOutput\<close> and \<open>lowLevelInput\<close>.\<close>

theorem calls_uninterrupted:
  "rbind (as_call (send_task C p) st) (\<lambda>((e, p), st). Inr (e, p, st)) = cs_lowLevelOutput C p st \<and>
   as_call (receive_task C) st = cs_lowLevelInput C st"
  by (simp add: send_call receive_call)

text \<open>C6: When lwIP has memory for every packet and each segment sent has room for the byte that
  rounds it to an even length (\<open>sendable\<close>), sends and polls called one at a time, in any order
  and number, never fault and never violate the bus protocol. The packets received are frames
  of the chip, each once and in the order of their arrival; a frame that was taken out of the
  chip and not received was skipped by a send that found no room, at most eight for each send,
  and without sends none is lost.\<close>

theorem driver_in_sequence:
  assumes "cs_ok C chip frames coming h" and "chip_tx_ok chip frames coming" and "idle st"
    and "\<And>n st. fst (pbuf_alloc (cs_eth C) n st) \<noteq> None" and "\<And>p. Send p \<in> set ops \<Longrightarrow> sendable C p"
  shows "\<exists>ps st' taken. cs_run C ops st = Inr (ps, st') \<and> idle st' \<and> clean (bus st) (bus st') \<and>
    prefix (frames (bus st)) (taken @ frames (bus st')) \<and> subseq (map (frame_of C) ps) taken \<and>
    length taken \<le> length ps + 8 * sends ops \<and> (sends ops = 0 \<longrightarrow> map (frame_of C) ps = taken)"
proof -
  from cs_run_moved [OF assms(1,2,4,3)] assms(5) obtain ps st' taken where
    r: "cs_run C ops st = Inr (ps, st')" "idle st'" "clean (bus st) (bus st')"
      "moved frames coming taken (bus st) (bus st')" "subseq (map (frame_of C) ps) taken"
      "length taken \<le> length ps + 8 * sends ops" by blast
  have "map (frame_of C) ps = taken" if "sends ops = 0"
    using r(5,6) that list_emb_length [OF r(5)] by (intro subseq_same_length) simp_all
  with r show ?thesis by (auto simp: moved_def)
qed

text \<open>The small chip keeps its frames while the driver sends.\<close>

lemma ex_chip_still:
  "moved ex_frames ex_coming [] B (B @ X)"
  if "waiting (foldl chip_cyc (chip_run B) X) = waiting (chip_run B)"
    "later (foldl chip_cyc (chip_run B) X) = later (chip_run B)"
  using that by (simp add: moved_def ex_frames_def ex_coming_def chip_run_append)

lemma chip_tx_data: "waiting (foldl chip_cyc s (tx_cycles bs)) = waiting s \<and>
    later (foldl chip_cyc s (tx_cycles bs)) = later s"
  by (induction bs arbitrary: s rule: tx_cycles.induct) simp_all

lemma ex_chip_tx_ok: "chip_tx_ok ex_chip ex_frames ex_coming"
proof -
  have "moved ex_frames ex_coming [] B (B @ wr16 ADD_PORT PP_BusST @ rd16 DATA_PORT)" for B
    by (rule ex_chip_still) (simp_all add: wr16_def rd16_def port_numbers chip_data_def)
  moreover have "moved ex_frames ex_coming [] B (B @ wr16 TX_CMD_PORT v)"
    "moved ex_frames ex_coming [] B (B @ wr16 TX_LEN_PORT v)" for B v
    by (rule ex_chip_still; simp add: wr16_def port_numbers)+
  moreover have "moved ex_frames ex_coming [] B (B @ tx_cycles bs)" for B bs
    by (rule ex_chip_still) (simp_all add: chip_tx_data)
  moreover have "moved ex_frames ex_coming [] B (B @ skip_cycles ex_chip B)" for B
    by (rule ex_chip_still) (simp_all add: skip_cycles_def wr16_def rd16_def port_numbers chip_data_def)
  ultimately show ?thesis unfolding chip_tx_ok_def by (metis le0 list.size(3))
qed

lemma ex_single_sendable: "sendable ex_cs ex_single"
proof -
  have e: "ETH_PAD_SIZE (cs_eth ex_cs) = 2" by (simp add: ex_cs_def ex_cs_eth_def)
  have h: "header_ok (cs_eth ex_cs)" using ex_cs_ok by (simp add: cs_ok_def)
  have p: "padded (cs_eth ex_cs) ex_single"
    by (simp add: padded_def pbuf_ok_def seg_ok_def e) (simp add: ex_single_def ex_frame_def)
  then show ?thesis unfolding sendable_def drop_pad_lower [OF h p] e
    by (simp add: ex_single_def lower_def roomy_def ex_frame_def)
qed

theorem driver_in_sequence_witness:
  "\<exists>ps st' taken. cs_run ex_cs [Poll, Send ex_single, Poll] ex_idle = Inr (ps, st') \<and> clean [] (bus st') \<and>
    prefix [ex_frame] (taken @ ex_frames (bus st')) \<and> subseq (map (frame_of ex_cs) ps) taken"
proof -
  have m: "fst (pbuf_alloc (cs_eth ex_cs) n st) \<noteq> None" for n st by (simp add: ex_cs_def ex_cs_eth_def)
  have s: "Send p \<in> set [Poll, Send ex_single, Poll] \<Longrightarrow> sendable ex_cs p" for p
    using ex_single_sendable by simp
  have "bus ex_idle = []" "ex_frames [] = [ex_frame]"
    by (simp_all add: ex_idle_def ex_frames_def chip_run_def)
  with driver_in_sequence [OF ex_cs_ok ex_chip_tx_ok ex_idle_idle m s] show ?thesis by fastforce
qed

section \<open>A poll in the middle of a frame\<close>

lemma receive_empty_alone:
  assumes "idle st" and "pin_ok (IOPIN C) chip" and "rx_flag chip (bus st) = 0"
  shows "\<exists>st'. alone (receive_task C) st = (Inr None, st') \<and> idle st' \<and> rest st' = rest st \<and>
    bus st' = bus st @ poll_cycles \<and> data_of (IODIR st') = 0"
proof -
  obtain v st1 where r: "cs8900aRead (IOPIN C) DATA_PORT (cs8900aWrite ADD_PORT PP_RxEvent st) = (v, st1)"
    by fastforce
  note p = poll_refines [OF assms(1,2) r]
  have "data_of (IODIR st1) = 0"
    using cs8900aRead_cycles(5) [OF cs8900aWrite_cycles(2) [OF assms(1) port_small(1)] ports(2) assms(2),
      where data1 = PP_RxEvent] r by simp
  moreover have "v AND 0xd00 = 0" using assms(3) p(1) by (simp add: rx_flag_def)
  ultimately show ?thesis using r p by (simp add: receive_task_def)
qed

text \<open>The sender ready to copy the frame.\<close>

definition send_rest :: "'w csx \<Rightarrow> pbuf \<Rightarrow> unit \<Rightarrow> ('w lpc, (err_t \<times> pbuf) res) task" where
  "send_rest C p _ =
     task_bind (act (LINK_STATS_INC (cs_eth C) Xmit)) (\<lambda>_. Done (Inr (ERR_OK, reclaim_pad (cs_eth C) p)))"

lemma send_task_eq:
  "send_task C p =
     task_bind (act (cs8900aWrite TX_CMD_PORT TX_START_ALL_BYTES)) (\<lambda>_.
     task_bind (act (cs8900aWrite TX_LEN_PORT (word_of_nat (tot_len (drop_pad (cs_eth C) p))))) (\<lambda>_.
     task_bind (tx_wait_task C 8) (\<lambda>ready.
     if \<not> ready then Done (Inr (ERR_IF, drop_pad (cs_eth C) p))
     else task_rbind (tx_chain_task (chain (drop_pad (cs_eth C) p))) (send_rest C (drop_pad (cs_eth C) p)))))"
  by (simp add: send_task_def send_rest_def [abs_def] Let_def cong: if_cong)

lemma send_ready:
  assumes "idle st" and "pin_ok (IOPIN C) chip" and "header_ok (cs_eth C)" and "padded (cs_eth C) p"
    and "tx_wait_bus chip 8 (bus st @ wr16 TX_CMD_PORT TX_START_ALL_BYTES @
      wr16 TX_LEN_PORT (word_of_nat (tot_len p - ETH_PAD_SIZE (cs_eth C)))) = (True, B)"
  shows "\<exists>st'. takes (send_task C p) st
      (task_rbind (tx_chain_task (chain (drop_pad (cs_eth C) p))) (send_rest C (drop_pad (cs_eth C) p))) st' \<and>
    idle st' \<and> bus st' = B \<and> rest st' = rest st"
proof -
  let ?p = "drop_pad (cs_eth C) p"
  have pk: "pbuf_ok p" "ETH_PAD_SIZE (cs_eth C) \<le> seg_len (hd (chain p))" using assms(4) by (simp_all add: padded_def)
  note lo = lower_facts [OF pk, folded drop_pad_lower [OF assms(3,4)]]
  define st1 where "st1 = cs8900aWrite TX_LEN_PORT (word_of_nat (tot_len ?p))
    (cs8900aWrite TX_CMD_PORT TX_START_ALL_BYTES st)"
  note w1 = cs8900aWrite_cycles [OF assms(1) port_small(3), where data = TX_START_ALL_BYTES]
  note w2 = cs8900aWrite_cycles [OF w1(2) port_small(4),
    where data = "word_of_nat (tot_len ?p)", folded st1_def]
  obtain b st2 where t: "cs_tx_wait C 8 st1 = (b, st2)" by fastforce
  from tx_wait_refines [OF w2(2) assms(2) t] assms(5) have b: "b" "bus st2 = B" "idle st2" "rest st2 = rest st"
    by (simp_all add: w1 w2 lo(3))
  from t b(1) have "alone (tx_wait_task C 8) st1 = (True, st2)" by (simp add: tx_wait_alone)
  note tk = takes_bind [OF takes_alone [OF this], where k = "\<lambda>ready. if \<not> ready then Done (Inr (ERR_IF, ?p))
    else task_rbind (tx_chain_task (chain ?p)) (send_rest C ?p)", simplified]
  have "takes (send_task C p) st (task_rbind (tx_chain_task (chain ?p)) (send_rest C ?p)) st2"
    unfolding send_task_eq by (intro takes_act) (use tk in \<open>simp add: st1_def\<close>)
  with b show ?thesis by blast
qed

lemma send_finish:
  assumes "idle st" and "header_ok (cs_eth C)" and "padded (cs_eth C) p"
    and "\<forall>q \<in> set (chain (drop_pad (cs_eth C) p)). roomy q"
  shows "\<exists>st'. takes (task_rbind (tx_chain_task (chain (drop_pad (cs_eth C) p))) (send_rest C (drop_pad (cs_eth C) p))) st
      (Done (Inr (ERR_OK, p))) (LINK_STATS_INC (cs_eth C) Xmit st') \<and>
    bus st' = bus st @ tx_cycles (concat (map sent_bytes (chain (drop_pad (cs_eth C) p))))"
proof -
  let ?p = "drop_pad (cs_eth C) p"
  from tx_chain_cycles [OF assms(4,1)] obtain st1 where
    t: "cs_tx_chain (chain ?p) st = Inr st1" "bus st1 = bus st @ tx_cycles (concat (map sent_bytes (chain ?p)))"
    by blast
  from takes_call [of "tx_chain_task (chain ?p)" st "()" st1] t(1) have
    "takes (tx_chain_task (chain ?p)) st (Done (Inr ())) st1" by (simp add: tx_chain_call)
  from takes_rbind [OF this, of "send_rest C ?p"] have
    "takes (task_rbind (tx_chain_task (chain ?p)) (send_rest C ?p)) st (send_rest C ?p ()) st1" by simp
  moreover have "takes (send_rest C ?p ()) st1 (Done (Inr (ERR_OK, p))) (LINK_STATS_INC (cs_eth C) Xmit st1)"
    by (simp add: send_rest_def reclaim_drop_pad [OF assms(2,3)] takes_act takes.Stay)
  ultimately show ?thesis using t(2) by (blast intro: takes_trans)
qed

text \<open>C8: Nothing keeps the polling thread from interrupting a sender, and then the frame is
  destroyed: when the thread polls an idle chip after the sender has copied \<open>u\<close> bytes of a
  segment, the port is left at the data register and as an input; every byte of the rest of
  the segment is strobed without being driven, a violation of the bus protocol, and none of
  them gets to the frame port. The sender notices nothing and reports success.\<close>

theorem preempted_send:
  assumes "idle st" and "pin_ok (IOPIN C) chip" and "header_ok (cs_eth C)" and "padded (cs_eth C) p"
    and "chain (drop_pad (cs_eth C) p) = qs @ q # rs"
    and "\<forall>q \<in> set (chain (drop_pad (cs_eth C) p)). roomy q" and "even u" and "u \<le> even_up (seg_len q)"
    and "tx_wait_bus chip 8 (bus st @ wr16 TX_CMD_PORT TX_START_ALL_BYTES @
      wr16 TX_LEN_PORT (word_of_nat (tot_len p - ETH_PAD_SIZE (cs_eth C)))) = (True, B)"
    and "sent = tx_cycles (concat (map sent_bytes qs) @ take u (drop (payload q) (seg_mem q)))"
    and "rx_flag chip (B @ sent) = 0"
  shows "\<exists>ws st'. interleave ws (send_task C p, receive_task C, st) =
      (Done (Inr (ERR_OK, p)), Done (Inr None), LINK_STATS_INC (cs_eth C) Xmit st') \<and>
    bus st' = B @ sent @ poll_cycles @ replicate (even_up (seg_len q) - u) BusFault @
      tx_cycles (concat (map sent_bytes rs))"
proof -
  let ?p = "drop_pad (cs_eth C) p"
  have ro: "\<forall>q \<in> set (qs @ [q]). roomy q" "roomy q" "\<forall>q \<in> set rs. roomy q" using assms(5,6) by auto
  from send_ready [OF assms(1-4,9)] obtain st1 where
    t1: "takes (send_task C p) st (task_rbind (tx_chain_task (chain ?p)) (send_rest C ?p)) st1"
      "idle st1" "bus st1 = B" by blast
  from tx_chain_inside [OF ro(1) t1(2) assms(7,8), of rs] obtain st2 where
    t2: "takes (tx_chain_task (qs @ q # rs)) st1 (task_rbind (tx_seg_task q u) (\<lambda>_. tx_chain_task rs)) st2"
      "idle st2" "bus st2 = B @ sent" using t1(3) assms(10) by auto
  have t: "takes (send_task C p) st
      (task_rbind (task_rbind (tx_seg_task q u) (\<lambda>_. tx_chain_task rs)) (send_rest C ?p)) st2"
    using takes_trans [OF t1(1)] takes_rbind [OF t2(1)] assms(5) by metis
  from receive_empty_alone [OF t2(2) assms(2)] assms(11) t2(3) obtain st3 where
    t3: "alone (receive_task C) st2 = (Inr None, st3)" "idle st3" "bus st3 = B @ sent @ poll_cycles"
      "data_of (IODIR st3) = 0" by auto
  from tx_seg_undriven [OF ro(2) assms(7) t3(2,4)] obtain st4 where
    t4: "alone (tx_seg_task q u) st3 = (Inr (), st4)" "idle st4"
      "bus st4 = bus st3 @ replicate (even_up (seg_len q) - u) BusFault" by blast
  from tx_chain_cycles [OF ro(3) t4(2)] obtain st5 where
    t5: "cs_tx_chain rs st4 = Inr st5" "bus st5 = bus st4 @ tx_cycles (concat (map sent_bytes rs))" by blast
  from t5(1) have "as_call (tx_chain_task rs) st4 = Inr ((), st5)" by (simp add: tx_chain_call)
  then have a5: "alone (tx_chain_task rs) st4 = (Inr (), st5)"
    by (auto simp: as_call_def split: prod.splits sum.splits)
  have "alone (task_rbind (task_rbind (tx_seg_task q u) (\<lambda>_. tx_chain_task rs)) (send_rest C ?p)) st3 =
      (Inr (ERR_OK, reclaim_pad (cs_eth C) ?p), LINK_STATS_INC (cs_eth C) Xmit st5)"
    by (simp add: t4(1) a5 send_rest_def)
  from interleave_interrupt [OF t t3(1) this] t5(2) t4(3) t3(3)
  show ?thesis by (auto simp: reclaim_drop_pad [OF assms(3,4)])
qed

text \<open>A chip that is always ready to send and never receives anything.\<close>

definition quiet_run :: "cyc list \<Rightarrow> chip_state" where
  "quiet_run B = foldl chip_cyc \<lparr>ptr = (0, 0), waiting = [], later = 0, phase = 0, current = [], answer = 0\<rparr> B"

definition quiet_chip :: "cyc list \<Rightarrow> u8" where "quiet_chip B = answer (quiet_run B)"

definition quiet_cs :: "nat csx" where
  "quiet_cs = ex_cs\<lparr>IOPIN := (\<lambda>st. push_bit 16 (ucast (quiet_chip (bus st))))\<rparr>"

lemma quiet_run_append: "quiet_run (B @ X) = foldl chip_cyc (quiet_run B) X"
  by (simp add: quiet_run_def)

lemma quiet_waiting: "waiting (quiet_run B) = [] \<and> later (quiet_run B) = 0"
proof (induction B rule: rev_induct)
  case Nil
  then show ?case by (simp add: quiet_run_def)
next
  case (snoc c B)
  then show ?case by (cases c) (simp_all add: quiet_run_append chip_data_def chip_frame_port_def)
qed

lemma quiet_flag: "rx_flag quiet_chip B = 0"
  by (simp add: rx_flag_def chip_word_def quiet_chip_def quiet_run_append wr16_def port_numbers chip_data_def
      quiet_waiting)

lemma quiet_pin_ok: "pin_ok (IOPIN quiet_cs) quiet_chip"
proof -
  have "data_of (push_bit 16 (ucast b)) = ucast (b :: u8)" for b
    using set_data(1) [of 0 "ucast b"] by (simp add: ucast_u8 data_of_def)
  then show ?thesis by (simp add: pin_ok_def quiet_cs_def)
qed

lemma quiet_ready: "fst (tx_wait_bus quiet_chip 8 B)"
  by (simp add: tx_wait_bus.simps [of _ 8] chip_word_def quiet_chip_def quiet_run_append
      wr16_def port_numbers chip_data_def READY_FOR_TX_NOW_def Let_def)

text \<open>Interrupted after four bytes of a frame of 20 bytes: 16 violations, and success.\<close>

theorem preempted_send_witness:
  "\<exists>ws B st'. interleave ws (send_task quiet_cs ex_single, receive_task quiet_cs, ex_idle) =
      (Done (Inr (ERR_OK, ex_single)), Done (Inr None), st') \<and>
    bus st' = B @ tx_cycles (take 4 ex_frame) @ poll_cycles @ replicate 16 BusFault"
proof -
  have eth: "cs_eth quiet_cs = cs_eth ex_cs" by (simp add: quiet_cs_def)
  have e: "ETH_PAD_SIZE (cs_eth ex_cs) = 2" "LINK_STATS_INC (cs_eth ex_cs) Xmit st = st" for st
    by (simp_all add: ex_cs_def ex_cs_eth_def)
  have h: "header_ok (cs_eth ex_cs)" using ex_cs_ok by (simp add: cs_ok_def)
  have p: "padded (cs_eth ex_cs) ex_single" "\<forall>q \<in> set (chain (drop_pad (cs_eth ex_cs) ex_single)). roomy q"
    using ex_single_sendable by (simp_all add: sendable_def)
  define q where "q = hd (chain (drop_pad (cs_eth ex_cs) ex_single))"
  have q: "chain (drop_pad (cs_eth ex_cs) ex_single) = [] @ q # []" "seg_len q = 20"
    "take 4 (drop (payload q) (seg_mem q)) = take 4 ex_frame"
    unfolding q_def drop_pad_lower [OF h p(1)] e by (simp_all add: ex_single_def lower_def ex_frame_def)
  obtain r B where w: "tx_wait_bus quiet_chip 8 (bus ex_idle @ wr16 TX_CMD_PORT TX_START_ALL_BYTES @
      wr16 TX_LEN_PORT (word_of_nat (tot_len ex_single - ETH_PAD_SIZE (cs_eth ex_cs)))) = (r, B)" by fastforce
  with quiet_ready have r: "r" by (metis fst_conv)
  have "even (4 :: nat)" "4 \<le> even_up (seg_len q)" "even_up (seg_len q) = 20" by (simp_all add: q(2))
  with preempted_send [of ex_idle quiet_cs quiet_chip ex_single "[]" q "[]" 4, unfolded eth e(2),
      OF ex_idle_idle quiet_pin_ok h p(1) q(1) p(2) _ _ w [unfolded eqTrueI [OF r]] refl quiet_flag]
  show ?thesis by (auto simp: q(3))
qed

section \<open>A poll between choosing a register and reading it\<close>

definition receive_rest :: "'w csx \<Rightarrow> ('w lpc, pbuf option res) task" where
  "receive_rest C = fst (turn (receive_task C) undefined)"

lemma receive_task_takes: "takes (receive_task C) st (receive_rest C) (cs8900aWrite ADD_PORT PP_RxEvent st)"
proof -
  have "receive_task C = Act (\<lambda>s. (receive_rest C, cs8900aWrite ADD_PORT PP_RxEvent s))"
    by (simp add: receive_rest_def receive_task_def act_def)
  then show ?thesis by (metis takes.Stay takes.Step)
qed

text \<open>The sender that has chosen \<open>BusST\<close>, and is about to read it.\<close>

definition send_asked :: "'w csx \<Rightarrow> pbuf \<Rightarrow> ('w lpc, (err_t \<times> pbuf) res) task" where
  "send_asked C p =
     task_bind (task_bind (ask (cs8900aRead (IOPIN C) DATA_PORT)) (\<lambda>v.
       if v AND READY_FOR_TX_NOW \<noteq> 0 then Done True
       else task_bind (skip_task C) (\<lambda>_. tx_wait_task C 7))) (\<lambda>ready.
     if \<not> ready then Done (Inr (ERR_IF, drop_pad (cs_eth C) p))
     else task_rbind (tx_chain_task (chain (drop_pad (cs_eth C) p))) (send_rest C (drop_pad (cs_eth C) p)))"

lemma send_task_asks:
  "takes (send_task C p) st (send_asked C p)
     (cs8900aWrite ADD_PORT PP_BusST (cs8900aWrite TX_LEN_PORT (word_of_nat (tot_len (drop_pad (cs_eth C) p)))
       (cs8900aWrite TX_CMD_PORT TX_START_ALL_BYTES st)))"
proof -
  have "takes (tx_wait_task C 8) s (task_bind (ask (cs8900aRead (IOPIN C) DATA_PORT)) (\<lambda>v.
      if v AND READY_FOR_TX_NOW \<noteq> 0 then Done True else task_bind (skip_task C) (\<lambda>_. tx_wait_task C 7)))
      (cs8900aWrite ADD_PORT PP_BusST s)" for s
    using tx_wait_task.simps [of C "Suc 7"] by (auto intro!: takes_act takes.Stay cong: if_cong)
  then show ?thesis unfolding send_task_eq send_asked_def by (intro takes_act takes_bind)
qed

lemma send_asked_ready:
  assumes "cs8900aRead (IOPIN C) DATA_PORT st = (v, st1)" and "v AND READY_FOR_TX_NOW \<noteq> 0"
  shows "takes (send_asked C p) st
    (task_rbind (tx_chain_task (chain (drop_pad (cs_eth C) p))) (send_rest C (drop_pad (cs_eth C) p))) st1"
proof -
  have "takes (task_bind (ask (cs8900aRead (IOPIN C) DATA_PORT)) (\<lambda>v.
      if v AND READY_FOR_TX_NOW \<noteq> 0 then Done True else task_bind (skip_task C) (\<lambda>_. tx_wait_task C 7)))
      st (Done True) st1"
    by (rule takes_ask [of "cs8900aRead (IOPIN C) DATA_PORT" st, OF assms(1)]) (simp add: assms(2) takes.Stay)
  from takes_bind [OF this, of "\<lambda>ready. if \<not> ready then Done (Inr (ERR_IF, drop_pad (cs_eth C) p))
      else task_rbind (tx_chain_task (chain (drop_pad (cs_eth C) p))) (send_rest C (drop_pad (cs_eth C) p))"]
  show ?thesis by (simp add: send_asked_def)
qed

text \<open>C16: The chip has one pointer to its registers, and the sender and the polling thread both use
  it: when the thread chooses \<open>RxEvent\<close> after the sender chose \<open>BusST\<close> and before it reads it,
  the sender reads \<open>RxEvent\<close>. The bit it looks for is \<open>RX_OK\<close> there: with a good frame waiting
  it takes the chip for ready, copies the whole frame to the frame port and reports success,
  though it never asked for room.\<close>

theorem pointer_race:
  assumes "idle st" and "pin_ok (IOPIN C) chip" and "header_ok (cs_eth C)" and "padded (cs_eth C) p"
    and "\<forall>q \<in> set (chain (drop_pad (cs_eth C) p)). roomy q"
    and "B = bus st @ wr16 TX_CMD_PORT TX_START_ALL_BYTES @
      wr16 TX_LEN_PORT (word_of_nat (tot_len p - ETH_PAD_SIZE (cs_eth C))) @
      wr16 ADD_PORT PP_BusST @ wr16 ADD_PORT PP_RxEvent"
    and "chip_word chip B DATA_PORT AND the (map_of RxEvent_bits ''RX_OK'') \<noteq> 0"
  shows "\<exists>ws st'. interleave ws (send_task C p, receive_task C, st) =
      (Done (Inr (ERR_OK, p)), receive_rest C, LINK_STATS_INC (cs_eth C) Xmit st') \<and>
    bus st' = B @ rd16 DATA_PORT @ tx_cycles (concat (map sent_bytes (chain (drop_pad (cs_eth C) p))))"
proof -
  let ?p = "drop_pad (cs_eth C) p"
  have pk: "pbuf_ok p" "ETH_PAD_SIZE (cs_eth C) \<le> seg_len (hd (chain p))" using assms(4) by (simp_all add: padded_def)
  note lo = lower_facts [OF pk, folded drop_pad_lower [OF assms(3,4)]]
  define st1 where "st1 = cs8900aWrite ADD_PORT PP_BusST (cs8900aWrite TX_LEN_PORT (word_of_nat (tot_len ?p))
    (cs8900aWrite TX_CMD_PORT TX_START_ALL_BYTES st))"
  define st2 where "st2 = cs8900aWrite ADD_PORT PP_RxEvent st1"
  note w1 = cs8900aWrite_cycles [OF assms(1) port_small(3), where data = TX_START_ALL_BYTES]
  note w2 = cs8900aWrite_cycles [OF w1(2) port_small(4), where data = "word_of_nat (tot_len ?p)"]
  note w3 = cs8900aWrite_cycles [OF w2(2) port_small(1), where data = PP_BusST, folded st1_def]
  note w4 = cs8900aWrite_cycles [OF w3(2) port_small(1), where data = PP_RxEvent, folded st2_def]
  have b2: "bus st2 = B" using w1(1) w2(1) w3(1) w4(1) by (simp add: lo(3) assms(6))
  obtain v st3 where r: "cs8900aRead (IOPIN C) DATA_PORT st2 = (v, st3)" by fastforce
  note r3 = cs8900aRead_cycles [OF w4(2) ports(2) assms(2), unfolded r fst_conv snd_conv b2]
  have "v AND READY_FOR_TX_NOW \<noteq> 0"
    using assms(7) r3(1) by (simp add: RxEvent_bits_def READY_FOR_TX_NOW_def)
  note t3 = send_asked_ready [OF r this, of p]
  from send_finish [OF r3(3) assms(3-5)] obtain st4 where
    t4: "takes (task_rbind (tx_chain_task (chain ?p)) (send_rest C ?p)) st3
        (Done (Inr (ERR_OK, p))) (LINK_STATS_INC (cs_eth C) Xmit st4)"
      "bus st4 = bus st3 @ tx_cycles (concat (map sent_bytes (chain ?p)))" by blast
  have "\<exists>ws. interleave ws (send_task C p, receive_task C, st) =
      (Done (Inr (ERR_OK, p)), receive_rest C, LINK_STATS_INC (cs_eth C) Xmit st4)"
    by (rule interleave_switch [OF send_task_asks [of C p st, folded st1_def] receive_task_takes
      takes_trans [OF t3 t4(1), unfolded st2_def]])
  with t4(2) r3(2) show ?thesis by auto
qed

theorem pointer_race_witness:
  "\<exists>ws B st'. interleave ws (send_task ex_cs ex_single, receive_task ex_cs, ex_idle) =
      (Done (Inr (ERR_OK, ex_single)), receive_rest ex_cs, st') \<and>
    bus st' = B @ wr16 ADD_PORT PP_BusST @ wr16 ADD_PORT PP_RxEvent @ rd16 DATA_PORT @ tx_cycles ex_frame"
proof -
  have e: "ETH_PAD_SIZE (cs_eth ex_cs) = 2" "LINK_STATS_INC (cs_eth ex_cs) Xmit st = st" for st
    by (simp_all add: ex_cs_def ex_cs_eth_def)
  have h: "header_ok (cs_eth ex_cs)" using ex_cs_ok by (simp add: cs_ok_def)
  have p: "padded (cs_eth ex_cs) ex_single" "\<forall>q \<in> set (chain (drop_pad (cs_eth ex_cs) ex_single)). roomy q"
    using ex_single_sendable by (simp_all add: sendable_def)
  have s: "concat (map sent_bytes (chain (drop_pad (cs_eth ex_cs) ex_single))) = ex_frame"
    unfolding drop_pad_lower [OF h p(1)] e
    by (simp add: ex_single_def lower_def ex_frame_def sent_bytes_def even_up_def)
  define B where "B = bus ex_idle @ wr16 TX_CMD_PORT TX_START_ALL_BYTES @
      wr16 TX_LEN_PORT (word_of_nat (tot_len ex_single - ETH_PAD_SIZE (cs_eth ex_cs))) @
      wr16 ADD_PORT PP_BusST @ wr16 ADD_PORT PP_RxEvent"
  have "chip_word ex_chip B DATA_PORT AND the (map_of RxEvent_bits ''RX_OK'') \<noteq> 0"
    by (simp add: B_def ex_idle_def chip_word_def ex_chip_def chip_run_def wr16_def port_numbers chip_data_def
        RxEvent_bits_def)
  from pointer_race [OF ex_idle_idle ex_pin_ok h p B_def this] obtain ws st' where
    "interleave ws (send_task ex_cs ex_single, receive_task ex_cs, ex_idle) =
      (Done (Inr (ERR_OK, ex_single)), receive_rest ex_cs, st')" "bus st' = B @ rd16 DATA_PORT @ tx_cycles ex_frame"
    by (auto simp: e(2) s)
  then show ?thesis
    by (intro exI [of _ ws] exI [of _ st'] exI [of _ "bus ex_idle @ wr16 TX_CMD_PORT TX_START_ALL_BYTES @
      wr16 TX_LEN_PORT (word_of_nat (tot_len ex_single - ETH_PAD_SIZE (cs_eth ex_cs)))"]) (simp add: B_def)
qed

end
