(* ===== verification/Net_Path.thy ===== *)
theory Net_Path
  imports Netif_Driver Sys_Tasks
begin

text \<open>
  The way of a frame from a device to the tcpip thread, across the layers of the port: the
  driver receives it and hands the packet to \<open>netif->input\<close>, lwIP's \<open>tcpip_input\<close>, which puts
  it into a message and posts the message with \<open>sys_mbox_trypost\<close> to the mailbox of the tcpip
  thread, which takes it out with \<open>sys_arch_mbox_fetch\<close>. The contract \<open>frame_path\<close> extends the
  contract of a driver by what it does to the order of the frames; each driver interprets it.
\<close>

section \<open>Messages that carry packets\<close>

text \<open>
  The mailbox of the tcpip thread, and what lwIP keeps at a message's address: \<open>packet w m\<close> is
  the packet in the message \<open>m\<close>, \<open>None\<close> when the address is free.
\<close>

record 'w mail =
  mail_os :: "'w pico"
  mail_ring :: "'w ring_view"
  packet :: "'w \<Rightarrow> nat \<Rightarrow> pbuf option"
  tcpip_mbox :: nat

definition mail_box :: "'w mail \<Rightarrow> 'w \<Rightarrow> nat list" where
  "mail_box V w = mbox_contents (mail_ring V) (tcpip_mbox V) w"

definition inbox :: "'w mail \<Rightarrow> 'w \<Rightarrow> pbuf list" where
  "inbox V w = map (\<lambda>m. the (packet V w m)) (mail_box V w)"

definition mail_cap :: "'w mail \<Rightarrow> 'w \<Rightarrow> nat" where
  "mail_cap V w = mbox_capacity (mail_ring V) (tcpip_mbox V) w"

definition mail_room :: "'w mail \<Rightarrow> 'w \<Rightarrow> bool" where
  "mail_room V w \<longleftrightarrow> length (inbox V w) < mail_cap V w"

text \<open>Every message in the mailbox is in use, and is there once.\<close>

definition mail_inv :: "'w mail \<Rightarrow> 'w \<Rightarrow> bool" where
  "mail_inv V w \<longleftrightarrow> mbox_live_wait (mail_os V) (mail_ring V) (tcpip_mbox V) w \<and>
     distinct (mail_box V w) \<and> (\<forall>m \<in> set (mail_box V w). packet V w m \<noteq> None)"

definition same_mail :: "'w mail \<Rightarrow> 'w \<Rightarrow> 'w \<Rightarrow> bool" where
  "same_mail V w w' \<longleftrightarrow> mail_ring V w' = mail_ring V w \<and> packet V w' = packet V w"

lemma same_mail_refl [simp]: "same_mail V w w"
  by (simp add: same_mail_def)

lemma same_mail_trans: "same_mail V a b \<Longrightarrow> same_mail V b c \<Longrightarrow> same_mail V a c"
  by (simp add: same_mail_def)

lemma mail_box_ring: "mail_ring V w' = mail_ring V w \<Longrightarrow> mail_box V w' = mail_box V w"
  by (simp add: mail_box_def mbox_contents_def)

lemma same_mailD:
  assumes "same_mail V w w'"
  shows "mail_box V w' = mail_box V w" "inbox V w' = inbox V w" "mail_inv V w' = mail_inv V w"
    "mail_room V w' = mail_room V w" "mail_cap V w' = mail_cap V w"
proof -
  have r: "mail_ring V w' = mail_ring V w" "packet V w' = packet V w" using assms by (simp_all add: same_mail_def)
  note b = mail_box_ring [OF r(1)]
  show "mail_box V w' = mail_box V w" "inbox V w' = inbox V w" "mail_inv V w' = mail_inv V w"
    "mail_room V w' = mail_room V w" "mail_cap V w' = mail_cap V w"
    using r b by (simp_all add: inbox_def mail_inv_def mail_room_def mail_cap_def mbox_live_wait_def
        mbox_live_def mbox_capacity_def)
qed

section \<open>What lwIP does with a message\<close>

text \<open>
  \<open>tcpip_input\<close> takes a free message for the packet and tries to post it; without a message
  or with a full mailbox it gives up and changes nothing.
\<close>

definition posts_message :: "'w mail \<Rightarrow> pbuf \<Rightarrow> 'w \<Rightarrow> err_t \<Rightarrow> 'w \<Rightarrow> bool" where
  "posts_message V p w e w' \<longleftrightarrow>
     (\<exists>m w1 w2. packet V w m = None \<and> mail_ring V w1 = mail_ring V w \<and> packet V w1 = (packet V w)(m \<mapsto> p) \<and>
        sys_mbox_trypost (mail_os V) (Some (Some (tcpip_mbox V))) m w1 = Inr (e, w2) \<and> same_mail V w2 w')"

definition tcpip_input_ok :: "'w mail \<Rightarrow> 'w ethx \<Rightarrow> bool" where
  "tcpip_input_ok V X \<longleftrightarrow>
     (\<forall>p w. case netif_input X p w of (e, w') \<Rightarrow>
        (e \<noteq> ERR_OK \<and> same_mail V w w') \<or> (e = ERR_OK \<and> posts_message V p w ERR_OK w'))"

lemma tcpip_input_okD:
  assumes "tcpip_input_ok V X" and "netif_input X p w = (e, w')"
  shows "e \<noteq> ERR_OK \<Longrightarrow> same_mail V w w'" "e = ERR_OK \<Longrightarrow> posts_message V p w ERR_OK w'"
  using assms(1) [unfolded tcpip_input_ok_def, THEN spec [of _ p], THEN spec [of _ w]] assms(2) by auto

text \<open>When it has messages, it gives up only because \<open>sys_mbox_trypost\<close> did.\<close>

definition messages_left :: "'w mail \<Rightarrow> 'w ethx \<Rightarrow> bool" where
  "messages_left V X \<longleftrightarrow>
     (\<forall>p w. fst (netif_input X p w) \<noteq> ERR_OK \<longrightarrow> (\<exists>e w'. e \<noteq> ERR_OK \<and> posts_message V p w e w'))"

text \<open>The rings keep the messages, and lwIP's packet pool and statistics keep both.\<close>

definition mail_apart :: "'w mail \<Rightarrow> bool" where
  "mail_apart V \<longleftrightarrow>
     (\<forall>h m t w. packet V (snd (uosRingPut (mail_os V) h m t w)) = packet V w) \<and>
     (\<forall>h t w. packet V (snd (uosRingGet (mail_os V) h t w)) = packet V w)"

definition pool_apart :: "'w mail \<Rightarrow> 'w ethx \<Rightarrow> bool" where
  "pool_apart V X \<longleftrightarrow>
     (\<forall>n w. same_mail V w (snd (pbuf_alloc X n w))) \<and> (\<forall>p w. same_mail V w (pbuf_free X p w)) \<and>
     (\<forall>s w. same_mail V w (LINK_STATS_INC X s w))"

lemma pool_apartD:
  assumes "pool_apart V X"
  shows "same_mail V w (snd (pbuf_alloc X n w))" "same_mail V w (pbuf_free X p w)"
    "same_mail V w (LINK_STATS_INC X s w)"
  using assms unfolding pool_apart_def by blast+

lemma mail_live: "mail_inv V w \<Longrightarrow> \<exists>c q. mail_ring V w (tcpip_mbox V) = Some (c, q)"
  by (auto simp: mail_inv_def mbox_live_wait_def mbox_live_def)

text \<open>A posted message adds its packet, and is refused only by a full mailbox.\<close>

lemma posted_packet:
  assumes "mail_apart V" and inv: "mail_inv V w" and post: "posts_message V p w e w'"
  shows "if mail_room V w
    then e = ERR_OK \<and> inbox V w' = inbox V w @ [p] \<and> mail_inv V w' \<and> mail_cap V w' = mail_cap V w
    else e = ERR_MEM"
proof -
  let ?P = "mail_os V" and ?mb = "tcpip_mbox V"
  from post obtain m w1 w2 where m: "packet V w m = None" "mail_ring V w1 = mail_ring V w"
    "packet V w1 = (packet V w)(m \<mapsto> p)" "sys_mbox_trypost ?P (Some (Some ?mb)) m w1 = Inr (e, w2)"
    and s: "same_mail V w2 w'" by (auto simp: posts_message_def)
  have b: "mail_box V w1 = mail_box V w" by (rule mail_box_ring [OF m(2)])
  have live: "mbox_live_wait ?P (mail_ring V) ?mb w1"
    using inv m(2) by (simp add: mail_inv_def mbox_live_wait_def mbox_live_def)
  have "mbox_post ?P ?mb m w1 = (e = ERR_OK, w2)" using m(4) by (simp add: mbox_post_def)
  note l = mboxb.post_law [OF live this, folded mail_box_def]
  have c: "mbox_capacity (mail_ring V) ?mb w1 = mbox_capacity (mail_ring V) ?mb w"
    using m(2) by (simp add: mbox_capacity_def)
  have e: "e = ERR_OK \<or> e = ERR_MEM" using m(4) by (auto simp: trypost_eq split: if_splits)
  show ?thesis
  proof (cases "mail_room V w")
    case True
    then have ok: "e = ERR_OK" using l b c by (simp add: mail_room_def mail_cap_def inbox_def)
    then have box: "mail_box V w2 = mail_box V w @ [m]" and lw: "mbox_live_wait ?P (mail_ring V) ?mb w2"
      using l b by auto
    have pk: "packet V w2 = (packet V w)(m \<mapsto> p)"
      using assms(1) m(3,4) by (auto simp: mail_apart_def trypost_eq)
    have new: "m \<notin> set (mail_box V w)" using inv m(1) by (auto simp: mail_inv_def)
    have "inbox V w2 = inbox V w @ [p]" using new by (simp add: inbox_def box pk)
    moreover have "mail_inv V w2" using inv new lw by (auto simp: mail_inv_def box pk)
    moreover have "mail_cap V w2 = mail_cap V w" using l ok c by (simp add: mail_cap_def)
    ultimately show ?thesis using True ok same_mailD [OF s] by simp
  next
    case False
    then show ?thesis using l b c e by (auto simp: mail_room_def mail_cap_def inbox_def)
  qed
qed

lemma netif_input_mail:
  assumes "mail_apart V" and "mail_inv V w" and "tcpip_input_ok V X" and "netif_input X p w = (e, w')"
  shows "mail_inv V w' \<and> mail_cap V w' = mail_cap V w \<and>
    inbox V w' = (if e = ERR_OK then inbox V w @ [p] else inbox V w)"
proof (cases "e = ERR_OK")
  case True
  with tcpip_input_okD(2) [OF assms(3,4)] have "posts_message V p w ERR_OK w'" by simp
  from posted_packet [OF assms(1,2) this] True show ?thesis by (auto split: if_splits)
next
  case False
  with tcpip_input_okD(1) [OF assms(3,4)] have "same_mail V w w'" by simp
  from same_mailD [OF this] False assms(2) show ?thesis by simp
qed

text \<open>The dispatch on the Ethernet type adds an accepted packet to the mailbox or frees it.\<close>

lemma dispatch_mail:
  assumes "mail_apart V" and "mail_inv V w" and "tcpip_input_ok V X" and "pool_apart V X"
    and "eth_dispatch X p w = Inr w'"
  shows "mail_inv V w' \<and> (inbox V w' = inbox V w \<or>
    inbox V w' = inbox V w @ [p] \<and> (\<exists>t. ethhdr_type X p = Inr t \<and> eth_accepted X t))"
proof -
  obtain t where t: "ethhdr_type X p = Inr t" using assms(5) by (auto simp: eth_dispatch_def rbind_eq_Inr_iff)
  have free: "mail_inv V (pbuf_free X p u) = mail_inv V u" "inbox V (pbuf_free X p u) = inbox V u" for u
    using same_mailD [OF pool_apartD(2) [OF assms(4)]] by blast+
  obtain e w1 where i: "netif_input X p w = (e, w1)" by fastforce
  from netif_input_mail [OF assms(1-3) i] assms(2,5) t i free show ?thesis
    by (auto simp: eth_dispatch_def split: if_splits)
qed

text \<open>With a message and room in the mailbox an accepted packet is always added.\<close>

lemma dispatch_delivers:
  assumes "mail_apart V" and "mail_inv V w" and "tcpip_input_ok V X" and "messages_left V X"
    and "mail_room V w" and "ethhdr_type X p = Inr t" and "eth_accepted X t"
  shows "\<exists>w'. eth_dispatch X p w = Inr w' \<and> inbox V w' = inbox V w @ [p] \<and> mail_inv V w' \<and>
    mail_cap V w' = mail_cap V w"
proof -
  obtain e w1 where i: "netif_input X p w = (e, w1)" by fastforce
  have "e = ERR_OK"
  proof (rule ccontr)
    assume "e \<noteq> ERR_OK"
    with assms(4) i obtain e' w' where "e' \<noteq> ERR_OK" "posts_message V p w e' w'"
      unfolding messages_left_def by (metis fst_conv)
    with posted_packet [OF assms(1,2), of p e' w'] assms(5) show False by simp
  qed
  with netif_input_mail [OF assms(1-3) i] i assms(6,7) show ?thesis by (simp add: eth_dispatch_def)
qed

text \<open>
  The frames lwIP takes: long enough to have a type, which is one that is passed on. A packet
  that holds such a frame is posted.
\<close>

definition lwip_frame :: "'w ethx \<Rightarrow> u8 list \<Rightarrow> bool" where
  "lwip_frame X f \<longleftrightarrow> eth_type_off X + 1 < ETH_PAD_SIZE X + length f \<and> eth_accepted X (frame_type X f)"

definition holds_frame :: "'w ethx \<Rightarrow> pbuf \<Rightarrow> bool" where
  "holds_frame X p \<longleftrightarrow> type_readable X p \<and> pbuf_ok p \<and> tot_len p = length (pbuf_frame X p) + ETH_PAD_SIZE X"

definition mail_serves :: "'w mail \<Rightarrow> 'w ethx \<Rightarrow> bool" where
  "mail_serves V X \<longleftrightarrow> messages_left V X \<and> (\<forall>n w. fst (pbuf_alloc X n w) \<noteq> None) \<and> ETH_PAD_SIZE X \<le> eth_type_off X"

lemma dispatch_posts:
  assumes "mail_apart V" and "mail_inv V w" and "tcpip_input_ok V X" and "mail_serves V X"
    and "mail_room V w" and p: "holds_frame X p" and f: "lwip_frame X (pbuf_frame X p)"
    and d: "eth_dispatch X p w = Inr w'"
  shows "inbox V w' = inbox V w @ [p] \<and> mail_cap V w' = mail_cap V w"
proof -
  have s: "messages_left V X" "ETH_PAD_SIZE X \<le> eth_type_off X" using assms(4) by (simp_all add: mail_serves_def)
  have "ethhdr_type X p = Inr (frame_type X (pbuf_frame X p))"
    using ethhdr_type_frame [of X p] p f s(2) by (simp add: holds_frame_def lwip_frame_def add.commute)
  from dispatch_delivers [OF assms(1-3) s(1) assms(5) this] f d show ?thesis by (auto simp: lwip_frame_def)
qed

text \<open>A fetched message carries the oldest packet; lwIP then frees the message.\<close>

lemma fetched_packet:
  assumes "mail_apart V" and inv: "mail_inv V w" and "mail_box V w \<noteq> []"
    and f: "sys_arch_mbox_fetch (mail_os V) (Some (Some (tcpip_mbox V))) t w = Inr (r, mo, w1)"
    and "mail_ring V w' = mail_ring V w1" and "packet V w' = (packet V w1)(the mo := None)"
  shows "\<exists>m p. mo = Some m \<and> packet V w m = Some p \<and> inbox V w = p # inbox V w' \<and> mail_inv V w'"
proof -
  let ?P = "mail_os V" and ?mb = "tcpip_mbox V"
  have live: "mbox_live_wait ?P (mail_ring V) ?mb w" using inv by (simp add: mail_inv_def)
  have g: "mbox_get_wait ?P ?mb t w = (mo, w1)" using f by (simp add: mbox_get_wait_def)
  note l = mboxb.fetch_wait_law [OF live g, folded mail_box_def, OF disjI1 [OF assms(3)]]
  obtain m ms where m: "mail_box V w = m # ms" using assms(3) by (auto simp: neq_Nil_conv)
  then have mo: "mo = Some m" and ms: "mail_box V w1 = ms" using l by simp_all
  have "packet V w1 = packet V w"
    using assms(1) g by (metis mail_apart_def mbox_get_wait_eq snd_conv)
  then have pk: "packet V w' = (packet V w)(m := None)" using assms(6) mo by simp
  have box: "mail_box V w' = ms" using mail_box_ring [OF assms(5)] ms by simp
  obtain p where p: "packet V w m = Some p" using inv m by (auto simp: mail_inv_def)
  have d: "m \<notin> set ms" "distinct ms" "\<forall>k \<in> set ms. packet V w k \<noteq> None" using inv m by (auto simp: mail_inv_def)
  have "inbox V w = p # inbox V w'"
    using d(1) by (auto simp: inbox_def m box pk p)
  moreover have "mail_inv V w'"
    using l d assms(5) ms by (auto simp: mail_inv_def box pk mbox_live_wait_def mbox_live_def)
  ultimately show ?thesis using mo p by blast
qed

section \<open>Device, driver and tcpip thread at work\<close>

text \<open>
  The whole state, the frames that arrived while the driver was not at work, and the packets
  the tcpip thread took out of its mailbox.
\<close>

record 'w rx_sys =
  net :: 'w
  arrived :: "u8 list list"
  delivered :: "pbuf list"

text \<open>
  Outside the driver frames arrive behind those in the device; nothing else of what the
  driver relies on changes.
\<close>

definition outside ::
    "('w \<Rightarrow> bool) \<Rightarrow> ('w \<Rightarrow> u8 list list) \<Rightarrow> ('w \<Rightarrow> nat) \<Rightarrow> 'w \<Rightarrow> u8 list list \<Rightarrow> 'w \<Rightarrow> bool" where
  "outside ready queue held w new w' \<longleftrightarrow>
     (ready w \<longrightarrow> ready w') \<and> queue w' = queue w @ new \<and> held w' = held w"

text \<open>
  The steps: one call of the driver's input function in the polling thread; the tcpip thread
  fetches a message, uses its packet and frees it; anything else that goes on.
\<close>

inductive rx_step ::
    "'w mail \<Rightarrow> ('w \<Rightarrow> (bool \<times> 'w) res) \<Rightarrow> ('w \<Rightarrow> bool) \<Rightarrow> ('w \<Rightarrow> u8 list list) \<Rightarrow> ('w \<Rightarrow> nat) \<Rightarrow>
     'w rx_sys \<Rightarrow> 'w rx_sys \<Rightarrow> bool" for V input ready queue held where
    Polls: "input (net s) = Inr (again, w) \<Longrightarrow>
      rx_step V input ready queue held s (s\<lparr>net := w\<rparr>)"
  | Fetches: "mail_box V (net s) \<noteq> [] \<Longrightarrow>
      sys_arch_mbox_fetch (mail_os V) (Some (Some (tcpip_mbox V))) t (net s) = Inr (r, Some m, u) \<Longrightarrow>
      packet V (net s) m = Some p \<Longrightarrow>
      mail_ring V w = mail_ring V u \<Longrightarrow> packet V w = (packet V u)(m := None) \<Longrightarrow>
      outside ready queue held (net s) new w \<Longrightarrow>
      rx_step V input ready queue held s
        (s\<lparr>net := w, arrived := arrived s @ new, delivered := delivered s @ [p]\<rparr>)"
  | Others: "same_mail V (net s) w \<Longrightarrow> outside ready queue held (net s) new w \<Longrightarrow>
      rx_step V input ready queue held s (s\<lparr>net := w, arrived := arrived s @ new\<rparr>)"

inductive rx_reach ::
    "'w mail \<Rightarrow> ('w \<Rightarrow> (bool \<times> 'w) res) \<Rightarrow> ('w \<Rightarrow> bool) \<Rightarrow> ('w \<Rightarrow> u8 list list) \<Rightarrow> ('w \<Rightarrow> nat) \<Rightarrow>
     'w rx_sys \<Rightarrow> 'w rx_sys \<Rightarrow> bool" for V input ready queue held s where
    Begin: "rx_reach V input ready queue held s s"
  | Next: "rx_reach V input ready queue held s s' \<Longrightarrow> rx_step V input ready queue held s' s'' \<Longrightarrow>
      rx_reach V input ready queue held s s''"

definition rx_start :: "'w mail \<Rightarrow> 'w rx_sys \<Rightarrow> bool" where
  "rx_start V s \<longleftrightarrow> mail_inv V (net s) \<and> mail_box V (net s) = [] \<and> arrived s = [] \<and> delivered s = []"

definition wanted :: "'w ethx \<Rightarrow> pbuf \<Rightarrow> bool" where
  "wanted X p \<longleftrightarrow> (\<exists>t. ethhdr_type X p = Inr t \<and> eth_accepted X t)"

section \<open>The contract\<close>

text \<open>
  Receiving takes at most one frame, the oldest, and a packet holds the bytes of its frame (as
  the driver cuts it, \<open>cut\<close>); when \<open>quiet\<close> no frames arrive during the call. Neither part of
  the driver touches the mailbox, except that disposing of a packet may add it.
\<close>

locale frame_path = eth_driver receive dispose held pending good invar
  for receive :: "'w \<Rightarrow> (pbuf option \<times> 'w) res"
    and dispose :: "pbuf \<Rightarrow> 'w \<Rightarrow> 'w res"
    and held :: "'w \<Rightarrow> nat"
    and pending :: "'w \<Rightarrow> nat"
    and good :: "pbuf \<Rightarrow> bool"
    and invar :: "'w \<Rightarrow> bool" +
  fixes queue :: "'w \<Rightarrow> u8 list list"
    and frame_of :: "pbuf \<Rightarrow> u8 list"
    and cut :: "u8 list \<Rightarrow> u8 list"
    and quiet :: bool
    and V :: "'w mail"
    and X :: "'w ethx"
  assumes receive_frame: "invar w \<Longrightarrow> receive w = Inr (po, w') \<Longrightarrow> same_mail V w w' \<and>
      (\<exists>taken new. taken @ queue w' = queue w @ new \<and> (quiet \<longrightarrow> new = []) \<and>
        (case po of None \<Rightarrow> length taken \<le> 1 | Some p \<Rightarrow> map cut taken = [frame_of p]))"
    and dispose_frame: "invar w \<Longrightarrow> good p \<Longrightarrow> mail_inv V w \<Longrightarrow> dispose p w = Inr w' \<Longrightarrow>
      queue w' = queue w \<and> mail_inv V w' \<and>
      (inbox V w' = inbox V w \<or> inbox V w' = inbox V w @ [p] \<and> wanted X p)"
begin

lemma input_path:
  assumes "invar w" and "mail_inv V w" and "eth_input receive dispose w = Inr (again, w')"
  shows "invar w' \<and> mail_inv V w' \<and> held w' = held w \<and>
    (\<exists>taken new ps. taken @ queue w' = queue w @ new \<and> (quiet \<longrightarrow> new = []) \<and> length taken \<le> 1 \<and>
      inbox V w' = inbox V w @ ps \<and> subseq (map frame_of ps) (map cut taken) \<and> (\<forall>p \<in> set ps. wanted X p))"
proof -
  from receive_law [OF assms(1)] obtain po w1 where r: "receive w = Inr (po, w1)" "invar w1"
    "case po of None \<Rightarrow> True | Some p \<Rightarrow> good p" by (auto split: option.splits)
  from receive_frame [OF assms(1) r(1)] obtain taken new where f: "same_mail V w w1"
    "taken @ queue w1 = queue w @ new" "quiet \<longrightarrow> new = []"
    "case po of None \<Rightarrow> length taken \<le> 1 | Some p \<Rightarrow> map cut taken = [frame_of p]" by blast
  note m = same_mailD [OF f(1)]
  from input_keeps [OF assms(1)] assms(3) have h: "invar w'" "held w' = held w" by auto
  show ?thesis
  proof (cases po)
    case None
    with r(1) assms(3) have "w' = w1" by (simp add: eth_input_def)
    with None f m assms(2) h show ?thesis
      by (intro conjI exI [of _ taken] exI [of _ new] exI [of _ "[]"]) simp_all
  next
    case (Some p)
    with r assms(3) have d: "good p" "dispose p w1 = Inr w'" by (auto simp: eth_input_def rbind_eq_Inr_iff)
    have t: "length taken \<le> 1" using f(4) Some by (auto simp: map_eq_Cons_conv)
    from dispose_frame [OF r(2) d(1) _ d(2)] m assms(2)
    have x: "queue w' = queue w1" "mail_inv V w'"
      "inbox V w' = inbox V w @ [] \<or> inbox V w' = inbox V w @ [p] \<and> wanted X p" by auto
    from x(3) show ?thesis
    proof
      assume "inbox V w' = inbox V w @ []"
      with f x(1,2) h t show ?thesis
        by (intro conjI exI [of _ taken] exI [of _ new] exI [of _ "[]"]) simp_all
    next
      assume "inbox V w' = inbox V w @ [p] \<and> wanted X p"
      with f x(1,2) h t Some show ?thesis
        by (intro conjI exI [of _ taken] exI [of _ new] exI [of _ "[p]"]) simp_all
    qed
  qed
qed

text \<open>What holds of every run from an empty mailbox on.\<close>

definition path_inv :: "'w rx_sys \<Rightarrow> 'w rx_sys \<Rightarrow> bool" where
  "path_inv s0 s \<longleftrightarrow> invar (net s) \<and> mail_inv V (net s) \<and> held (net s) = held (net s0) \<and>
     (\<exists>taken all. taken @ queue (net s) = queue (net s0) @ all \<and> subseq (arrived s) all \<and>
        (quiet \<longrightarrow> all = arrived s) \<and>
        subseq (map frame_of (delivered s @ inbox V (net s))) (map cut taken)) \<and>
     (\<forall>p \<in> set (delivered s @ inbox V (net s)). wanted X p)"

lemma path_invI:
  assumes "invar (net s)" and "mail_inv V (net s)" and "held (net s) = held (net s0)"
    and "taken @ queue (net s) = queue (net s0) @ all" and "subseq (arrived s) all"
    and "quiet \<longrightarrow> all = arrived s"
    and "subseq (map frame_of (delivered s @ inbox V (net s))) (map cut taken)"
    and "\<forall>p \<in> set (delivered s @ inbox V (net s)). wanted X p"
  shows "path_inv s0 s"
  using assms unfolding path_inv_def by blast

lemma path_inv_step:
  assumes "mail_apart V" and inv: "path_inv s0 s"
    and "rx_step V (eth_input receive dispose) invar queue held s s'"
  shows "path_inv s0 s'"
proof -
  from inv obtain taken all where i: "invar (net s)" "mail_inv V (net s)" "held (net s) = held (net s0)"
    "taken @ queue (net s) = queue (net s0) @ all" "subseq (arrived s) all" "quiet \<longrightarrow> all = arrived s"
    "subseq (map frame_of (delivered s @ inbox V (net s))) (map cut taken)"
    "\<forall>p \<in> set (delivered s @ inbox V (net s)). wanted X p" unfolding path_inv_def by blast
  show ?thesis
    using assms(3)
  proof (cases rule: rx_step.cases)
    case (Polls again w)
    from input_path [OF i(1,2) Polls(2)] obtain tk new ps where p: "invar w" "mail_inv V w"
      "held w = held (net s)" "tk @ queue w = queue (net s) @ new" "quiet \<longrightarrow> new = []"
      "inbox V w = inbox V (net s) @ ps" "subseq (map frame_of ps) (map cut tk)" "\<forall>p \<in> set ps. wanted X p"
      by blast
    have q: "(taken @ tk) @ queue w = queue (net s0) @ (all @ new)" using i(4) p(4) by (metis append.assoc)
    have a: "subseq (arrived s) (all @ new)" using i(5) by (rule subseq_rev_drop_many)
    have d: "subseq (map frame_of (delivered s @ inbox V w)) (map cut (taken @ tk))"
      using list_emb_append_mono [OF i(7) p(7)] p(6) by simp
    show ?thesis
      by (rule path_invI [of _ _ "taken @ tk" "all @ new"])
        (use Polls(1) i(3,6,8) p(1-3,5,6,8) q a d in auto)
  next
    case (Fetches t r m u p w new)
    from fetched_packet [OF assms(1) i(2) Fetches(2,3,5)] Fetches(4,6)
    have f: "inbox V (net s) = p # inbox V w" "mail_inv V w" by auto
    have o': "invar w" "queue w = queue (net s) @ new" "held w = held (net s)"
      using Fetches(7) i(1) by (auto simp: outside_def)
    have q: "taken @ queue w = queue (net s0) @ (all @ new)" using i(4) o'(2) by (metis append.assoc)
    have a: "subseq (arrived s @ new) (all @ new)" using i(5) by simp
    show ?thesis
      by (rule path_invI [of _ _ taken "all @ new"])
        (use Fetches(1) i(3,6-8) f o'(1,3) q a in auto)
  next
    case (Others w new)
    note m = same_mailD [OF Others(2)]
    have o': "invar w" "queue w = queue (net s) @ new" "held w = held (net s)"
      using Others(3) i(1) by (auto simp: outside_def)
    have q: "taken @ queue w = queue (net s0) @ (all @ new)" using i(4) o'(2) by (metis append.assoc)
    have a: "subseq (arrived s @ new) (all @ new)" using i(5) by simp
    show ?thesis
      by (rule path_invI [of _ _ taken "all @ new"])
        (use Others(1) i(2,3,6-8) m o'(1,3) q a in auto)
  qed
qed

lemma path_inv_reach:
  assumes "mail_apart V" and "rx_start V s0" and "invar (net s0)"
    and "rx_reach V (eth_input receive dispose) invar queue held s0 s"
  shows "path_inv s0 s"
  using assms(4)
proof induction
  case Begin
  have "inbox V (net s0) = []" using assms(2) by (simp add: rx_start_def inbox_def)
  with assms(2,3) show ?case by (auto simp: path_inv_def rx_start_def intro!: exI [of _ "[]"])
next
  case (Next s s')
  from path_inv_step [OF assms(1) Next.IH Next.hyps(2)] show ?case .
qed

end

section \<open>Nothing lost while there is room\<close>

text \<open>
  When there is memory and messages: receiving gives up on an empty device only, and a packet
  whose frame lwIP likes is put into the mailbox as long as there is room. \<open>came w\<close> are all the
  frames that have arrived at the device so far; a device in which none arrive while the driver
  is at work can have it constant.
\<close>

locale lossless_path = frame_path receive dispose held pending good invar queue frame_of cut quiet V X
  for receive :: "'w \<Rightarrow> (pbuf option \<times> 'w) res"
    and dispose :: "pbuf \<Rightarrow> 'w \<Rightarrow> 'w res"
    and held :: "'w \<Rightarrow> nat"
    and pending :: "'w \<Rightarrow> nat"
    and good :: "pbuf \<Rightarrow> bool"
    and invar :: "'w \<Rightarrow> bool"
    and queue :: "'w \<Rightarrow> u8 list list"
    and frame_of :: "pbuf \<Rightarrow> u8 list"
    and cut :: "u8 list \<Rightarrow> u8 list"
    and quiet :: bool
    and V :: "'w mail"
    and X :: "'w ethx" +
  fixes liked :: "u8 list \<Rightarrow> bool"
    and came :: "'w \<Rightarrow> u8 list list"
  assumes receive_all: "invar w \<Longrightarrow> receive w = Inr (po, w') \<Longrightarrow>
      \<exists>new. came w' = came w @ new \<and>
        (case po of None \<Rightarrow> queue w = [] \<and> queue w' = new
         | Some p \<Rightarrow> liked (frame_of p) \<and> (\<exists>f. f # queue w' = queue w @ new \<and> frame_of p = cut f))"
    and dispose_posts: "invar w \<Longrightarrow> good p \<Longrightarrow> mail_inv V w \<Longrightarrow> mail_room V w \<Longrightarrow> liked (frame_of p) \<Longrightarrow>
      dispose p w = Inr w' \<Longrightarrow> inbox V w' = inbox V w @ [p] \<and> mail_cap V w' = mail_cap V w \<and> came w' = came w"
begin

lemma input_posts:
  assumes "invar w" and "mail_inv V w" and "0 < pending w \<Longrightarrow> mail_room V w"
    and "eth_input receive dispose w = Inr (again, w')"
  shows "\<exists>new. came w' = came w @ new \<and>
    (if again then \<exists>f p. f # queue w' = queue w @ new \<and> frame_of p = cut f \<and>
       inbox V w' = inbox V w @ [p] \<and> mail_cap V w' = mail_cap V w
     else queue w = [] \<and> queue w' = new \<and> inbox V w' = inbox V w)"
proof -
  from receive_law [OF assms(1)] obtain po w1 where r: "receive w = Inr (po, w1)" "invar w1"
    "case po of None \<Rightarrow> True | Some p \<Rightarrow> good p \<and> 0 < pending w" by (auto split: option.splits)
  have "same_mail V w w1" using receive_frame [OF assms(1) r(1)] by blast
  note m = same_mailD [OF this]
  from receive_all [OF assms(1) r(1)] obtain new where c: "came w1 = came w @ new"
    "case po of None \<Rightarrow> queue w = [] \<and> queue w1 = new
     | Some p \<Rightarrow> liked (frame_of p) \<and> (\<exists>f. f # queue w1 = queue w @ new \<and> frame_of p = cut f)" by blast
  show ?thesis
  proof (cases po)
    case None
    with r(1) assms(4) c m show ?thesis by (auto simp: eth_input_def)
  next
    case (Some p)
    with r assms(3,4) have d: "good p" "dispose p w1 = Inr w'" "again" "mail_room V w"
      by (auto simp: eth_input_def rbind_eq_Inr_iff)
    from dispose_posts [OF r(2) d(1) _ _ _ d(2)] m assms(2) d(4) c Some
    have x: "inbox V w' = inbox V w @ [p]" "mail_cap V w' = mail_cap V w" "came w' = came w1" by simp_all
    have q: "queue w' = queue w1" using dispose_frame [OF r(2) d(1) _ d(2)] m assms(2) by simp
    from c Some obtain f where "f # queue w1 = queue w @ new" "frame_of p = cut f" by auto
    with c(1) x q d(3) show ?thesis by (intro exI [of _ new]) auto
  qed
qed

text \<open>
  A round puts every frame that waits or arrives before its last call into the mailbox; that
  call finds the device empty, and what arrives during it stays in the device.
\<close>

lemma drain_posts:
  "invar w \<Longrightarrow> mail_inv V w \<Longrightarrow> pending w < n \<Longrightarrow> length (inbox V w) + pending w \<le> mail_cap V w \<Longrightarrow>
   \<exists>w1 w' ps new. drain (eth_input receive dispose) n w = Some (Inr w') \<and> invar w' \<and> held w' = held w \<and>
     inbox V w' = inbox V w @ ps \<and> map frame_of ps = map cut (queue w @ new) \<and> came w1 = came w @ new \<and>
     queue w1 = [] \<and> eth_input receive dispose w1 = Inr (False, w') \<and> came w' = came w1 @ queue w'"
proof (induction n arbitrary: w)
  case (Suc n)
  from input_keeps [OF Suc.prems(1)] obtain again w1 where i: "eth_input receive dispose w = Inr (again, w1)"
    "invar w1" "held w1 = held w" "if again then pending w1 < pending w else pending w1 \<le> pending w" by blast
  have mi: "mail_inv V w1" using input_path [OF Suc.prems(1,2) i(1)] by blast
  have "0 < pending w \<Longrightarrow> mail_room V w" using Suc.prems(4) by (simp add: mail_room_def)
  from input_posts [OF Suc.prems(1,2) this i(1)] obtain new where c: "came w1 = came w @ new"
    and p: "if again then \<exists>f p. f # queue w1 = queue w @ new \<and> frame_of p = cut f \<and>
       inbox V w1 = inbox V w @ [p] \<and> mail_cap V w1 = mail_cap V w
     else queue w = [] \<and> queue w1 = new \<and> inbox V w1 = inbox V w" by blast
  show ?case
  proof (cases again)
    case False
    with p c i show ?thesis
      by (intro exI [of _ w] exI [of _ w1] exI [of _ "[]"]) simp
  next
    case True
    with p obtain f p where f: "f # queue w1 = queue w @ new" "frame_of p = cut f"
      "inbox V w1 = inbox V w @ [p]" "mail_cap V w1 = mail_cap V w" by auto
    from True i(4) have "pending w1 < pending w" by simp
    with Suc.prems(3,4) f(3,4) have b: "pending w1 < n" "length (inbox V w1) + pending w1 \<le> mail_cap V w1" by simp_all
    from Suc.IH [OF i(2) mi b] obtain w2 w' ps more where
      d: "drain (eth_input receive dispose) n w1 = Some (Inr w')" "invar w'" "held w' = held w1"
        "inbox V w' = inbox V w1 @ ps" "map frame_of ps = map cut (queue w1 @ more)" "came w2 = came w1 @ more"
        "queue w2 = []" "eth_input receive dispose w2 = Inr (False, w')" "came w' = came w2 @ queue w'" by blast
    have "map frame_of (p # ps) = map cut ((f # queue w1) @ more)" using d(5) f(2) by simp
    then have "map frame_of (p # ps) = map cut (queue w @ new @ more)" by (simp only: f(1) append_assoc)
    with True i(1,3) d c f(3) show ?thesis
      by (intro exI [of _ w2] exI [of _ w'] exI [of _ "p # ps"] exI [of _ "new @ more"]) simp
  qed
qed simp

end

end
