(* ===== verification/Net_Instance.thy ===== *)
theory Net_Instance
  imports Net_Path
begin

text \<open>
  A small mailbox and packet table that can be put into any state by a pair of functions, one
  that reads it and one that replaces it: the instance on which the witnesses for the way of
  a frame to the tcpip thread compute.
\<close>

record boxes =
  box :: "nat list"
  pkts :: "(nat \<times> pbuf) list"

definition lens :: "('w \<Rightarrow> boxes) \<Rightarrow> (boxes \<Rightarrow> 'w \<Rightarrow> 'w) \<Rightarrow> bool" where
  "lens get put \<longleftrightarrow> (\<forall>b w. get (put b w) = b)"

definition box_put :: "('w \<Rightarrow> boxes) \<Rightarrow> (boxes \<Rightarrow> 'w \<Rightarrow> 'w) \<Rightarrow> handle \<Rightarrow> nat \<Rightarrow> u32 \<Rightarrow> 'w \<Rightarrow> bool \<times> 'w" where
  "box_put get put h m t w =
     (if h = Some 3 \<and> length (box (get w)) < 4
      then (True, put ((get w)\<lparr>box := box (get w) @ [m]\<rparr>) w) else (False, w))"

definition box_get :: "('w \<Rightarrow> boxes) \<Rightarrow> (boxes \<Rightarrow> 'w \<Rightarrow> 'w) \<Rightarrow> handle \<Rightarrow> u32 \<Rightarrow> 'w \<Rightarrow> nat option \<times> 'w" where
  "box_get get put h t w =
     (if h = Some 3 then
        (case box (get w) of [] \<Rightarrow> (None, w) | m # ms \<Rightarrow> (Some m, put ((get w)\<lparr>box := ms\<rparr>) w))
      else (None, w))"

definition box_pico :: "('w \<Rightarrow> boxes) \<Rightarrow> (boxes \<Rightarrow> 'w \<Rightarrow> 'w) \<Rightarrow> 'w pico" where
  "box_pico get put =
     \<lparr> HZ = 100, MS = (\<lambda>t. t div 10), INFINITE = 0xFFFFFFFF, SYS_ARCH_TIMEOUT = 0xFFFFFFFF,
       SYS_MBOX_EMPTY = 0xFFFFFFFF, LWIP_DEBUG = True, LWIP_NOASSERT = False, jiffies = (\<lambda>_. 0),
       nosMutexCreate = (\<lambda>_ _ w. (Some 1, w)), nosMutexLock = (\<lambda>_ w. w),
       nosMutexUnlock = (\<lambda>_ w. w), nosMutexDestroy = (\<lambda>_ w. w),
       nosSemaCreate = (\<lambda>_ _ _ w. (None, w)), nosSemaSignal = (\<lambda>_ w. w),
       nosSemaWait = (\<lambda>_ _ w. (0, w)), nosSemaDestroy = (\<lambda>_ w. w),
       uosRingCreate = (\<lambda>_ _ w. (Some 3, w)), uosRingPut = box_put get put, uosRingGet = box_get get put,
       uosRingDestroy = (\<lambda>_ w. w), SYS_STATS_INC_USED_mbox = (\<lambda>w. w),
       SYS_STATS_DEC_mbox_used = (\<lambda>w. w), POS_SCHED_LOCK = (\<lambda>w. (0, w)),
       POS_SCHED_UNLOCK = (\<lambda>_ w. w), nosTaskCreate = (\<lambda>_ _ _ _ _ w. (Some 2, w)),
       sizeof_ptr = 4 \<rparr>"

definition box_mail :: "('w \<Rightarrow> boxes) \<Rightarrow> (boxes \<Rightarrow> 'w \<Rightarrow> 'w) \<Rightarrow> 'w mail" where
  "box_mail get put =
     \<lparr> mail_os = box_pico get put, mail_ring = (\<lambda>w. [3 \<mapsto> (4, box (get w))]),
       packet = (\<lambda>w. map_of (pkts (get w))), tcpip_mbox = 3 \<rparr>"

text \<open>A message at the first address above all that are in use; then the mailbox.\<close>

definition box_input ::
    "('w \<Rightarrow> boxes) \<Rightarrow> (boxes \<Rightarrow> 'w \<Rightarrow> 'w) \<Rightarrow> ('w \<Rightarrow> 'w) \<Rightarrow> pbuf \<Rightarrow> 'w \<Rightarrow> err_t \<times> 'w" where
  "box_input get put taken p w =
     (let m = Suc (sum_list (map fst (pkts (get w))));
          w1 = put ((get w)\<lparr>pkts := (m, p) # pkts (get w)\<rparr>) w
      in case sys_mbox_trypost (box_pico get put) (Some (Some 3)) m w1 of
           Inl _ \<Rightarrow> (ERR_IF, w)
         | Inr (e, w2) \<Rightarrow> if e = ERR_OK then (ERR_OK, taken w2) else (e, w))"

lemma fresh_message: "map_of ps (Suc (sum_list (map fst ps))) = None"
proof -
  have "m \<le> sum_list (map fst ps)" if "m \<in> fst ` set ps" for m
    using that member_le_sum_list [of m "map fst ps"] by simp
  then show ?thesis unfolding map_of_eq_None_iff by (meson Suc_n_not_le_n)
qed

lemma box_simps [simp]:
  "mail_os (box_mail get put) = box_pico get put" "tcpip_mbox (box_mail get put) = 3"
  "mail_ring (box_mail get put) w = [3 \<mapsto> (4, box (get w))]"
  "packet (box_mail get put) w = map_of (pkts (get w))"
  "uosRingPut (box_pico get put) = box_put get put" "uosRingGet (box_pico get put) = box_get get put"
  "SYS_MBOX_EMPTY (box_pico get put) = 0xFFFFFFFF" "INFINITE (box_pico get put) = 0xFFFFFFFF"
  by (simp_all add: box_mail_def box_pico_def)

lemma lensD: "lens get put \<Longrightarrow> get (put b w) = b"
  by (simp add: lens_def)

lemma box_apart: "lens get put \<Longrightarrow> mail_apart (box_mail get put)"
  by (auto simp: mail_apart_def box_put_def box_get_def lensD split: list.splits)

lemma box_same: "get w' = get w \<Longrightarrow> same_mail (box_mail get put) w w'"
  by (simp add: same_mail_def fun_eq_iff)

lemma box_box [simp]: "mail_box (box_mail get put) w = box (get w)"
  by (simp add: mail_box_def mbox_contents_def)

lemma box_room: "mail_room (box_mail get put) w \<longleftrightarrow> length (box (get w)) < 4"
  by (simp add: mail_room_def mail_cap_def inbox_def mbox_capacity_def)

lemma box_inv:
  assumes "lens get put"
  shows "mail_inv (box_mail get put) w \<longleftrightarrow>
    distinct (box (get w)) \<and> (\<forall>m \<in> set (box (get w)). map_of (pkts (get w)) m \<noteq> None)"
proof -
  have "ring_ok (box_pico get put) (mail_ring (box_mail get put))"
    using lensD [OF assms]
    by (auto simp: ring_ok_def ring_put_ok_def ring_get_ok_def box_put_def box_get_def split: list.splits if_splits)
  moreover have "ring_wait_ok (box_pico get put) (mail_ring (box_mail get put))"
    using lensD [OF assms] by (auto simp: ring_wait_ok_def box_put_def box_get_def split: list.splits if_splits)
  ultimately show ?thesis by (simp add: mail_inv_def mbox_live_wait_def mbox_live_def)
qed

lemma box_input_posts:
  assumes "lens get put" and "\<And>w. get (taken w) = get w"
  shows "case box_input get put taken p w of (e, w') \<Rightarrow>
    if length (box (get w)) < 4
    then e = ERR_OK \<and> posts_message (box_mail get put) p w ERR_OK w'
    else e = ERR_MEM \<and> w' = w \<and> (\<exists>w2. posts_message (box_mail get put) p w ERR_MEM w2)"
proof -
  let ?V = "box_mail get put" and ?m = "Suc (sum_list (map fst (pkts (get w))))"
  let ?w1 = "put ((get w)\<lparr>pkts := (?m, p) # pkts (get w)\<rparr>) w"
  have g: "get ?w1 = (get w)\<lparr>pkts := (?m, p) # pkts (get w)\<rparr>" by (rule lensD [OF assms(1)])
  have pre: "packet ?V w ?m = None" "mail_ring ?V ?w1 = mail_ring ?V w"
    "packet ?V ?w1 = (packet ?V w)(?m \<mapsto> p)"
    by (simp_all add: fresh_message g fun_eq_iff)
  have t: "sys_mbox_trypost (box_pico get put) (Some (Some 3)) ?m ?w1 =
      Inr (if length (box (get w)) < 4 then ERR_OK else ERR_MEM,
        snd (box_put get put (Some 3) ?m 0 ?w1))"
    by (simp add: trypost_eq box_put_def g)
  have p: "posts_message ?V p w (if length (box (get w)) < 4 then ERR_OK else ERR_MEM) w'"
    if "get w' = get (snd (box_put get put (Some 3) ?m 0 ?w1))" for w'
    unfolding posts_message_def using pre t box_same [of get w' "snd (box_put get put (Some 3) ?m 0 ?w1)" put, OF that]
    by (intro exI [of _ ?m] exI [of _ ?w1] exI [of _ "snd (box_put get put (Some 3) ?m 0 ?w1)"]) simp
  show ?thesis
  proof (cases "length (box (get w)) < 4")
    case True
    with p [of "taken (snd (box_put get put (Some 3) ?m 0 ?w1))"] assms(2) t show ?thesis
      by (simp add: box_input_def Let_def)
  next
    case False
    with p [of "snd (box_put get put (Some 3) ?m 0 ?w1)"] t show ?thesis
      by (auto simp: box_input_def Let_def)
  qed
qed

lemma box_input_ok:
  assumes "lens get put" and "\<And>w. get (taken w) = get w" and "netif_input X = box_input get put taken"
  shows "tcpip_input_ok (box_mail get put) X" "messages_left (box_mail get put) X"
proof -
  have b: "(e \<noteq> ERR_OK \<and> same_mail (box_mail get put) w w' \<or> e = ERR_OK \<and> posts_message (box_mail get put) p w ERR_OK w') \<and>
      (e \<noteq> ERR_OK \<longrightarrow> (\<exists>e w2. e \<noteq> ERR_OK \<and> posts_message (box_mail get put) p w e w2))"
    if "box_input get put taken p w = (e, w')" for p :: pbuf and w e w'
    using box_input_posts [where get = get and put = put and taken = taken and p = p and w = w] assms(1,2) that
    by (auto split: if_splits)
  show "tcpip_input_ok (box_mail get put) X"
    unfolding tcpip_input_ok_def assms(3) using b by (auto split: prod.splits)
  show "messages_left (box_mail get put) X"
    unfolding messages_left_def assms(3) using b by (metis prod.collapse)
qed

text \<open>The tcpip thread takes the only message and frees it.\<close>

lemma map_of_filter_out: "map_of (filter (\<lambda>x. fst x \<noteq> m) xs) = (map_of xs)(m := None)"
  by (induction xs) auto

lemma box_fetches:
  assumes l: "lens get put" and i: "mail_inv (box_mail get put) (net s)" "length (inbox (box_mail get put) (net s)) = 1"
    and o: "\<And>b w. outside ready queue held w [] (put b w)"
  shows "\<exists>w p. rx_step (box_mail get put) input ready queue held s (s\<lparr>net := w, delivered := delivered s @ [p]\<rparr>) \<and>
    inbox (box_mail get put) w = []"
proof -
  let ?w = "net s"
  obtain m where m: "box (get ?w) = [m]" using i(2) by (auto simp: inbox_def length_Suc_conv)
  with i(1) l obtain p where p: "map_of (pkts (get ?w)) m = Some p" by (auto simp: box_inv)
  define w1 where "w1 = put ((get ?w)\<lparr>box := []\<rparr>) ?w"
  define w2 where "w2 = put \<lparr>box = [], pkts = filter (\<lambda>x. fst x \<noteq> m) (pkts (get ?w))\<rparr> ?w"
  note g = lensD [OF l]
  have "\<exists>r. sys_arch_mbox_fetch (box_pico get put) (Some (Some 3)) 0 ?w = Inr (r, Some m, w1)"
    by (simp add: sys_arch_mbox_fetch_def LWIP_ASSERT_def box_get_def m w1_def Let_def)
  then obtain r where f: "sys_arch_mbox_fetch (box_pico get put) (Some (Some 3)) 0 ?w = Inr (r, Some m, w1)" ..
  have "rx_step (box_mail get put) input ready queue held s
      (s\<lparr>net := w2, arrived := arrived s @ [], delivered := delivered s @ [p]\<rparr>)"
    by (rule rx_step.Fetches [where t = 0 and r = r and m = m and p = p and u = w1])
      (use f m p o [of ?w] in \<open>simp_all add: w1_def w2_def g map_of_filter_out\<close>)
  moreover have "inbox (box_mail get put) w2 = []" by (simp add: inbox_def w2_def g)
  ultimately show ?thesis by auto
qed

end
