(* ===== verification/Tap_Path.thy ===== *)
theory Tap_Path
  imports Net_Instance Tapif_Properties
begin

text \<open>
  The way of a frame from the tap device to the tcpip thread: the tap driver keeps the
  contract \<open>frame_path\<close>, so packets come out of the mailbox in the order of their frames,
  each once, while frames arrive and the tcpip thread fetches; and an IP or ARP frame is in
  the mailbox after one call when there is memory and room.
\<close>

section \<open>The tap driver keeps the contract\<close>

text \<open>Beside what the driver relies on: lwIP's input function and the mailbox do not interfere.\<close>

definition tap_path_ok ::
    "'w tapx \<Rightarrow> 'w mail \<Rightarrow> ('w \<Rightarrow> nat) \<Rightarrow> ('w \<Rightarrow> u8 list list) \<Rightarrow> bool" where
  "tap_path_ok T V held queue \<longleftrightarrow>
     tap_ok T held queue \<and> mail_apart V \<and> tcpip_input_ok V (tap_eth T) \<and> pool_apart V (tap_eth T) \<and>
     (\<forall>n buf w. same_mail V w (snd (snd (snd (tap_read T n buf w)))))"

lemma tap_receive_mail:
  assumes "tap_path_ok T V held queue" and "tap_lowLevelInput T w = Inr (po, w')"
  shows "same_mail V w w'"
proof -
  let ?X = "tap_eth T"
  have p: "pool_apart V ?X" and rd: "\<And>n buf w. same_mail V w (snd (snd (snd (tap_read T n buf w))))"
    using assms(1) by (simp_all add: tap_path_ok_def)
  obtain len again buf w1 where r: "tap_read T 1514 (ethBuf_init T w) w = (len, again, buf, w1)"
    by (metis prod_cases4)
  have s1: "same_mail V w w1" using rd [of w 1514 "ethBuf_init T w"] by (simp add: r)
  obtain po1 w2 where a: "pbuf_alloc ?X (word_of_int len + word_of_nat (ETH_PAD_SIZE ?X)) w1 = (po1, w2)" by fastforce
  have s2: "same_mail V w1 w2" using pool_apartD(1) [OF p] a by (metis snd_conv)
  have st: "same_mail V w (LINK_STATS_INC ?X k u)" if "same_mail V w u" for k u
    using that pool_apartD(3) [OF p] by (rule same_mail_trans)
  from assms(2) s1 same_mail_trans [OF s1 s2] show ?thesis
    by (auto simp: tap_lowLevelInput_def r a Let_def rbind_eq_Inr_iff split: if_splits option.splits intro!: st)
qed

interpretation tap_path: frame_path "tap_lowLevelInput T" "eth_dispatch (tap_eth T)" held
  "\<lambda>w. length (queue w)" "type_readable (tap_eth T)" "\<lambda>_. tap_path_ok T V held queue" queue
  "pbuf_frame (tap_eth T)" "take 1514" True V "tap_eth T"
  for T :: "'w tapx" and held queue V
proof
  fix w po w'
  assume ok: "tap_path_ok T V held queue"
  then have t: "tap_ok T held queue" by (simp add: tap_path_ok_def)
  then have i: "tap_inv T held queue w" by (simp add: tap_inv_def)
  show "\<exists>p w'. tap_lowLevelInput T w = Inr (p, w') \<and> tap_path_ok T V held queue \<and>
      (case p of None \<Rightarrow> held w' = held w \<and> length (queue w') \<le> length (queue w)
       | Some p \<Rightarrow> type_readable (tap_eth T) p \<and> held w' = Suc (held w) \<and> length (queue w') < length (queue w))"
    using tap.receive_law [OF i] ok by blast
  assume r: "tap_lowLevelInput T w = Inr (po, w')"
  have "\<exists>taken new. taken @ queue w' = queue w @ new \<and> (True \<longrightarrow> new = []) \<and>
      (case po of None \<Rightarrow> length taken \<le> 1 | Some p \<Rightarrow> map (take 1514) taken = [pbuf_frame (tap_eth T) p])"
  proof (cases "queue w")
    case Nil
    from tap_receive_empty [OF t Nil] r Nil show ?thesis by auto
  next
    case (Cons f fs)
    from tap_receive_frame [OF t Cons] r have "queue w' = fs" and
      "case po of None \<Rightarrow> True | Some p \<Rightarrow> pbuf_frame (tap_eth T) p = take 1514 f"
      by (auto simp: pbuf_frame_def split: option.splits)
    with Cons show ?thesis by (intro exI [of _ "[f]"] exI [of _ "[]"]) (auto split: option.splits)
  qed
  with tap_receive_mail [OF ok r] show "same_mail V w w' \<and>
      (\<exists>taken new. taken @ queue w' = queue w @ new \<and> (True \<longrightarrow> new = []) \<and>
        (case po of None \<Rightarrow> length taken \<le> 1 | Some p \<Rightarrow> map (take 1514) taken = [pbuf_frame (tap_eth T) p]))"
    by blast
next
  fix w p
  assume ok: "tap_path_ok T V held queue" and g: "type_readable (tap_eth T) p"
  then have t: "tap_ok T held queue" by (simp add: tap_path_ok_def)
  then have i: "tap_inv T held queue w" by (simp add: tap_inv_def)
  show "\<exists>w'. eth_dispatch (tap_eth T) p w = Inr w' \<and> tap_path_ok T V held queue \<and> held w' = held w - 1 \<and>
      length (queue w') = length (queue w)"
    using tap.dispose_law [OF i g] ok by blast
  fix w'
  assume m: "mail_inv V w" and d: "eth_dispatch (tap_eth T) p w = Inr w'"
  have "queue w' = queue w"
    using eth_dispatch_disposes [of "tap_eth T" held queue p w] t g d by (auto simp: tap_ok_def)
  with dispatch_mail [of V w "tap_eth T" p w'] m d ok
  show "queue w' = queue w \<and> mail_inv V w' \<and> (inbox V w' = inbox V w \<or>
      inbox V w' = inbox V w @ [p] \<and> wanted (tap_eth T) p)"
    by (simp add: tap_path_ok_def wanted_def)
qed

section \<open>In order, each once\<close>

text \<open>C2: From the tap device to the tcpip thread: while frames arrive, the polling thread calls
  \<open>tapIfInput\<close> and the tcpip thread takes messages out of its mailbox with
  \<open>sys_arch_mbox_fetch\<close>, in any order, the packets delivered and those still in the mailbox
  hold the bytes of frames that arrived, each frame at most once and in the order of their
  arrival, and only frames of the types lwIP takes; the other frames are still in the device,
  in order, or were dropped; and the driver keeps no packet.\<close>

theorem tap_frames_to_tcpip:
  assumes "tap_path_ok T V held queue" and "rx_start V s0"
    and "rx_reach V (tapIfInput T) (\<lambda>_. True) queue held s0 s"
  shows "\<exists>taken. taken @ queue (net s) = queue (net s0) @ arrived s \<and>
    subseq (map (pbuf_frame (tap_eth T)) (delivered s @ inbox V (net s))) (map (take 1514) taken) \<and>
    (\<forall>p \<in> set (delivered s @ inbox V (net s)). wanted (tap_eth T) p) \<and>
    held (net s) = held (net s0)"
proof -
  have i: "(\<lambda>_. tap_path_ok T V held queue) = (\<lambda>_. True)" using assms(1) by simp
  have m: "mail_apart V" using assms(1) by (simp add: tap_path_ok_def)
  have r: "rx_reach V (eth_input (tap_lowLevelInput T) (eth_dispatch (tap_eth T)))
      (\<lambda>_. tap_path_ok T V held queue) queue held s0 s"
    using assms(3) by (simp add: i tapIfInput_def [abs_def])
  from tap_path.path_inv_reach [OF m assms(2,1) r] show ?thesis unfolding tap_path.path_inv_def by auto
qed

section \<open>Nothing lost while there is room\<close>

text \<open>
  When lwIP serves the driver, with memory and messages, and the frames in the device are of
  types lwIP takes, the packet of a frame is in the mailbox after one call if there is room.
\<close>

definition tap_ready ::
    "'w tapx \<Rightarrow> 'w mail \<Rightarrow> ('w \<Rightarrow> nat) \<Rightarrow> ('w \<Rightarrow> u8 list list) \<Rightarrow> 'w \<Rightarrow> bool" where
  "tap_ready T V held queue w \<longleftrightarrow> tap_path_ok T V held queue \<and> mail_serves V (tap_eth T) \<and>
     (\<forall>f \<in> set (queue w). length f \<le> 1514 \<and> lwip_frame (tap_eth T) f)"

lemma tap_ready_receive:
  assumes "tap_ready T V held queue w" and r: "tap_lowLevelInput T w = Inr (po, w')"
  shows "tap_ready T V held queue w' \<and> (case po of None \<Rightarrow> queue w = []
    | Some p \<Rightarrow> holds_frame (tap_eth T) p \<and> lwip_frame (tap_eth T) (pbuf_frame (tap_eth T) p))"
proof (cases "queue w")
  case Nil
  have t: "tap_ok T held queue" using assms(1) by (simp add: tap_ready_def tap_path_ok_def)
  from tap_receive_empty [OF t Nil] assms Nil show ?thesis by (auto simp: tap_ready_def)
next
  case (Cons f fs)
  let ?X = "tap_eth T"
  have t: "tap_ok T held queue" and mem: "\<And>n w. fst (pbuf_alloc ?X n w) \<noteq> None"
    using assms(1) by (simp_all add: tap_ready_def tap_path_ok_def mail_serves_def)
  have f: "length f \<le> 1514" "lwip_frame ?X f" using assms(1) Cons by (simp_all add: tap_ready_def)
  from tap_receive_some [OF t mem Cons r] obtain p where po: "po = Some p" by blast
  from tap_receive_frame [OF t Cons] r po f(1) have w': "queue w' = fs" and "padded ?X p" "type_readable ?X p"
    "tot_len p = length f + ETH_PAD_SIZE ?X" "pbuf_frame ?X p = f" by (auto simp: pbuf_frame_def)
  then have "holds_frame ?X p \<and> lwip_frame ?X (pbuf_frame ?X p)" using f(2) by (simp add: holds_frame_def padded_def)
  with assms(1) Cons w' po show ?thesis by (simp add: tap_ready_def)
qed

interpretation tap_lossless: lossless_path "tap_lowLevelInput T" "eth_dispatch (tap_eth T)" held
  "\<lambda>w. length (queue w)" "holds_frame (tap_eth T)" "tap_ready T V held queue" queue
  "pbuf_frame (tap_eth T)" "take 1514" True V "tap_eth T" "lwip_frame (tap_eth T)" "\<lambda>_. []"
  for T :: "'w tapx" and held queue V
proof
  fix w po w'
  assume ok: "tap_ready T V held queue w"
  then have i: "tap_path_ok T V held queue" by (simp add: tap_ready_def)
  show "\<exists>p w'. tap_lowLevelInput T w = Inr (p, w') \<and> tap_ready T V held queue w' \<and>
      (case p of None \<Rightarrow> held w' = held w \<and> length (queue w') \<le> length (queue w)
       | Some p \<Rightarrow> holds_frame (tap_eth T) p \<and> held w' = Suc (held w) \<and> length (queue w') < length (queue w))"
    using tap_path.receive_law [where w = w, OF i] tap_ready_receive [OF ok] by (fastforce split: option.splits)
  assume r: "tap_lowLevelInput T w = Inr (po, w')"
  show "same_mail V w w' \<and>
      (\<exists>taken new. taken @ queue w' = queue w @ new \<and> (True \<longrightarrow> new = []) \<and>
        (case po of None \<Rightarrow> length taken \<le> 1 | Some p \<Rightarrow> map (take 1514) taken = [pbuf_frame (tap_eth T) p]))"
    by (rule tap_path.receive_frame [OF i r])
  from tap_path.receive_frame [OF i r] obtain taken new where "taken @ queue w' = queue w @ new"
    "True \<longrightarrow> new = []" "case po of None \<Rightarrow> length taken \<le> 1
      | Some p \<Rightarrow> map (take 1514) taken = [pbuf_frame (tap_eth T) p]" by blast
  with tap_ready_receive [OF ok r] show "\<exists>new. [] = [] @ new \<and> (case po of None \<Rightarrow> queue w = [] \<and> queue w' = new
      | Some p \<Rightarrow> lwip_frame (tap_eth T) (pbuf_frame (tap_eth T) p) \<and>
          (\<exists>f. f # queue w' = queue w @ new \<and> pbuf_frame (tap_eth T) p = take 1514 f))"
    by (auto split: option.splits)
next
  fix w p
  assume ok: "tap_ready T V held queue w" and g: "holds_frame (tap_eth T) p"
  then have i: "tap_path_ok T V held queue" and ty: "type_readable (tap_eth T) p"
    by (simp_all add: tap_ready_def holds_frame_def)
  have st: "stack_ok (tap_eth T) held queue" using i by (simp add: tap_path_ok_def tap_ok_def)
  have keep: "queue w' = queue w" if "eth_dispatch (tap_eth T) p w = Inr w'" for w'
    using eth_dispatch_disposes [OF st ty, of w] that by auto
  show "\<exists>w'. eth_dispatch (tap_eth T) p w = Inr w' \<and> tap_ready T V held queue w' \<and> held w' = held w - 1 \<and>
      length (queue w') = length (queue w)"
    using tap_path.dispose_law [where w = w, OF i ty] ok keep by (fastforce simp: tap_ready_def)
  fix w'
  assume m: "mail_inv V w" and d: "eth_dispatch (tap_eth T) p w = Inr w'"
  show "queue w' = queue w \<and> mail_inv V w' \<and> (inbox V w' = inbox V w \<or>
      inbox V w' = inbox V w @ [p] \<and> wanted (tap_eth T) p)"
    by (rule tap_path.dispose_frame [OF i ty m d])
  assume "mail_room V w" and "lwip_frame (tap_eth T) (pbuf_frame (tap_eth T) p)"
  from dispatch_posts [OF _ m _ _ this(1) g this(2) d] ok
  show "inbox V w' = inbox V w @ [p] \<and> mail_cap V w' = mail_cap V w \<and> [] = []"
    by (simp add: tap_ready_def tap_path_ok_def)
qed

text \<open>C12: When the tap thread has been woken, there is memory, and the mailbox of the tcpip
  thread has room for the frames in the device, all of them of types lwIP takes, one round of
  the thread puts the packets of all of them into the mailbox, in order and with exactly their
  bytes, and leaves the device empty.\<close>

theorem tap_round_delivers:
  assumes "tap_semaWait T (tap_MS T 1000) w0 = (r, w)" and "tap_ready T V held queue w" and "mail_inv V w"
    and "length (inbox V w) + length (queue w) \<le> mail_cap V w"
  shows "\<exists>w' ps. tapThread_round T (Suc (length (queue w))) w0 = Some (Inr w') \<and> queue w' = [] \<and>
    inbox V w' = inbox V w @ ps \<and> map (pbuf_frame (tap_eth T)) ps = queue w"
proof -
  from tap_lossless.drain_posts [OF assms(2,3) lessI assms(4)] obtain w' ps where
    d: "drain (tapIfInput T) (Suc (length (queue w))) w = Some (Inr w')" "inbox V w' = inbox V w @ ps"
      "map (pbuf_frame (tap_eth T)) ps = map (take 1514) (queue w)" "queue w' = []"
    by (auto simp: tapIfInput_def [abs_def])
  have "map (take 1514) (queue w) = queue w" using assms(2) by (auto simp: tap_ready_def intro!: map_idI)
  with d assms(1) show ?thesis by (simp add: tapThread_round_def)
qed

section \<open>An instance\<close>

text \<open>The frames in the device, the mailbox with its messages, the packets held.\<close>

type_synonym tap_world = "u8 list list \<times> boxes \<times> nat"

definition tw_get :: "tap_world \<Rightarrow> boxes" where "tw_get w = fst (snd w)"
definition tw_set :: "boxes \<Rightarrow> tap_world \<Rightarrow> tap_world" where "tw_set b w = (fst w, b, snd (snd w))"
definition tw_drop :: "tap_world \<Rightarrow> tap_world" where "tw_drop w = (fst w, fst (snd w), snd (snd w) - 1)"

definition path_eth :: "tap_world ethx" where
  "path_eth =
     \<lparr> ETH_PAD_SIZE = 2, PPPOE_SUPPORT = False, ETHTYPE_IP = 0x0800, ETHTYPE_IPV6 = 0x86DD,
       ETHTYPE_ARP = 0x0806, ETHTYPE_PPPOEDISC = 0x8863, ETHTYPE_PPPOE = 0x8864, eth_type_off = 14,
       pbuf_header = (\<lambda>k p. if k < 0 then lower (nat (- k)) p else raise_hdr (nat k) p),
       pbuf_alloc = (\<lambda>n (q, b, h). (Some (ex_pbuf (unat n)), (q, b, Suc h))),
       pbuf_free = (\<lambda>_. tw_drop),
       netif_input = box_input tw_get tw_set tw_drop,
       LINK_STATS_INC = (\<lambda>_ w. w) \<rparr>"

definition path_tap :: "tap_world tapx" where
  "path_tap =
     \<lparr> tap_eth = path_eth,
       tap_read = (\<lambda>n buf (q, b, h). case q of [] \<Rightarrow> (- 1, True, buf, (q, b, h))
         | f # fs \<Rightarrow> (int (length (take n f)), False, splice buf 0 (take n f), (fs, b, h))),
       tap_write = (\<lambda>bs w. (int (length bs), w)),
       ethBuf_init = (\<lambda>_. replicate 1514 0xAA),
       tap_semaWait = (\<lambda>_ w. (0, w)), tap_MS = (\<lambda>t. t) \<rparr>"

abbreviation tw_held :: "tap_world \<Rightarrow> nat" where "tw_held w \<equiv> snd (snd w)"

abbreviation tw_mail :: "tap_world mail" where "tw_mail \<equiv> box_mail tw_get tw_set"

lemma tw_simps [simp]:
  "lens tw_get tw_set" "tw_get (tw_drop w) = tw_get w" "tw_get (tw_set b w) = b"
  "fst (tw_set b w) = fst w" "snd (snd (tw_set b w)) = snd (snd w)" "fst (tw_drop w) = fst w"
  "snd (snd (tw_drop w)) = snd (snd w) - 1" "tw_get (q, b, h) = b"
  by (simp_all add: lens_def tw_get_def tw_set_def tw_drop_def)

lemma path_tap_simps [simp]:
  "tap_eth path_tap = path_eth" "ETH_PAD_SIZE path_eth = 2" "eth_type_off path_eth = 14"
  "netif_input path_eth = box_input tw_get tw_set tw_drop" "LINK_STATS_INC path_eth k w = w"
  by (simp_all add: path_tap_def path_eth_def)

lemma path_tap_ok: "tap_path_ok path_tap tw_mail tw_held fst"
proof -
  have "fst (snd (box_input tw_get tw_set tw_drop p w)) = fst w \<and>
      tw_held (snd (box_input tw_get tw_set tw_drop p w)) =
        (if fst (box_input tw_get tw_set tw_drop p w) = ERR_OK then tw_held w - 1 else tw_held w)" for p w
    by (simp add: box_input_def Let_def trypost_eq box_put_def)
  then have "stack_ok path_eth tw_held fst"
    by (simp add: stack_ok_def) (simp add: path_eth_def)
  moreover have "pool_ok path_eth tw_held fst"
    by (auto simp: pool_ok_def path_eth_def ex_pbuf_def pbuf_ok_def seg_ok_def type_readable_def)
  moreover have "read_ok path_tap tw_held fst"
    by (auto simp: read_ok_def path_tap_def split: list.splits)
  moreover have "header_ok path_eth" by (auto simp: header_ok_def path_eth_def lower_0)
  moreover have "length (ethBuf_init path_tap w) = 1514" for w by (simp add: path_tap_def)
  ultimately have "tap_ok path_tap tw_held fst" by (simp add: tap_ok_def)
  moreover have "pool_apart tw_mail path_eth"
    by (auto simp: pool_apart_def path_eth_def intro!: box_same)
  moreover have "same_mail tw_mail w (snd (snd (snd (tap_read path_tap n buf w))))" for n buf w
    by (cases w; cases "fst w") (auto simp: path_tap_def intro!: box_same)
  ultimately show ?thesis
    using box_apart [of tw_get tw_set] box_input_ok(1) [of tw_get tw_set tw_drop path_eth]
    by (simp add: tap_path_ok_def)
qed


text \<open>An ARP frame in the device, an empty mailbox.\<close>

definition tw0 :: tap_world where "tw0 = ([ex_frame], \<lparr>box = [], pkts = []\<rparr>, 0)"

lemma tw0_facts:
  "fst tw0 = [ex_frame]" "inbox tw_mail tw0 = []" "mail_inv tw_mail tw0" "mail_cap tw_mail tw0 = 4"
  "\<forall>f \<in> set (fst tw0). length f \<le> 1514 \<and> lwip_frame path_eth f"
proof -
  have "frame_type path_eth ex_frame = 0x0806" by (simp add: frame_type_def ex_frame_def nth_append)
  moreover have "eth_accepted path_eth 0x0806" by (simp add: eth_accepted_def path_eth_def)
  ultimately show "\<forall>f \<in> set (fst tw0). length f \<le> 1514 \<and> lwip_frame path_eth f"
    by (simp add: tw0_def lwip_frame_def) (simp add: ex_frame_def)
qed (simp_all add: tw0_def inbox_def box_inv mail_cap_def mbox_capacity_def)

lemma tw0_ready: "tap_ready path_tap tw_mail tw_held fst tw0"
proof -
  have "fst (pbuf_alloc path_eth n w) \<noteq> None" for n w by (cases w) (simp add: path_eth_def)
  with box_input_ok(2) [of tw_get tw_set tw_drop path_eth] have "mail_serves tw_mail path_eth"
    by (simp add: mail_serves_def)
  with path_tap_ok tw0_facts(5) show ?thesis by (simp add: tap_ready_def)
qed

theorem tap_round_delivers_witness:
  "\<exists>w' ps. tapThread_round path_tap 2 tw0 = Some (Inr w') \<and> fst w' = [] \<and>
    inbox tw_mail w' = ps \<and> map (pbuf_frame path_eth) ps = [ex_frame]"
proof -
  have w: "tap_semaWait path_tap (tap_MS path_tap 1000) tw0 = (0, tw0)" by (simp add: path_tap_def)
  have l: "length (inbox tw_mail tw0) + length (fst tw0) \<le> mail_cap tw_mail tw0" by (simp add: tw0_facts)
  from tap_round_delivers [OF w tw0_ready tw0_facts(3) l]
  show ?thesis by (auto simp: tw0_facts numeral_2_eq_2)
qed

text \<open>The driver polls once, then the tcpip thread fetches.\<close>

lemma path_run:
  "\<exists>s. rx_reach tw_mail (tapIfInput path_tap) (\<lambda>_. True) fst tw_held
      \<lparr>net = tw0, arrived = [], delivered = []\<rparr> s \<and> length (delivered s) = 1 \<and> arrived s = []"
proof -
  let ?s = "\<lparr>net = tw0, arrived = [], delivered = []\<rparr>"
  have room: "mail_room tw_mail tw0" by (simp add: mail_room_def tw0_facts)
  from tap_lossless.input_keeps [OF tw0_ready] obtain again w where w: "tapIfInput path_tap tw0 = Inr (again, w)"
    by (auto simp: tapIfInput_def)
  with tap_lossless.input_posts [OF tw0_ready tw0_facts(3) room, of again w]
    tap_lossless.input_path [OF tw0_ready tw0_facts(3), of again w]
  have "again" "fst w = []" "length (inbox tw_mail w) = 1" "mail_inv tw_mail w"
    by (auto simp: tapIfInput_def tw0_facts split: if_splits)
  with w have w: "tapIfInput path_tap tw0 = Inr (True, w)" "length (inbox tw_mail w) = 1" "mail_inv tw_mail w"
    by simp_all
  have s1: "rx_reach tw_mail (tapIfInput path_tap) (\<lambda>_. True) fst tw_held ?s (?s\<lparr>net := w\<rparr>)"
    by (rule rx_reach.Next [OF rx_reach.Begin rx_step.Polls [of "tapIfInput path_tap" ?s True w]]) (simp add: w(1))
  have "outside (\<lambda>_. True) fst tw_held u [] (tw_set b u)" for b u by (simp add: outside_def)
  from box_fetches [of tw_get tw_set "?s\<lparr>net := w\<rparr>", OF _ _ _ this] w(2,3) obtain w2 p where
    "rx_step tw_mail (tapIfInput path_tap) (\<lambda>_. True) fst tw_held (?s\<lparr>net := w\<rparr>)
      ((?s\<lparr>net := w\<rparr>)\<lparr>net := w2, delivered := delivered (?s\<lparr>net := w\<rparr>) @ [p]\<rparr>)" by fastforce
  note r = rx_reach.Next [OF s1 this]
  show ?thesis by (rule exI, rule conjI, rule r) simp
qed

text \<open>Frame, poll, fetch: the packet that comes out holds the frame.\<close>

theorem tap_frames_to_tcpip_witness:
  "\<exists>s. rx_reach tw_mail (tapIfInput path_tap) (\<lambda>_. True) fst tw_held
      \<lparr>net = tw0, arrived = [], delivered = []\<rparr> s \<and>
    map (pbuf_frame path_eth) (delivered s) = [ex_frame]"
proof -
  let ?s = "\<lparr>net = tw0, arrived = [], delivered = []\<rparr>"
  from path_run obtain s where s: "rx_reach tw_mail (tapIfInput path_tap) (\<lambda>_. True) fst tw_held ?s s"
    "length (delivered s) = 1" "arrived s = []" by blast
  have st: "rx_start tw_mail ?s" by (simp add: rx_start_def tw0_facts) (simp add: tw0_def)
  from tap_frames_to_tcpip [OF path_tap_ok st s(1)] obtain taken where
    t: "taken @ fst (net s) = ex_frame # arrived s"
      "subseq (map (pbuf_frame path_eth) (delivered s @ inbox tw_mail (net s))) (map (take 1514) taken)"
    by (auto simp: tw0_facts)
  obtain p where p: "delivered s = [p]" using s(2) by (auto simp: length_Suc_conv)
  have "length taken \<le> 1" using arg_cong [OF t(1), of length] s(3) by simp
  moreover have "taken \<noteq> []" using t(2) p by auto
  ultimately have "taken = [ex_frame]" using t(1) s(3) by (cases taken) auto
  with t(2) p have "pbuf_frame path_eth p = take 1514 ex_frame" by (auto dest: subseq_order.antisym simp: list_emb_Cons_iff1 split: if_splits)
  with s(1) p show ?thesis by (intro exI [of _ s]) (simp add: ex_frame_def)
qed

end
