(* ===== verification/Cs8900a_Path.thy ===== *)
theory Cs8900a_Path
  imports Net_Instance Cs8900a_Properties
begin

text \<open>
  The way of a frame from the CS8900A chip to the tcpip thread: the driver keeps the contract
  \<open>frame_path\<close>, so packets come out of the mailbox in the order in which the chip received
  their frames, each once, with the frames' bytes; and with memory and room a round of the
  polling thread puts a packet for every frame into the mailbox, those that arrive during the
  round included.
\<close>

section \<open>The driver leaves the rest alone\<close>

lemmas cs_accesses = cs8900aWrite_def cs8900aRead_def cs8900aReadAddrHighFirst_def cs8900aReadRxBuf_def

lemma access_rest [simp]:
  "rest (cs8900aWrite a d st) = rest st" "rest (snd (cs8900aRead pin a st)) = rest st"
  "rest (snd (cs8900aReadAddrHighFirst pin a st)) = rest st" "rest (cs8900aSkipFrame C st) = rest st"
  by (simp_all add: cs_accesses cs8900aSkipFrame_def Let_def)

lemma access_restD:
  "cs8900aRead pin a st = (v, st') \<Longrightarrow> rest st' = rest st"
  "cs8900aReadAddrHighFirst pin a st = (v, st') \<Longrightarrow> rest st' = rest st"
  "cs8900aReadRxBuf pin st = (b0, b1, st') \<Longrightarrow> rest st' = rest st"
  by (auto simp: cs_accesses Let_def)

lemma rx_seg_rest: "cs_rx_seg C q u st = Inr (q', st') \<Longrightarrow> rest st' = rest st"
proof (induction C q u st arbitrary: q' st' rule: cs_rx_seg.induct)
  case (1 C q u st)
  obtain b0 b1 st1 where r: "cs8900aReadRxBuf (IOPIN C) st = (b0, b1, st1)" by (metis prod_cases3)
  show ?case
  proof (cases "u < seg_len q")
    case True
    with 1(2) r obtain m where m: "wr_n (seg_mem q) (payload q + u) [b0, b1] = Inr m" "u + 2 < 65536"
      "cs_rx_seg C (q\<lparr>seg_mem := m\<rparr>) (u + 2) st1 = Inr (q', st')"
      by (subst (asm) cs_rx_seg.simps) (auto simp: rbind_eq_Inr_iff split: if_splits)
    from 1(1) [OF True r [symmetric] refl refl m] access_restD(3) [OF r] show ?thesis by simp
  next
    case False
    with 1(2) show ?thesis by (subst (asm) cs_rx_seg.simps) simp
  qed
qed

lemma rx_chain_rest: "cs_rx_chain C qs st = Inr (qs', st') \<Longrightarrow> rest st' = rest st"
  by (induction qs arbitrary: st qs' st') (auto simp: rbind_eq_Inr_iff dest!: rx_seg_rest)

text \<open>Beside what the driver relies on: lwIP's input function, the mailbox and the bus do not interfere.\<close>

definition cs_path_ok ::
    "'w csx \<Rightarrow> (cyc list \<Rightarrow> u8) \<Rightarrow> (cyc list \<Rightarrow> u8 list list) \<Rightarrow> (cyc list \<Rightarrow> nat) \<Rightarrow> ('w \<Rightarrow> nat) \<Rightarrow>
     'w lpc mail \<Rightarrow> bool" where
  "cs_path_ok C chip frames coming h V \<longleftrightarrow>
     cs_ok C chip frames coming h \<and> mail_apart V \<and> tcpip_input_ok V (cs_eth C) \<and> pool_apart V (cs_eth C) \<and>
     (\<forall>st st'. rest st' = rest st \<longrightarrow> same_mail V st st')"

lemma cs_receive_mail:
  assumes "cs_path_ok C chip frames coming h V" and r: "cs_lowLevelInput C st = Inr (po, st')"
  shows "same_mail V st st'"
proof -
  let ?X = "cs_eth C"
  have p: "pool_apart V ?X" and keep: "\<And>st st'. rest st' = rest st \<Longrightarrow> same_mail V st st'"
    using assms(1) by (simp_all add: cs_path_ok_def)
  obtain v st1 where r1: "cs8900aRead (IOPIN C) DATA_PORT (cs8900aWrite ADD_PORT PP_RxEvent st) = (v, st1)" by fastforce
  obtain s st2 where r2: "cs8900aReadAddrHighFirst (IOPIN C) RX_FRAME_PORT st1 = (s, st2)" by fastforce
  obtain l st3 where r3: "cs8900aReadAddrHighFirst (IOPIN C) RX_FRAME_PORT st2 = (l, st3)" by fastforce
  obtain po4 st4 where a: "pbuf_alloc ?X ((ucast l :: u16) + word_of_nat (ETH_PAD_SIZE ?X)) st3 = (po4, st4)" by fastforce
  have e: "rest st1 = rest st" "rest st3 = rest st" using access_restD(1) [OF r1] access_restD(2) [OF r2] access_restD(2) [OF r3] by simp_all
  note s1 = keep [OF e(1)]
  have s4: "same_mail V st st4" using same_mail_trans [OF keep [OF e(2)]] pool_apartD(1) [OF p] a by (metis snd_conv)
  have st: "same_mail V st (LINK_STATS_INC ?X k u)" if "same_mail V st u" for k u
    using that pool_apartD(3) [OF p] by (rule same_mail_trans)
  have t4: "same_mail V st u" if "rest u = rest st4" for u using same_mail_trans [OF s4 keep [OF that]] .
  have "same_mail V st (LINK_STATS_INC ?X Drop (LINK_STATS_INC ?X Memerr (cs8900aSkipFrame C st4)))"
    by (intro st t4) simp
  moreover have "same_mail V st (LINK_STATS_INC ?X Recv u)" if "rest u = rest st4" for u by (intro st t4 that)
  ultimately show ?thesis using r s1
    by (auto simp: cs_lowLevelInput_def r1 r2 r3 a Let_def rbind_eq_Inr_iff split: if_splits option.splits
        dest!: rx_chain_rest)
qed

definition cs_path_inv ::
    "'w csx \<Rightarrow> (cyc list \<Rightarrow> u8) \<Rightarrow> (cyc list \<Rightarrow> u8 list list) \<Rightarrow> (cyc list \<Rightarrow> nat) \<Rightarrow> ('w \<Rightarrow> nat) \<Rightarrow>
     'w lpc mail \<Rightarrow> 'w lpc \<Rightarrow> bool" where
  "cs_path_inv C chip frames coming h V st \<longleftrightarrow> cs_path_ok C chip frames coming h V \<and> idle st"

lemma cs_path_cs: "cs_path_inv C chip frames coming h V st \<Longrightarrow> cs_inv C chip frames coming h st"
  by (simp add: cs_path_inv_def cs_path_ok_def cs_inv_def)

lemma cs_path_idle: "cs_path_ok C chip frames coming h V \<Longrightarrow>
    cs_inv C chip frames coming h st = cs_path_inv C chip frames coming h V st"
  by (auto simp: cs_path_inv_def cs_path_ok_def cs_inv_def)

interpretation cs_path: frame_path "cs_lowLevelInput C" "eth_dispatch (cs_eth C)" "\<lambda>st. h (rest st)"
  "cs_pending frames coming" "type_readable (cs_eth C)" "cs_path_inv C chip frames coming h V"
  "\<lambda>st. frames (bus st)" "pbuf_frame (cs_eth C)" "\<lambda>f. f" False V "cs_eth C"
  for C :: "'w csx" and chip frames coming h V
proof
  fix st po st'
  assume inv: "cs_path_inv C chip frames coming h V st"
  then have ok: "cs_path_ok C chip frames coming h V" by (simp add: cs_path_inv_def)
  then have cs: "cs_ok C chip frames coming h" "idle st" using inv by (simp_all add: cs_path_ok_def cs_path_inv_def)
  show "\<exists>p st'. cs_lowLevelInput C st = Inr (p, st') \<and> cs_path_inv C chip frames coming h V st' \<and>
      (case p of None \<Rightarrow> h (rest st') = h (rest st) \<and> cs_pending frames coming st' \<le> cs_pending frames coming st
       | Some p \<Rightarrow> type_readable (cs_eth C) p \<and> h (rest st') = Suc (h (rest st)) \<and>
           cs_pending frames coming st' < cs_pending frames coming st)"
    using cs.receive_law [OF cs_path_cs [OF inv]] unfolding cs_path_idle [OF ok] .
  assume r: "cs_lowLevelInput C st = Inr (po, st')"
  have "\<exists>taken new. taken @ frames (bus st') = frames (bus st) @ new \<and>
      (case po of None \<Rightarrow> length taken \<le> 1 | Some p \<Rightarrow> map (\<lambda>f. f) taken = [pbuf_frame (cs_eth C) p])"
    using cs
  proof (cases rule: cs_receive_cases)
    case (none st2)
    with r have "[] @ frames (bus st') = frames (bus st) @ frames (bus st')" and "po = None" by simp_all
    then show ?thesis by (intro exI [of _ "[]"] exI [of _ "frames (bus st')"]) simp
  next
    case (frame f fs po2 st2)
    with r have e: "po2 = po" "st2 = st'" by simp_all
    from frame(7) e obtain a where a: "frames (bus st') = fs @ a" by (auto simp: grows_def prefix_def)
    from frame(2) obtain b where "f # fs = frames (bus st) @ b" by (auto simp: prefix_def)
    then have "[f] @ frames (bus st') = frames (bus st) @ b @ a" by (simp add: a flip: append_assoc)
    with frame(8) e show ?thesis by (intro exI [of _ "[f]"] exI [of _ "b @ a"]) (auto simp: pbuf_frame_def split: option.splits)
  qed
  with cs_receive_mail [OF ok r] show "same_mail V st st' \<and>
      (\<exists>taken new. taken @ frames (bus st') = frames (bus st) @ new \<and> (False \<longrightarrow> new = []) \<and>
        (case po of None \<Rightarrow> length taken \<le> 1 | Some p \<Rightarrow> map (\<lambda>f. f) taken = [pbuf_frame (cs_eth C) p]))"
    by simp
next
  fix st p
  assume inv: "cs_path_inv C chip frames coming h V st" and g: "type_readable (cs_eth C) p"
  then have ok: "cs_path_ok C chip frames coming h V" by (simp add: cs_path_inv_def)
  show "\<exists>st'. eth_dispatch (cs_eth C) p st = Inr st' \<and> cs_path_inv C chip frames coming h V st' \<and>
      h (rest st') = h (rest st) - 1 \<and> cs_pending frames coming st' = cs_pending frames coming st"
    using cs.dispose_law [OF cs_path_cs [OF inv] g] unfolding cs_path_idle [OF ok] .
  fix st'
  assume m: "mail_inv V st" and d: "eth_dispatch (cs_eth C) p st = Inr st'"
  have "bus st' = bus st" using dispatch_io [of "cs_eth C" p st st'] d ok by (simp add: cs_path_ok_def cs_ok_def same_io_def)
  with dispatch_mail [of V st "cs_eth C" p st'] m d ok
  show "frames (bus st') = frames (bus st) \<and> mail_inv V st' \<and> (inbox V st' = inbox V st \<or>
      inbox V st' = inbox V st @ [p] \<and> wanted (cs_eth C) p)"
    by (simp add: cs_path_ok_def wanted_def)
qed

section \<open>In order, each once\<close>

text \<open>C3: From the CS8900A chip to the tcpip thread: while frames arrive, the polling thread calls
  \<open>cs8900aIfInput\<close> and the tcpip thread takes messages out of its mailbox with
  \<open>sys_arch_mbox_fetch\<close>, in any order, the packets delivered and those still in the mailbox
  hold the bytes of frames the chip received, each frame at most once and in the order in which
  it received them, and only frames of the types lwIP takes; the frames not yet read are in
  the chip, in order; the driver keeps no packet, and the bus is at rest after each step.\<close>

theorem cs_frames_to_tcpip:
  assumes "cs_path_ok C chip frames coming h V" and "rx_start V s0" and "idle (net s0)"
    and "rx_reach V (cs8900aIfInput C) idle (\<lambda>st. frames (bus st)) (\<lambda>st. h (rest st)) s0 s"
  shows "\<exists>taken all. taken @ frames (bus (net s)) = frames (bus (net s0)) @ all \<and> subseq (arrived s) all \<and>
    subseq (map (pbuf_frame (cs_eth C)) (delivered s @ inbox V (net s))) taken \<and>
    (\<forall>p \<in> set (delivered s @ inbox V (net s)). wanted (cs_eth C) p) \<and>
    h (rest (net s)) = h (rest (net s0)) \<and> idle (net s)"
proof -
  have i: "cs_path_inv C chip frames coming h V = idle" using assms(1) by (simp add: cs_path_inv_def fun_eq_iff)
  have m: "mail_apart V" using assms(1) by (simp add: cs_path_ok_def)
  have r: "rx_reach V (eth_input (cs_lowLevelInput C) (eth_dispatch (cs_eth C)))
      (cs_path_inv C chip frames coming h V) (\<lambda>st. frames (bus st)) (\<lambda>st. h (rest st)) s0 s"
    using assms(4) by (simp add: i cs8900aIfInput_def [abs_def])
  have "cs_path_inv C chip frames coming h V (net s0)" using assms(3) by (simp add: i)
  note p = cs_path.path_inv_reach [OF m assms(2) this r, unfolded cs_path.path_inv_def]
  from p show ?thesis unfolding i by auto
qed

section \<open>Nothing lost while there is room\<close>

text \<open>
  \<open>came B\<close> are all the frames the chip has received when the cycles \<open>B\<close> have been made: those
  received during a poll, or while a frame is read out, are appended to it and to the frames
  in the chip.
\<close>

definition arrivals :: "(cyc list \<Rightarrow> u8 list list) \<Rightarrow> (cyc list \<Rightarrow> u8 list list) \<Rightarrow> bool" where
  "arrivals frames came \<longleftrightarrow>
     (\<forall>B. \<exists>new. frames (B @ poll_cycles) = frames B @ new \<and> came (B @ poll_cycles) = came B @ new) \<and>
     (\<forall>B f fs n. frames (B @ poll_cycles) = f # fs \<longrightarrow>
        (\<exists>new. frames (B @ poll_cycles @ header_cycles @ rx_reads n) = fs @ new \<and>
           came (B @ poll_cycles @ header_cycles @ rx_reads n) = came (B @ poll_cycles) @ new))"

text \<open>With memory and messages, when all frames that come are of types lwIP takes.\<close>

definition cs_ready ::
    "'w csx \<Rightarrow> (cyc list \<Rightarrow> u8) \<Rightarrow> (cyc list \<Rightarrow> u8 list list) \<Rightarrow> (cyc list \<Rightarrow> nat) \<Rightarrow>
     (cyc list \<Rightarrow> u8 list list) \<Rightarrow> ('w \<Rightarrow> nat) \<Rightarrow> 'w lpc mail \<Rightarrow> bool" where
  "cs_ready C chip frames coming came h V \<longleftrightarrow> cs_path_ok C chip frames coming h V \<and> mail_serves V (cs_eth C) \<and>
     arrivals frames came \<and> (\<forall>B. \<forall>f \<in> set (frames B). lwip_frame (cs_eth C) f)"

lemma cs_ready_receive:
  assumes "cs_ready C chip frames coming came h V" and i: "idle st" and r: "cs_lowLevelInput C st = Inr (po, st')"
  shows "idle st' \<and> (\<exists>new. came (bus st') = came (bus st) @ new \<and> (case po of
      None \<Rightarrow> frames (bus st) = [] \<and> frames (bus st') = new
    | Some p \<Rightarrow> holds_frame (cs_eth C) p \<and> lwip_frame (cs_eth C) (pbuf_frame (cs_eth C) p) \<and>
        pbuf_frame (cs_eth C) p # frames (bus st') = frames (bus st) @ new))"
proof -
  have ok: "cs_ok C chip frames coming h" and mem: "\<And>n st. fst (pbuf_alloc (cs_eth C) n st) \<noteq> None"
    and l: "\<And>B f. f \<in> set (frames B) \<Longrightarrow> lwip_frame (cs_eth C) f" and ar: "arrivals frames came"
    using assms(1) by (simp_all add: cs_ready_def cs_path_ok_def mail_serves_def)
  have c: "chip_ok chip frames coming" using ok by (simp add: cs_ok_def)
  from ar obtain a where a: "frames (bus st @ poll_cycles) = frames (bus st) @ a"
    "came (bus st @ poll_cycles) = came (bus st) @ a" unfolding arrivals_def by blast
  show ?thesis
  proof (cases "rx_flag chip (bus st) = 0")
    case True
    from cs_receive_empty [OF ok i True] r a chip_poll(2) [OF c True] show ?thesis by auto
  next
    case False
    from chip_poll(3) [OF c False] obtain f fs where q: "frames (bus st @ poll_cycles) = f # fs"
      by (auto simp: neq_Nil_conv)
    have lf: "lwip_frame (cs_eth C) f" using l [of f "bus st @ poll_cycles"] q by simp
    from cs_receive_frame [OF ok i False q] r mem obtain p n where p: "po = Some p" "idle st'" "padded (cs_eth C) p"
      "type_readable (cs_eth C) p" "tot_len p = length f + ETH_PAD_SIZE (cs_eth C)" "pbuf_frame (cs_eth C) p = f"
      "bus st' = bus st @ poll_cycles @ header_cycles @ rx_reads n"
      by (cases po) (auto simp: pbuf_frame_def)
    from ar q obtain b where b: "frames (bus st') = fs @ b" "came (bus st') = came (bus st @ poll_cycles) @ b"
      unfolding arrivals_def p(7) by blast
    have "f # frames (bus st') = frames (bus st) @ a @ b" using a(1) q b(1) by (metis append.assoc append_Cons)
    with p lf a(2) b(2) show ?thesis by (simp add: holds_frame_def padded_def)
  qed
qed

interpretation cs_lossless: lossless_path "cs_lowLevelInput C" "eth_dispatch (cs_eth C)" "\<lambda>st. h (rest st)"
  "cs_pending frames coming" "holds_frame (cs_eth C)" "\<lambda>st. cs_ready C chip frames coming came h V \<and> idle st"
  "\<lambda>st. frames (bus st)" "pbuf_frame (cs_eth C)" "\<lambda>f. f" False V "cs_eth C" "lwip_frame (cs_eth C)"
  "\<lambda>st. came (bus st)"
  for C :: "'w csx" and chip frames coming came h V
proof
  fix st st' :: "'w lpc" and po
  assume ok: "cs_ready C chip frames coming came h V \<and> idle st"
  then have i: "cs_path_inv C chip frames coming h V st" by (simp add: cs_ready_def cs_path_inv_def)
  show "\<exists>p st'. cs_lowLevelInput C st = Inr (p, st') \<and> (cs_ready C chip frames coming came h V \<and> idle st') \<and>
      (case p of None \<Rightarrow> h (rest st') = h (rest st) \<and> cs_pending frames coming st' \<le> cs_pending frames coming st
       | Some p \<Rightarrow> holds_frame (cs_eth C) p \<and> h (rest st') = Suc (h (rest st)) \<and>
           cs_pending frames coming st' < cs_pending frames coming st)"
    using cs_path.receive_law [OF i] cs_ready_receive [where st = st] ok by (fastforce split: option.splits)
  assume r: "cs_lowLevelInput C st = Inr (po, st')"
  show "same_mail V st st' \<and>
      (\<exists>taken new. taken @ frames (bus st') = frames (bus st) @ new \<and> (False \<longrightarrow> new = []) \<and>
        (case po of None \<Rightarrow> length taken \<le> 1 | Some p \<Rightarrow> map (\<lambda>f. f) taken = [pbuf_frame (cs_eth C) p]))"
    by (rule cs_path.receive_frame [OF i r])
  from cs_ready_receive [OF conjunct1 [OF ok] conjunct2 [OF ok] r]
  show "\<exists>new. came (bus st') = came (bus st) @ new \<and> (case po of
      None \<Rightarrow> frames (bus st) = [] \<and> frames (bus st') = new
    | Some p \<Rightarrow> lwip_frame (cs_eth C) (pbuf_frame (cs_eth C) p) \<and>
        (\<exists>f. f # frames (bus st') = frames (bus st) @ new \<and> pbuf_frame (cs_eth C) p = f))"
    by (auto split: option.splits)
next
  fix st :: "'w lpc" and p
  assume ok: "cs_ready C chip frames coming came h V \<and> idle st" and g: "holds_frame (cs_eth C) p"
  then have i: "cs_path_inv C chip frames coming h V st" and ty: "type_readable (cs_eth C) p"
    by (simp_all add: cs_ready_def cs_path_inv_def holds_frame_def)
  show "\<exists>st'. eth_dispatch (cs_eth C) p st = Inr st' \<and> (cs_ready C chip frames coming came h V \<and> idle st') \<and>
      h (rest st') = h (rest st) - 1 \<and> cs_pending frames coming st' = cs_pending frames coming st"
    using cs_path.dispose_law [OF i ty] ok by (auto simp: cs_path_inv_def)
  fix st'
  assume m: "mail_inv V st" and d: "eth_dispatch (cs_eth C) p st = Inr st'"
  show "frames (bus st') = frames (bus st) \<and> mail_inv V st' \<and> (inbox V st' = inbox V st \<or>
      inbox V st' = inbox V st @ [p] \<and> wanted (cs_eth C) p)"
    by (rule cs_path.dispose_frame [OF i ty m d])
  assume "mail_room V st" and "lwip_frame (cs_eth C) (pbuf_frame (cs_eth C) p)"
  from dispatch_posts [OF _ m _ _ this(1) g this(2) d] dispatch_io [of "cs_eth C" p st st'] d ok
  show "inbox V st' = inbox V st @ [p] \<and> mail_cap V st' = mail_cap V st \<and> came (bus st') = came (bus st)"
    by (simp add: cs_ready_def cs_path_ok_def cs_ok_def same_io_def)
qed

text \<open>C4: When there is memory, all frames the chip receives are of types lwIP takes, and the
  mailbox of the tcpip thread has room for those in the chip and those still to arrive, a round
  of the CS8900A polling thread ends with the bus at rest. It ends with a call that finds the
  chip empty, and has put into the mailbox, in order and with exactly their bytes, the packets
  of all frames that were in the chip and of all those received before that call; the frames
  received during that call are in the chip.\<close>

theorem cs_round_delivers:
  assumes "cs_ready C chip frames coming came h V" and "posTaskSleep C (cs_MS C 10) st0 = st" and "idle st"
    and "mail_inv V st" and "length (frames (bus st)) + coming (bus st) < n"
    and "length (inbox V st) + length (frames (bus st)) + coming (bus st) \<le> mail_cap V st"
  shows "\<exists>st1 st' ps new. cs8900aThread_round C n st0 = Some (Inr st') \<and> idle st' \<and> h (rest st') = h (rest st) \<and>
    inbox V st' = inbox V st @ ps \<and> map (pbuf_frame (cs_eth C)) ps = frames (bus st) @ new \<and>
    came (bus st1) = came (bus st) @ new \<and> frames (bus st1) = [] \<and> cs8900aIfInput C st1 = Inr (False, st') \<and>
    came (bus st') = came (bus st1) @ frames (bus st')"
proof -
  have i: "cs_ready C chip frames coming came h V \<and> idle st" using assms(1,3) by simp
  have p: "cs_pending frames coming st < n" "length (inbox V st) + cs_pending frames coming st \<le> mail_cap V st"
    using assms(5,6) by (simp_all add: cs_pending_def)
  from cs_lossless.drain_posts [OF i assms(4) p] assms(2) show ?thesis
    by (auto simp: cs8900aThread_round_def cs8900aIfInput_def [abs_def])
qed

section \<open>An instance\<close>

text \<open>The rest of the system: the mailbox with its messages, and the packets held.\<close>

type_synonym cs_world = "(boxes \<times> nat) lpc"

definition cw_get :: "cs_world \<Rightarrow> boxes" where "cw_get st = fst (rest st)"
definition cw_set :: "boxes \<Rightarrow> cs_world \<Rightarrow> cs_world" where "cw_set b st = st\<lparr>rest := (b, snd (rest st))\<rparr>"
definition cw_drop :: "cs_world \<Rightarrow> cs_world" where "cw_drop st = st\<lparr>rest := (fst (rest st), snd (rest st) - 1)\<rparr>"

definition path_cs_eth :: "cs_world ethx" where
  "path_cs_eth =
     \<lparr> ETH_PAD_SIZE = 2, PPPOE_SUPPORT = False, ETHTYPE_IP = 0x0800, ETHTYPE_IPV6 = 0x86DD,
       ETHTYPE_ARP = 0x0806, ETHTYPE_PPPOEDISC = 0x8863, ETHTYPE_PPPOE = 0x8864, eth_type_off = 14,
       pbuf_header = (\<lambda>k p. if k < 0 then lower (nat (- k)) p else raise_hdr (nat k) p),
       pbuf_alloc = (\<lambda>n st. (Some (ex_pbuf (unat n)), st\<lparr>rest := (fst (rest st), Suc (snd (rest st)))\<rparr>)),
       pbuf_free = (\<lambda>_. cw_drop),
       netif_input = box_input cw_get cw_set cw_drop,
       LINK_STATS_INC = (\<lambda>_ st. st) \<rparr>"

definition path_cs :: "(boxes \<times> nat) csx" where
  "path_cs = \<lparr>cs_eth = path_cs_eth, IOPIN = (\<lambda>st. push_bit 16 (ucast (ex_chip (bus st)))),
     posTaskSleep = (\<lambda>_ st. st), cs_MS = (\<lambda>t. t)\<rparr>"

abbreviation cw_mail :: "cs_world mail" where "cw_mail \<equiv> box_mail cw_get cw_set"

definition cw0 :: cs_world where
  "cw0 = \<lparr>IODIR = SD_ALL OR IOR OR IOW OR SA_ALL, latch = IOR OR IOW, bus = [],
     rest = (\<lparr>box = [], pkts = []\<rparr>, 0)\<rparr>"

lemma cw_simps [simp]:
  "lens cw_get cw_set" "cw_get (cw_drop st) = cw_get st" "cw_get (cw_set b st) = b"
  "bus (cw_set b st) = bus st" "IODIR (cw_set b st) = IODIR st" "latch (cw_set b st) = latch st"
  "bus (cw_drop st) = bus st" "IODIR (cw_drop st) = IODIR st" "latch (cw_drop st) = latch st"
  "snd (rest (cw_set b st)) = snd (rest st)" "snd (rest (cw_drop st)) = snd (rest st) - 1"
  by (simp_all add: lens_def cw_get_def cw_set_def cw_drop_def)

lemma path_cs_simps [simp]:
  "cs_eth path_cs = path_cs_eth" "ETH_PAD_SIZE path_cs_eth = 2" "eth_type_off path_cs_eth = 14"
  "netif_input path_cs_eth = box_input cw_get cw_set cw_drop" "LINK_STATS_INC path_cs_eth k st = st"
  "posTaskSleep path_cs t st = st" "cs_MS path_cs t = t"
  by (simp_all add: path_cs_def path_cs_eth_def)

lemma cw_input:
  "same_io st (snd (box_input cw_get cw_set cw_drop p st)) \<and>
    snd (rest (snd (box_input cw_get cw_set cw_drop p st))) =
      (if fst (box_input cw_get cw_set cw_drop p st) = ERR_OK then snd (rest st) - 1 else snd (rest st))"
  by (simp add: box_input_def Let_def trypost_eq box_put_def same_io_def)

lemma path_cs_ok: "cs_path_ok path_cs ex_chip ex_frames ex_coming snd cw_mail"
proof -
  have "data_of (push_bit 16 (ucast b)) = ucast (b :: u8)" for b
    using set_data(1) [of 0 "ucast b"] by (simp add: ucast_u8 data_of_def)
  then have "pin_ok (IOPIN path_cs) ex_chip" by (simp add: pin_ok_def path_cs_def)
  moreover have "header_ok path_cs_eth" by (auto simp: header_ok_def path_cs_eth_def lower_0)
  moreover have "pool_ok path_cs_eth (\<lambda>st. snd (rest st)) (\<lambda>st. ex_frames (bus st))"
    by (auto simp: pool_ok_def path_cs_eth_def ex_pbuf_def pbuf_ok_def seg_ok_def type_readable_def)
  moreover have "stack_ok path_cs_eth (\<lambda>st. snd (rest st)) (\<lambda>st. ex_frames (bus st))"
    using cw_input by (simp add: stack_ok_def same_io_def) (simp add: path_cs_eth_def)
  moreover have "io_frame path_cs_eth"
    using cw_input by (simp add: io_frame_def) (simp add: path_cs_eth_def same_io_def)
  moreover have "even_pool path_cs_eth"
    unfolding even_pool_def using ex_pbuf_even by (simp add: drop_pad_def path_cs_eth_def)
  ultimately have "cs_ok path_cs ex_chip ex_frames ex_coming snd" using ex_chip_ok by (simp add: cs_ok_def)
  moreover have "pool_apart cw_mail path_cs_eth"
    by (auto simp: pool_apart_def path_cs_eth_def cw_get_def cw_drop_def intro!: box_same)
  moreover have "rest st' = rest st \<Longrightarrow> same_mail cw_mail st st'" for st st' :: cs_world
    by (rule box_same) (simp add: cw_get_def)
  ultimately show ?thesis
    using box_apart [of cw_get cw_set] box_input_ok(1) [of cw_get cw_set cw_drop path_cs_eth]
    by (simp add: cs_path_ok_def)
qed

text \<open>What the small chip has received: the second frame, once it has arrived.\<close>

definition ex_came :: "cyc list \<Rightarrow> u8 list list" where
  "ex_came B = replicate (1 - ex_coming B) ex_frame"

lemma chip_later: "later (foldl chip_cyc s cs) \<le> later s"
proof (induction cs arbitrary: s)
  case (Cons c cs)
  have "later (chip_cyc s c) \<le> later s" by (cases c) (simp_all add: chip_data_def chip_frame_port_def)
  with Cons.IH [of "chip_cyc s c"] show ?case by simp
qed simp

lemma ex_arrivals: "arrivals ex_frames ex_came"
proof -
  have le: "ex_coming B \<le> 1" for B
    unfolding ex_coming_def chip_run_def by (rule order_trans [OF chip_later]) simp
  have "\<exists>new. ex_frames (B @ poll_cycles) = ex_frames B @ new \<and> ex_came (B @ poll_cycles) = ex_came B @ new" for B
    using le [of B] by (cases "ex_coming B")
      (simp_all add: ex_came_def ex_frames_def [of "B @ poll_cycles"] ex_coming_def [of "B @ poll_cycles"] chip_after_poll)
  moreover have "ex_frames (B @ poll_cycles @ header_cycles @ rx_reads n) = fs \<and>
      ex_came (B @ poll_cycles @ header_cycles @ rx_reads n) = ex_came (B @ poll_cycles)"
    if q: "ex_frames (B @ poll_cycles) = f # fs" for B f fs n
  proof -
    note h = chip_after_header [OF q]
    have run: "chip_run (B @ poll_cycles @ header_cycles @ cs) =
        foldl chip_cyc (chip_run (B @ poll_cycles @ header_cycles)) cs" for cs
      using chip_run_append [of "B @ poll_cycles @ header_cycles" cs] by simp
    have "phase (chip_run (B @ poll_cycles @ header_cycles)) = 4" unfolding h by simp
    from chip_reads [OF this, of n, folded run] show ?thesis
      by (simp add: ex_frames_def ex_came_def ex_coming_def h)
  qed
  ultimately show ?thesis unfolding arrivals_def by (metis append_Nil2)
qed

lemma path_cs_ready: "cs_ready path_cs ex_chip ex_frames ex_coming ex_came snd cw_mail"
proof -
  have "frame_type path_cs_eth ex_frame = 0x0806" by (simp add: frame_type_def ex_frame_def nth_append)
  moreover have "eth_accepted path_cs_eth 0x0806" by (simp add: eth_accepted_def path_cs_eth_def)
  ultimately have "lwip_frame path_cs_eth ex_frame" by (simp add: lwip_frame_def) (simp add: ex_frame_def)
  then have "\<forall>B. \<forall>f \<in> set (ex_frames B). lwip_frame path_cs_eth f" using ex_frames_only by fastforce
  moreover have "mail_serves cw_mail path_cs_eth"
    using box_input_ok(2) [of cw_get cw_set cw_drop path_cs_eth] by (simp add: mail_serves_def) (simp add: path_cs_eth_def)
  ultimately show ?thesis using path_cs_ok ex_arrivals by (simp add: cs_ready_def)
qed

lemma cw0_facts:
  "idle cw0" "inbox cw_mail cw0 = []" "mail_inv cw_mail cw0" "mail_cap cw_mail cw0 = 4"
  "ex_frames (bus cw0) = [ex_frame]" "ex_coming (bus cw0) = 1" "mail_room cw_mail cw0" "rest cw0 = (\<lparr>box = [], pkts = []\<rparr>, 0)"
  using all_out [of 0]
  by (simp_all add: cw0_def idle_def strobes_high_def pin_bits inbox_def box_inv box_room mail_cap_def
      mbox_capacity_def cw_get_def ex_frames_def ex_coming_def chip_run_def)

text \<open>One frame is in the chip, another arrives during the round.\<close>

theorem cs_round_delivers_witness:
  "\<exists>st1 st' ps new. cs8900aThread_round path_cs 3 cw0 = Some (Inr st') \<and> inbox cw_mail st' = ps \<and>
    map (pbuf_frame path_cs_eth) ps = ex_frame # new \<and> ex_came (bus st1) = new \<and> ex_frames (bus st1) = [] \<and>
    cs8900aIfInput path_cs st1 = Inr (False, st')"
proof -
  have s: "posTaskSleep path_cs (cs_MS path_cs 10) cw0 = cw0" by simp
  from cs_round_delivers [OF path_cs_ready s cw0_facts(1,3), of 3] show ?thesis
    by (auto simp: cw0_facts ex_came_def [of "bus cw0"])
qed

text \<open>The driver polls once, then the tcpip thread fetches.\<close>

lemma cs_path_run:
  "\<exists>s. rx_reach cw_mail (cs8900aIfInput path_cs) idle (\<lambda>st. ex_frames (bus st)) (\<lambda>st. snd (rest st))
      \<lparr>net = cw0, arrived = [], delivered = []\<rparr> s \<and> length (delivered s) = 1"
proof -
  let ?s = "\<lparr>net = cw0, arrived = [], delivered = []\<rparr>"
  have i: "cs_ready path_cs ex_chip ex_frames ex_coming ex_came snd cw_mail \<and> idle cw0"
    using path_cs_ready cw0_facts(1) by simp
  from cs_lossless.input_keeps [OF i] obtain again w where w: "cs8900aIfInput path_cs cw0 = Inr (again, w)"
    by (auto simp: cs8900aIfInput_def)
  with cs_lossless.input_posts [OF i cw0_facts(3,7), of again w] cs_lossless.input_path [OF i cw0_facts(3), of again w]
  have "again" "length (inbox cw_mail w) = 1" "mail_inv cw_mail w"
    by (auto simp: cs8900aIfInput_def cw0_facts split: if_splits)
  with w have w: "cs8900aIfInput path_cs cw0 = Inr (True, w)" "length (inbox cw_mail w) = 1" "mail_inv cw_mail w"
    by simp_all
  have s1: "rx_reach cw_mail (cs8900aIfInput path_cs) idle (\<lambda>st. ex_frames (bus st)) (\<lambda>st. snd (rest st)) ?s (?s\<lparr>net := w\<rparr>)"
    by (rule rx_reach.Next [OF rx_reach.Begin rx_step.Polls [of "cs8900aIfInput path_cs" ?s True w]]) (simp add: w(1))
  have "outside idle (\<lambda>st. ex_frames (bus st)) (\<lambda>st. snd (rest st)) u [] (cw_set b u)" for b u
    by (simp add: outside_def idle_def)
  from box_fetches [of cw_get cw_set "?s\<lparr>net := w\<rparr>", OF _ _ _ this] w(2,3) obtain w2 p where
    "rx_step cw_mail (cs8900aIfInput path_cs) idle (\<lambda>st. ex_frames (bus st)) (\<lambda>st. snd (rest st)) (?s\<lparr>net := w\<rparr>)
      ((?s\<lparr>net := w\<rparr>)\<lparr>net := w2, delivered := delivered (?s\<lparr>net := w\<rparr>) @ [p]\<rparr>)" by fastforce
  note r = rx_reach.Next [OF s1 this]
  show ?thesis by (rule exI, rule conjI, rule r) simp
qed

theorem cs_frames_to_tcpip_witness:
  "\<exists>s taken all. rx_reach cw_mail (cs8900aIfInput path_cs) idle (\<lambda>st. ex_frames (bus st)) (\<lambda>st. snd (rest st))
      \<lparr>net = cw0, arrived = [], delivered = []\<rparr> s \<and>
    length (delivered s) = 1 \<and> taken @ ex_frames (bus (net s)) = ex_frame # all \<and>
    subseq (map (pbuf_frame path_cs_eth) (delivered s)) taken \<and> idle (net s)"
proof -
  let ?s = "\<lparr>net = cw0, arrived = [], delivered = []\<rparr>"
  from cs_path_run obtain s where s: "rx_reach cw_mail (cs8900aIfInput path_cs) idle (\<lambda>st. ex_frames (bus st))
      (\<lambda>st. snd (rest st)) ?s s" "length (delivered s) = 1" by blast
  have st: "rx_start cw_mail ?s" by (simp add: rx_start_def cw0_facts) (simp add: cw0_def cw_get_def)
  from cs_frames_to_tcpip [OF path_cs_ok st _ s(1)] obtain taken all where
    t: "taken @ ex_frames (bus (net s)) = ex_frame # all" "idle (net s)"
      "subseq (map (pbuf_frame path_cs_eth) (delivered s) @ map (pbuf_frame path_cs_eth) (inbox cw_mail (net s))) taken"
    by (auto simp: cw0_facts)
  have "subseq (map (pbuf_frame path_cs_eth) (delivered s)) taken"
    using t(3) by (rule subseq_order.trans [rotated]) (rule list_emb_prefix, rule subseq_order.order_refl)
  with s t(1,2) show ?thesis by blast
qed

end
