(* ===== verification/Spec2Isabelle.thy ===== *)
theory Spec2Isabelle
  imports Dhcp_Lifecycle Sys_Properties Sockets_Properties Cs8900a_Sharing Tap_Path Cs8900a_Path
begin

text \<open>
  A verification library for picoos-lwip, the port of the TCP/IP stack lwIP to the operating
  system pico]OS. The repository holds the glue: an OS layer lwIP calls, a socket layer on
  top of lwIP, two Ethernet drivers below it and a small DHCP server beside it. lwIP,
  pico]OS, picoos-micro, the host of the tap driver and the CS8900A chip are not part of it;
  they are parameters of the model, records of the operations the code calls, and what the
  code relies on is stated in named predicates (\<open>dhcp_msg_ok\<close>, \<open>ip4_macros_ok\<close>, \<open>ring_ok\<close>,
  \<open>uos_ok\<close>, \<open>header_ok\<close>, \<open>stack_ok\<close>, \<open>pool_ok\<close>, \<open>tap_ok\<close>, \<open>pin_ok\<close>, \<open>chip_ok\<close>, \<open>io_frame\<close>,
  \<open>even_pool\<close>, \<open>cs_ok\<close>, \<open>ring_wait_ok\<close>, \<open>int_ok\<close>, \<open>fds_ok\<close>, \<open>chip_tx_ok\<close>,
  \<open>tcpip_input_ok\<close>, \<open>mail_apart\<close>, \<open>pool_apart\<close>, \<open>mail_serves\<close>, \<open>arrivals\<close>). Every property with such a
  hypothesis has a witness on a concrete instance (\<open>rfc_msg\<close>, \<open>ex_pico\<close>, \<open>ex_uos\<close>, \<open>task_uos\<close>,
  \<open>ex_tap\<close>, \<open>ex_host\<close>, \<open>ex_cs\<close> with \<open>ex_chip\<close>, \<open>quiet_cs\<close>, \<open>path_tap\<close>, \<open>path_cs\<close>).
\<close>

section \<open>Conventions\<close>

text \<open>
  \<open>Prelude\<close>: machine integers are words of their width (\<open>u8\<close>, \<open>u16\<close>, \<open>u32\<close>, from
  \<open>include/arch/cc.h\<close>). A C object that is accessed byte-wise is the list of its bytes, a
  pointer into it an offset; \<open>rd\<close>, \<open>rd_n\<close> and \<open>wr_n\<close> are the checked accesses. What would be
  undefined behaviour, a failed assertion or an endless loop entered on purpose is a value of
  \<open>fault\<close>; a function that can fault returns \<open>'a res\<close>, and \<open>rbind\<close> threads it. A null pointer
  is \<open>None\<close>. Loops are structural recursions or have a termination proof; the three loops
  that depend on a device (\<open>cs_wait_init\<close>, \<open>drain\<close> in the two polling threads) have a number
  of rounds as argument and return \<open>None\<close> when it is used up: \<open>cs_init_programs\<close> shows that one
  more than the reads the chip needs is enough, \<open>tap_round_ends\<close> and \<open>cs_round_ends\<close> that one
  more than the frames that wait or arrive is. State is passed explicitly; what several
  parties do in any order (callbacks of the tcpip thread, tasks at a mailbox or at the file
  table, signals and the polling thread) is an inductive step relation whose steps are the
  code's own functions.

  \<open>Tasks\<close>: a call that can be interrupted is a \<open>task\<close>, the sequence of its accesses to the
  shared state; \<open>alone\<close> runs it without interruption, \<open>interleave\<close> runs two of them in the
  order a list of turns says.
\<close>

section \<open>The DHCP server, \<open>apps/dhcps/dhcps.c\<close>\<close>

text \<open>
  \<^item> \<open>Dhcp_Leases\<close>: the static table of three leases and \<open>allocateAddr\<close>. The abstract view is
    the partial map \<open>bindings\<close> from clients to addresses; the contract \<open>address_pool\<close>
    (lookup-or-insert, distinct addresses, bounded size) is interpreted on it as \<open>lt\<close>.
  \<^item> \<open>Dhcp_Options\<close>: reading and writing of options, the option loop of \<open>handleRequest\<close> as
    \<open>findReqIP\<close> (it ends because the offset grows and reading past the buffer is a fault), the
    encoding \<open>enc_opts\<close> and what the loop finds in it, and a calculus of writes at a moving
    pointer.
  \<^item> \<open>Dhcp_Server\<close>: \<open>newResp\<close>, the two handlers, the receive callback \<open>dhcpRecv\<close>, start and
    stop. A handler returns the new static state and the list of its calls into lwIP.
  \<^item> \<open>Dhcp_Replies\<close>: each branch of the handlers as a function of an abstract \<open>outcome\<close>, and
    the case analysis \<open>dhcpRecv_cases\<close> everything after it uses.
  \<^item> \<open>Dhcp_Session\<close>: runs of the server from a start on (\<open>dhcp_session\<close>), their invariant.
  \<^item> \<open>Dhcp_Properties\<close>: exclusive acknowledgements, an offer is honoured, pool and capacity,
    leases are never given back, well-formed replies, balanced buffers, memory safety and its
    limits, start.
  \<^item> \<open>Dhcp_Lifecycle\<close>: the server among the callbacks of the tcpip thread. Starts and stops queue
    jobs at any time, the thread runs them in order, messages arrive on any socket that still
    has the callback (\<open>dhcp_step\<close>). What holds of the lease table and the sockets in every
    reachable state from boot, and what a start on a running server leads to.
\<close>

section \<open>The OS layer, \<open>sys_arch.c\<close> and \<open>include/arch/sys_arch.h\<close>\<close>

text \<open>
  \<^item> \<open>Sys_Time\<close>: the waiting time the two blocking operations compute (\<open>waited_ms\<close>),
    \<open>sys_now\<close>, random numbers. The jiffy counter is taken to be 32 bits wide and unsigned.
  \<^item> \<open>Sys_Arch\<close>: mutexes, semaphores, mailboxes, protection and threads over the record
    \<open>pico\<close>. The contracts \<open>os_object\<close> (creation and validity; interpreted as \<open>sem\<close>, \<open>mutex\<close>,
    \<open>mbox\<close>) and \<open>timed_wait\<close> (waiting times; \<open>semwait\<close>, \<open>fetchwait\<close>).
  \<^item> \<open>Sys_Mbox\<close>: the contract \<open>bounded_fifo\<close> of a queue, interpreted on the non-blocking mailbox
    operations as \<open>mboxq\<close>.
  \<^item> \<open>Sys_Tasks\<close>: its extension \<open>blocking_fifo\<close> by the waiting operations, interpreted as
    \<open>mboxb\<close>, and any number of tasks at one mailbox (\<open>mbox_step\<close>). How long a
    call waits is read off the timeout the code passes to the ring (\<open>ring_log\<close>): a call that
    would wait without a limit takes no step. \<open>work\<close> bounds the steps that post or fetch something.
  \<^item> \<open>Sys_Properties\<close>: mailboxes lose and reorder nothing, alone and between tasks, no message
    is stuck, the results of the operations, bounds and exactness of waiting times, the overflow of \<open>sys_now\<close>.
\<close>

section \<open>Sockets, \<open>sockets.c\<close> and \<open>include/picoos-lwip.h\<close>\<close>

text \<open>
  \<^item> \<open>Sockets\<close>: socket files and every operation and macro on them. The abstract view is the
    map \<open>socks\<close> from slots of the open-file table to descriptors of lwIP. The macros of lwIP's
    name service involve no slot (\<open>on_ext\<close>).
  \<^item> \<open>Sockets_Table\<close>: each operation as an update of that map, and the contract \<open>slot_table\<close>
    (over a run the slots in use are what the caller's ledger says), interpreted as \<open>sockt\<close>.
  \<^item> \<open>Sockets_Tasks\<close>: \<open>socket\<close>, \<open>accept\<close> and \<open>sockClose\<close> cut at their calls of picoos-micro and
    lwIP (\<open>sock_pc\<close>, \<open>sock_pc_step\<close>; \<open>run_pc\<close> without interruption is the function), and any
    number of tasks in them at once (\<open>sock_step\<close>). Files and descriptors have one owner each
    (\<open>owned\<close>), the application or a task on its way.
  \<^item> \<open>Sockets_Properties\<close>: what \<open>socket\<close>, \<open>accept\<close>, \<open>close\<close> and the other operations do on
    every branch, alone and between tasks, and the two places where a slot is mishandled.
\<close>

section \<open>The Ethernet drivers, \<open>netif/tapif.c\<close> and \<open>netif/cs8900a_lpc_e2129.c\<close>\<close>

text \<open>
  \<^item> \<open>Netif_Common\<close>: packets as chains of segments in memory, copying between a chain and a
    buffer, the padding word (\<open>ETH_PAD_SIZE\<close> of any size below 64, 0 included).
  \<^item> \<open>Netif_Driver\<close>: the dispatch on the Ethernet type and the polling loop, with the contract
    \<open>eth_driver\<close>: receiving takes a frame and holds a packet, disposing drops it; so the loop
    ends and holds nothing back.
  \<^item> \<open>Tapif\<close>, \<open>Tap_Wakeup\<close>, \<open>Tapif_Properties\<close>: the tap driver, its interpretation \<open>tap\<close> of the
    contract, the interleavings of arriving signals and polling thread as the step relation
    \<open>tap_step\<close>: no wake-up is lost, every frame is read; packets are well-formed; initialisation as a list of actions.
  \<^item> \<open>Tap_Signal\<close>: the signal handler (\<open>ioReady\<close>, \<open>ioReadyContext_full\<close>) with its change of
    stacks and contexts. It implements the atomic signal \<open>ioReadyContext\<close> of \<open>Tap_Wakeup\<close>, and
    no task sees it (\<open>task_view\<close>).
  \<^item> \<open>Cs8900a_Regs\<close>: the register header of the chip as tables of symbols.
  \<^item> \<open>Cs8900a_Bus\<close>: the port of the processor bit by bit. \<open>emit\<close> reads bus cycles off the
    changing pins, and marks every violation of the bus protocol; each access function is
    shown to make the two cycles of a 16-bit access.
  \<^item> \<open>Cs8900a\<close>, \<open>Cs8900a_Driver\<close>, \<open>Cs8900a_Init\<close>, \<open>Cs8900a_Contract\<close>: the driver on top, the
    cycles of its loops, of its initialisation, and the interpretation \<open>cs\<close> of the contract
    under \<open>chip_ok\<close>, which describes the answers of the chip, frames arriving during the
    driver's accesses included (\<open>coming\<close> bounds how many are still to come).
  \<^item> \<open>Cs8900a_Session\<close>: any sequence of sends and polls (\<open>cs_run\<close>), under \<open>chip_tx_ok\<close>, which
    says that sending takes no frame out of the chip, and a skip at most one.
  \<^item> \<open>Cs8900a_Tasks\<close>, \<open>Cs8900a_Sharing\<close>: sending and receiving as tasks, one turn for each
    access to the port. One call at a time keeps the protocol and the order of the frames; a
    poll in the middle of a send does not, because the two share the port and the chip's
    register pointer without a lock.
  \<^item> \<open>Cs8900a_Properties\<close>: bus accesses, the unrolled accesses to frame data against the general
    ones, other pins, initialisation, sending, receiving, the polling thread, registers.
\<close>

section \<open>From a device to the tcpip thread\<close>

text \<open>
  The layers put together: a driver's input function receives a frame and passes the packet to
  \<open>netif->input\<close>, lwIP's \<open>tcpip_input\<close>, which posts it with \<open>sys_mbox_trypost\<close> to the mailbox
  out of which the tcpip thread fetches it with \<open>sys_arch_mbox_fetch\<close>.

  \<^item> \<open>Net_Path\<close>: the messages that carry packets (\<open>mail\<close>) and what lwIP does with one.
    \<open>tcpip_input_ok\<close>: it posts the packet in a message that was free or changes nothing;
    \<open>messages_left\<close>: it gives up only when the post fails; \<open>mail_apart\<close>, \<open>pool_apart\<close>: rings,
    messages and packet pool do not touch each other; \<open>mail_serves\<close>: there is memory. The steps
    of polling thread, tcpip thread and arriving frames are the relation \<open>rx_step\<close>. The contract
    \<open>frame_path\<close> extends \<open>eth_driver\<close> by the order of the frames, and its extension
    \<open>lossless_path\<close> says that nothing is dropped when there is memory and room, of all the
    frames that have come (\<open>came\<close>; for the chip \<open>arrivals\<close>).
  \<^item> \<open>Tap_Path\<close>, \<open>Cs8900a_Path\<close>: both drivers keep both contracts (interpretations \<open>tap_path\<close>,
    \<open>tap_lossless\<close>, \<open>cs_path\<close>, \<open>cs_lossless\<close>), under \<open>tap_path_ok\<close> and \<open>cs_path_ok\<close>, which add to
    \<open>tap_ok\<close> and \<open>cs_ok\<close> that device and bus do not touch the mailbox. Packets come out of the
    mailbox in the order of their frames, each once, and one round of a polling thread puts all
    frames that wait into a mailbox with room for them. The steps of the CS8900A's path are whole
    calls; a send by the tcpip thread is among them as long as it takes no frame out of the chip
    (\<open>Cs8900a_Session\<close> says when it does, \<open>Cs8900a_Sharing\<close> what an interruption breaks).
  \<^item> \<open>Net_Instance\<close>: a mailbox of four messages and a packet table, inside any state, for the
    witnesses.
\<close>

section \<open>What is not modelled\<close>

text \<open>
  Prints (other than those of the DHCP server), SNMP counters set by \<open>NETIF_INIT_SNMP\<close>, delays
  (\<open>IO_DELAY\<close> changes no pin), compile-time settings (\<open>include/arch/perf.h\<close>, the formats and
  byte order of \<open>cc.h\<close>), prototypes and the build files. The macro \<open>getsockopt\<close> cannot be called
  as it is written: it is an object-like macro, and its uses do not mean a call. The sockets of
  lwIP, the ring of picoos-micro and the host's contexts are known only by the named predicates.
  Concurrency is modelled where the code has a protocol of its own (\<open>Dhcp_Lifecycle\<close>, \<open>Sys_Tasks\<close>,
  \<open>Sockets_Tasks\<close>, \<open>Tap_Wakeup\<close>, \<open>Cs8900a_Tasks\<close>, the blocking calls that return the state
  after the wait). A turn of a task is one call of a lower layer or one access function of the
  CS8900A; an interruption inside such a function is not modelled. In \<open>tap_step\<close> each frame comes
  with a signal of its own. Mutexes, semaphores and the scheduler lock between tasks are
  pico]OS's alone: the port adds nothing to them.

  The start-up of an interface is modelled up to the creation of its polling thread; the loop
  that thread runs is modelled by its rounds and, for the tap interface, by \<open>tap_step\<close>. Between
  the DHCP server and the drivers are lwIP's UDP, IP and ARP, which are not in the repository,
  so the server's replies end at the call of \<open>udp_sendto_if\<close> and its requests begin at the
  receive callback.
\<close>

end
